(* ===== verification/Prelude.thy ===== *)
theory Prelude
  imports Main "HOL-Library.Word" "HOL-Library.Sublist"
begin

text \<open>
  What the components share: the machine-integer types of the Go source, fallible results
  as sums, byte buffers with Go's slicing and in-place writes, little-endian integers
  (Go's \<open>encoding/binary\<close>), fixed-width record codecs as a locale, and runs of a fallible
  step function with an invariant as a locale.
\<close>

unbundle bit_operations_syntax

type_synonym byte = "8 word"
type_synonym u16 = "16 word"
type_synonym u32 = "32 word"
type_synonym u64 = "64 word"

named_theorems res_simps \<open>equations of the result monad\<close>
named_theorems buf_simps \<open>lengths, slices and updates of byte buffers\<close>

section \<open>Definitions\<close>

subsection \<open>Results: \<open>Inl\<close> is the Go error, \<open>Inr\<close> the value\<close>

definition bind_res :: "'e + 'a \<Rightarrow> ('a \<Rightarrow> 'e + 'b) \<Rightarrow> 'e + 'b" where
  "bind_res r f = (case r of Inl e \<Rightarrow> Inl e | Inr x \<Rightarrow> f x)"

definition guard_res :: "bool \<Rightarrow> 'e \<Rightarrow> 'e + unit" where
  "guard_res b e = (if b then Inr () else Inl e)"

fun map_res :: "('a \<Rightarrow> 'e + 'b) \<Rightarrow> 'a list \<Rightarrow> 'e + 'b list" where
  "map_res f [] = Inr []"
| "map_res f (x # xs) = bind_res (f x) (\<lambda>y. bind_res (map_res f xs) (\<lambda>ys. Inr (y # ys)))"

fun run_steps :: "('s \<Rightarrow> 'a \<Rightarrow> 'e + 's) \<Rightarrow> 's \<Rightarrow> 'a list \<Rightarrow> 'e + 's" where
  "run_steps f s [] = Inr s"
| "run_steps f s (x # xs) = bind_res (f s x) (\<lambda>s'. run_steps f s' xs)"

text \<open>\<open>res_ok P r\<close>: if \<open>r\<close> is a value, it satisfies \<open>P\<close>.\<close>

definition res_ok :: "('a \<Rightarrow> bool) \<Rightarrow> 'e + 'a \<Rightarrow> bool" where
  "res_ok P r = (case r of Inl _ \<Rightarrow> True | Inr x \<Rightarrow> P x)"

subsection \<open>Buffers\<close>

text \<open>\<open>slice off n xs\<close> is Go's \<open>xs[off:off+n]\<close> where it is in range; \<open>put_at off ys xs\<close> is
  \<open>copy(xs[off:], ys)\<close> where \<open>ys\<close> fits.\<close>

definition slice :: "nat \<Rightarrow> nat \<Rightarrow> 'a list \<Rightarrow> 'a list" where
  "slice off n xs = take n (drop off xs)"

definition put_at :: "nat \<Rightarrow> 'a list \<Rightarrow> 'a list \<Rightarrow> 'a list" where
  "put_at off ys xs = take off xs @ ys @ drop (off + length ys) xs"

subsection \<open>Little-endian integers\<close>

definition put_le :: "nat \<Rightarrow> 'a::len word \<Rightarrow> byte list" where
  "put_le n w = map (\<lambda>i. ucast (drop_bit (8 * i) w)) [0..<n]"

primrec get_le :: "byte list \<Rightarrow> 'a::len word" where
  "get_le [] = 0"
| "get_le (b # bs) = ucast b OR push_bit 8 (get_le bs)"

definition put16 :: "u16 \<Rightarrow> byte list" where "put16 w = put_le 2 w"
definition put32 :: "u32 \<Rightarrow> byte list" where "put32 w = put_le 4 w"
definition put64 :: "u64 \<Rightarrow> byte list" where "put64 w = put_le 8 w"

text \<open>Go's \<open>binary.LittleEndian.UintNN(bs)\<close> reads the first bytes of \<open>bs\<close> and panics where
  \<open>bs\<close> is shorter.\<close>

definition get16 :: "byte list \<Rightarrow> u16" where "get16 bs = get_le (take 2 bs)"
definition get32 :: "byte list \<Rightarrow> u32" where "get32 bs = get_le (take 4 bs)"
definition get64 :: "byte list \<Rightarrow> u64" where "get64 bs = get_le (take 8 bs)"

section \<open>Lemmas\<close>

subsection \<open>Results\<close>

lemma bind_res_simps [simp, res_simps]:
  "bind_res (Inl e) f = Inl e"
  "bind_res (Inr x) f = f x"
  by (simp_all add: bind_res_def)

lemma bind_res_eq_Inr [res_simps]:
  "bind_res r f = Inr y \<longleftrightarrow> (\<exists>x. r = Inr x \<and> f x = Inr y)"
  by (cases r) auto

lemma bind_res_eq_Inl [res_simps]:
  "bind_res r f = Inl e \<longleftrightarrow> r = Inl e \<or> (\<exists>x. r = Inr x \<and> f x = Inl e)"
  by (cases r) auto

lemma bind_res_assoc: "bind_res (bind_res r f) g = bind_res r (\<lambda>x. bind_res (f x) g)"
  by (cases r) auto

lemma guard_res_eq [simp, res_simps]:
  "guard_res b e = Inr u \<longleftrightarrow> b"
  "guard_res b e = Inl e' \<longleftrightarrow> \<not> b \<and> e' = e"
  by (auto simp: guard_res_def)

lemma res_ok_simps [simp]: "res_ok P (Inl e)" "res_ok P (Inr x) \<longleftrightarrow> P x"
  by (simp_all add: res_ok_def)

lemma res_ok_bind: "res_ok P r \<Longrightarrow> (\<And>x. P x \<Longrightarrow> res_ok Q (f x)) \<Longrightarrow> res_ok Q (bind_res r f)"
  by (cases r) auto

lemma res_okD: "res_ok P r \<Longrightarrow> r = Inr x \<Longrightarrow> P x"
  by simp

lemma res_ok_mono: "res_ok P r \<Longrightarrow> (\<And>x. P x \<Longrightarrow> Q x) \<Longrightarrow> res_ok Q r"
  by (cases r) auto

lemma map_res_Inr_iff:
  "map_res f xs = Inr ys \<longleftrightarrow> list_all2 (\<lambda>x y. f x = Inr y) xs ys"
  by (induction xs arbitrary: ys) (auto simp: bind_res_eq_Inr list_all2_Cons1)

lemma map_res_all_Inr: "(\<And>x. x \<in> set xs \<Longrightarrow> f x = Inr (g x)) \<Longrightarrow> map_res f xs = Inr (map g xs)"
  by (induction xs) auto

lemma map_res_length: "map_res f xs = Inr ys \<Longrightarrow> length ys = length xs"
  by (auto simp: map_res_Inr_iff dest: list_all2_lengthD)

lemma run_steps_append:
  "run_steps f s (xs @ ys) = bind_res (run_steps f s xs) (\<lambda>s'. run_steps f s' ys)"
  by (induction xs arbitrary: s) (auto simp: bind_res_assoc)

lemma map_res_Inl: "map_res f xs = Inl e \<Longrightarrow> \<exists>x\<in>set xs. f x = Inl e"
  by (induction xs) (auto simp: bind_res_eq_Inl)

lemma map_res_unit:
  "(\<exists>ys. map_res f xs = Inr ys) \<longleftrightarrow> (\<forall>x\<in>set xs. \<exists>y. f x = Inr y)"
  by (induction xs) (auto simp: bind_res_eq_Inr)

lemma run_steps_cong:
  "(\<And>s x. x \<in> set xs \<Longrightarrow> f s x = g s x) \<Longrightarrow> run_steps f s xs = run_steps g s xs"
proof (induction xs arbitrary: s)
  case (Cons x xs)
  then show ?case by (cases "g s x") auto
qed simp

subsection \<open>Buffers\<close>

lemma length_slice [simp, buf_simps]: "length (slice off n xs) = min n (length xs - off)"
  by (simp add: slice_def)

lemma slice_0 [simp]: "slice off 0 xs = []"
  by (simp add: slice_def)

lemma slice_all [simp]: "slice 0 (length xs) xs = xs"
  by (simp add: slice_def)

lemma slice_append_left [buf_simps]:
  "off + n \<le> length xs \<Longrightarrow> slice off n (xs @ ys) = slice off n xs"
  by (simp add: slice_def)

lemma slice_append_right [buf_simps]:
  "length xs \<le> off \<Longrightarrow> slice off n (xs @ ys) = slice (off - length xs) n ys"
  by (simp add: slice_def)

lemma slice_exact: "length xs = off \<Longrightarrow> length ys = n \<Longrightarrow> slice off n (xs @ ys @ zs) = ys"
  by (simp add: slice_def)

lemma slice_slice [buf_simps]:
  "slice a n (slice b m xs) = slice (a + b) (min n (m - a)) xs"
  by (simp add: slice_def drop_take min_def ac_simps)

lemma slice_nth: "i < n \<Longrightarrow> off + i < length xs \<Longrightarrow> slice off n xs ! i = xs ! (off + i)"
  by (simp add: slice_def)

lemma take_drop_slice: "take n (drop off xs) = slice off n xs"
  by (simp add: slice_def)

lemma length_put_at [simp, buf_simps]:
  "off + length ys \<le> length xs \<Longrightarrow> length (put_at off ys xs) = length xs"
  by (simp add: put_at_def)

lemma nth_put_at:
  "off + length ys \<le> length xs \<Longrightarrow> i < length xs \<Longrightarrow>
   put_at off ys xs ! i = (if off \<le> i \<and> i < off + length ys then ys ! (i - off) else xs ! i)"
  by (auto simp: put_at_def nth_append min_def)

lemma slice_put_at_same [buf_simps]:
  "off + length ys \<le> length xs \<Longrightarrow> slice off (length ys) (put_at off ys xs) = ys"
  by (simp add: put_at_def slice_def)

lemma slice_put_at_disjoint [buf_simps]:
  assumes "off + length ys \<le> length xs" "a + n \<le> off \<or> off + length ys \<le> a"
  shows "slice a n (put_at off ys xs) = slice a n xs"
proof (rule nth_equalityI)
  show "length (slice a n (put_at off ys xs)) = length (slice a n xs)"
    using assms by simp
  fix i assume "i < length (slice a n (put_at off ys xs))"
  then have i: "i < n" "a + i < length xs" using assms by auto
  then show "slice a n (put_at off ys xs) ! i = slice a n xs ! i"
    using assms by (auto simp: slice_nth nth_put_at)
qed

lemma drop_slice: "off + n \<le> length xs \<Longrightarrow> drop off xs = slice off n xs @ drop (off + n) xs"
  by (metis append_take_drop_id drop_drop add.commute slice_def)

subsection \<open>Little-endian integers\<close>

lemma length_put_le [simp, buf_simps]: "length (put_le n w) = n"
  by (simp add: put_le_def)

lemma length_puts [simp, buf_simps]:
  "length (put16 a) = 2" "length (put32 b) = 4" "length (put64 c) = 8"
  by (simp_all add: put16_def put32_def put64_def)

lemma bit_get_le: "bit (get_le bs :: 'a::len word) k \<longleftrightarrow>
   k < LENGTH('a) \<and> k div 8 < length bs \<and> bit (bs ! (k div 8)) (k mod 8)"
proof (induction bs arbitrary: k)
  case Nil
  then show ?case by simp
next
  case (Cons b bs)
  show ?case
  proof (cases "k < 8")
    case True
    then show ?thesis by (auto simp: bit_or_iff bit_push_bit_iff bit_ucast_iff)
  next
    case False
    then have "(k - 8) div 8 = k div 8 - 1" "(k - 8) mod 8 = k mod 8" "k div 8 = Suc (k div 8 - 1)"
      by (auto simp: le_div_geq le_mod_geq)
    with False Cons.IH[of "k - 8"] show ?thesis
      by (auto simp: bit_or_iff bit_push_bit_iff bit_ucast_iff nth_Cons
               split: nat.splits dest: bit_imp_le_length)
  qed
qed

lemma get_put_le: "LENGTH('a) \<le> 8 * n \<Longrightarrow> get_le (put_le n w) = (w :: 'a::len word)"
  by (rule bit_eqI)
     (auto simp: bit_get_le put_le_def bit_ucast_iff bit_drop_bit_eq dest: bit_imp_le_length)

lemma put_get_le:
  assumes "8 * length bs \<le> LENGTH('a)"
  shows "put_le (length bs) (get_le bs :: 'a::len word) = bs"
proof (rule nth_equalityI)
  show "length (put_le (length bs) (get_le bs :: 'a word)) = length bs" by simp
  fix i assume "i < length (put_le (length bs) (get_le bs :: 'a word))"
  then have i: "i < length bs" by simp
  show "put_le (length bs) (get_le bs :: 'a word) ! i = bs ! i"
  proof (rule bit_word_eqI)
    fix k assume k: "k < LENGTH(8)"
    have "(8 * i + k) div 8 = i" "(8 * i + k) mod 8 = k" "8 * i + k < LENGTH('a)"
      using i k assms by auto
    then show "bit (put_le (length bs) (get_le bs :: 'a word) ! i) k = bit (bs ! i) k"
      using i k by (auto simp: put_le_def bit_ucast_iff bit_drop_bit_eq bit_get_le add.commute)
  qed
qed

lemma get_put_append [simp, buf_simps]:
  "get16 (put16 a @ xs) = a" "get32 (put32 b @ xs) = b" "get64 (put64 c @ xs) = c"
  by (simp_all add: get16_def get32_def get64_def put16_def put32_def put64_def get_put_le)

lemma get_put [simp, buf_simps]:
  "get16 (put16 a) = a" "get32 (put32 b) = b" "get64 (put64 c) = c"
  using get_put_append[of _ "[]"] by simp_all

lemma put_get_le_take:
  assumes "n \<le> length bs" "8 * n \<le> LENGTH('a)"
  shows "put_le n (get_le (take n bs) :: 'a::len word) = take n bs"
proof -
  have "length (take n bs) = n" using assms(1) by simp
  then show ?thesis
    using put_get_le[of "take n bs", where 'a = 'a] assms(2) by simp
qed

lemma put_get:
  "2 \<le> length bs \<Longrightarrow> put16 (get16 bs) = take 2 bs"
  "4 \<le> length bs \<Longrightarrow> put32 (get32 bs) = take 4 bs"
  "8 \<le> length bs \<Longrightarrow> put64 (get64 bs) = take 8 bs"
  by (simp_all add: get16_def get32_def get64_def put16_def put32_def put64_def put_get_le_take)

lemma get_take [simp]:
  "2 \<le> n \<Longrightarrow> get16 (take n bs) = get16 bs"
  "4 \<le> n \<Longrightarrow> get32 (take n bs) = get32 bs"
  "8 \<le> n \<Longrightarrow> get64 (take n bs) = get64 bs"
  by (simp_all add: get16_def get32_def get64_def min_def)

lemma get_drop_slice:
  "get16 (drop off bs) = get16 (slice off 2 bs)"
  "get32 (drop off bs) = get32 (slice off 4 bs)"
  "get64 (drop off bs) = get64 (slice off 8 bs)"
  by (simp_all add: get16_def get32_def get64_def slice_def)

lemma put64_eq_iff [simp]: "put64 a = put64 b \<longleftrightarrow> a = b"
  by (metis get_put(3))

lemma put32_eq_iff [simp]: "put32 a = put32 b \<longleftrightarrow> a = b"
  by (metis get_put(2))

lemma unat_of_nat64: "n < 2 ^ 64 \<Longrightarrow> unat (word_of_nat n :: u64) = n"
  by (simp add: unsigned_of_nat take_bit_nat_eq_self)

lemma unat_of_nat32: "n < 2 ^ 32 \<Longrightarrow> unat (word_of_nat n :: u32) = n"
  by (simp add: unsigned_of_nat take_bit_nat_eq_self)

lemma unat_less64: "unat (w :: u64) < 2 ^ 64"
  using unsigned_less[of w] by simp

section \<open>Interfaces\<close>

subsection \<open>Fixed-width records\<close>

text \<open>The contract of an on-disk record of \<open>width\<close> bytes: its encoder writes exactly that
  many, and its decoder reads them back whatever follows.\<close>

locale fixed_codec =
  fixes enc :: "'a \<Rightarrow> byte list" and dec :: "byte list \<Rightarrow> 'a" and width :: nat
  assumes length_enc: "length (enc x) = width"
    and dec_enc: "dec (enc x @ rest) = x"
begin

lemma length_concat_enc: "length (concat (map enc xs)) = length xs * width"
  by (induction xs) (simp_all add: length_enc)

lemma drop_concat_enc:
  "i \<le> length xs \<Longrightarrow> drop (i * width) (concat (map enc xs)) = concat (map enc (drop i xs))"
proof (induction i arbitrary: xs)
  case 0
  then show ?case by simp
next
  case (Suc i)
  then obtain x ys where xs: "xs = x # ys" by (cases xs) auto
  have "drop (Suc i * width) (concat (map enc xs)) = drop (i * width) (concat (map enc ys))"
    by (simp add: xs length_enc)
  with Suc xs show ?case by simp
qed

lemma dec_nth:
  assumes "i < length xs"
  shows "dec (drop (i * width) (concat (map enc xs) @ rest)) = xs ! i"
proof -
  have le: "i * width \<le> length (concat (map enc xs))"
    using assms by (simp add: length_concat_enc)
  have "drop i xs = xs ! i # drop (Suc i) xs"
    using assms by (simp add: Cons_nth_drop_Suc)
  then show ?thesis
    using assms le by (simp add: drop_concat_enc dec_enc)
qed

lemma dec_all:
  "map (\<lambda>i. dec (drop (i * width) (concat (map enc xs) @ rest))) [0..<length xs] = xs"
  by (rule nth_equalityI) (simp_all add: dec_nth del: drop_append)

lemma enc_inj: "enc x = enc y \<Longrightarrow> x = y"
  using dec_enc[of x "[]"] dec_enc[of y "[]"] by simp

end

interpretation c16: fixed_codec put16 get16 2
  by unfold_locales simp_all

interpretation c32: fixed_codec put32 get32 4
  by unfold_locales simp_all

interpretation c64: fixed_codec put64 get64 8
  by unfold_locales simp_all

subsection \<open>Runs of a fallible step that keeps an invariant\<close>

locale guarded_steps =
  fixes step :: "'s \<Rightarrow> 'a \<Rightarrow> 'e + 's" and good :: "'a \<Rightarrow> bool" and inv :: "'s \<Rightarrow> bool"
  assumes guarded_inv: "inv s \<Longrightarrow> good x \<Longrightarrow> step s x = Inr s' \<Longrightarrow> inv s'"
begin

lemma guarded_run: "inv s \<Longrightarrow> list_all good xs \<Longrightarrow> run_steps step s xs = Inr s' \<Longrightarrow> inv s'"
  by (induction xs arbitrary: s) (auto simp: bind_res_eq_Inr dest: guarded_inv)

end

locale step_invariant =
  fixes step :: "'s \<Rightarrow> 'a \<Rightarrow> 'e + 's" and inv :: "'s \<Rightarrow> bool"
  assumes step_inv: "inv s \<Longrightarrow> step s x = Inr s' \<Longrightarrow> inv s'"
begin

sublocale guarded_steps step "\<lambda>_. True" inv
  by unfold_locales (rule step_inv)

lemma run_inv: "inv s \<Longrightarrow> run_steps step s xs = Inr s' \<Longrightarrow> inv s'"
  using guarded_run by (simp add: list_all_iff)

end

end
