(* ===== verification/Ctfs.thy ===== *)
theory Ctfs
  imports Prelude "HOL-Library.List_Lexorder" "HOL-Library.Char_ord"
begin

text \<open>
  The CTFS container reader of \<open>internal/ctfs\<close>: base40 file names (\<open>base40.go\<close>) and the
  container itself (\<open>container.go\<close>). The opened file is its list of bytes, so a short
  \<open>ReadAt\<close> is a read past the end of that list; sizes that come from the length of a file are
  naturals, everything read from the file is a 64-bit word.
\<close>

section \<open>Definitions\<close>

datatype entry_reason =
    EntriesOverflow | EntryNoName nat | EntryBadName nat | EntryMapOutside nat | NoEntries

datatype ctfs_error =
    EmptyName | NameTooLong | NameBadChar
  | TooSmall | BadMagic | Encrypted | BadBlockSize | Block0Short
  | NoEntryArray "entry_reason list"
  | NoSuchFile | SliceTooLong | ReadShort | BlockOutside
  | LevelLimit | NoChain nat | MapHole nat | NullData | DataOutside

subsection \<open>Base40 names\<close>

definition base40Alphabet :: string where
  "base40Alphabet = CHR 0x00 # ''0123456789abcdefghijklmnopqrstuvwxyz./-''"

definition MaxNameLen :: nat where "MaxNameLen = 12"

fun alphabet_pos :: "string \<Rightarrow> int \<Rightarrow> char \<Rightarrow> int" where
  "alphabet_pos [] j c = - 1"
| "alphabet_pos (a # as) j c = (if a = c then j else alphabet_pos as (j + 1) c)"

definition EncodeName_step :: "string \<Rightarrow> u64 \<times> u64 \<Rightarrow> nat \<Rightarrow> ctfs_error + u64 \<times> u64" where
  "EncodeName_step name st i = (case st of (encoded, scale) \<Rightarrow>
     bind_res
       (if i < length name then
          let pos = alphabet_pos base40Alphabet 0 (name ! i)
          in if pos \<le> 0 then Inl NameBadChar else Inr (word_of_int pos)
        else Inr 0)
       (\<lambda>idx. Inr (encoded + idx * scale, if i < MaxNameLen - 1 then scale * 40 else scale)))"

definition EncodeName :: "string \<Rightarrow> ctfs_error + u64" where
  "EncodeName name =
     (if length name = 0 then Inl EmptyName
      else if length name > MaxNameLen then Inl NameTooLong
      else bind_res (run_steps (EncodeName_step name) (0, 1) [0..<MaxNameLen])
        (\<lambda>(encoded, scale). Inr encoded))"

function DecodeName :: "u64 \<Rightarrow> string" where
  "DecodeName encoded =
     (if encoded > 0 then
        let r = encoded mod 40; encoded' = encoded div 40
        in if r = 0 then [] else base40Alphabet ! unat r # DecodeName encoded'
      else [])"
  by pat_completeness auto
termination
  by (relation "measure unat") (auto simp: unat_div word_gt_0 unat_gt_0 intro!: div_less_dividend)

subsection \<open>The container\<close>

definition headerSize :: nat where "headerSize = 16"
definition fileEntrySize :: nat where "fileEntrySize = 24"
definition ctfs_magic :: "byte list" where "ctfs_magic = [0xc0, 0xde, 0x72, 0xac, 0xe2]"
definition maxMapLevels :: nat where "maxMapLevels = 5"

record FileEntry =
  fe_Size :: u64
  fe_MapBlock :: u64
  fe_Name :: u64
  fe_Slot :: nat

record Container =
  c_blockSize :: nat
  c_maxShards :: byte
  c_version :: byte
  c_encryption :: byte
  c_entryBase :: nat
  c_entryCount :: nat
  c_block0 :: "byte list"
  c_nextFreeBlock :: nat
  c_fileSize :: nat
  c_partialTailBytes :: nat

definition ReadAt :: "byte list \<Rightarrow> nat \<Rightarrow> nat \<Rightarrow> ctfs_error + byte list" where
  "ReadAt f n off = (if off + n \<le> length f then Inr (slice off n f) else Inl ReadShort)"

definition entryAt :: "Container \<Rightarrow> nat \<Rightarrow> FileEntry" where
  "entryAt c i = (let off = c_entryBase c + i * fileEntrySize in
     \<lparr>fe_Size = get64 (drop off (c_block0 c)),
      fe_MapBlock = get64 (drop (off + 8) (c_block0 c)),
      fe_Name = get64 (drop (off + 16) (c_block0 c)),
      fe_Slot = i\<rparr>)"

text \<open>One round of the loop of \<open>validateEntries\<close>: whether the entry counts as non-empty.\<close>

definition validateEntry :: "Container \<Rightarrow> nat \<Rightarrow> entry_reason + bool" where
  "validateEntry c i = (let e = entryAt c i in
     if fe_Size e = 0 \<and> fe_MapBlock e = 0 \<and> fe_Name e = 0 then Inr False
     else let name = DecodeName (fe_Name e) in
       if name = [] then Inl (EntryNoName i)
       else if EncodeName name \<noteq> Inr (fe_Name e) then Inl (EntryBadName i)
       else if unat (fe_MapBlock e) \<ge> c_nextFreeBlock c then Inl (EntryMapOutside i)
       else Inr True)"

definition validateEntries :: "Container \<Rightarrow> entry_reason + unit" where
  "validateEntries c =
     bind_res (map_res (validateEntry c) [0..<c_entryCount c]) (\<lambda>nonEmpty.
       if True \<in> set nonEmpty then Inr () else Inl NoEntries)"

text \<open>Go's integer division truncates towards zero.\<close>

definition go_div :: "int \<Rightarrow> int \<Rightarrow> int" where
  "go_div a b = (if a < 0 then - ((- a) div b) else a div b)"

fun try_bases :: "Container \<Rightarrow> nat \<Rightarrow> nat list \<Rightarrow> entry_reason list \<Rightarrow> ctfs_error + Container" where
  "try_bases c maxRootEntries [] reasons = Inl (NoEntryArray reasons)"
| "try_bases c maxRootEntries (base # bases) reasons =
     (let count = (if maxRootEntries = 0
                   then go_div (int (c_blockSize c) - int base) (int fileEntrySize)
                   else int maxRootEntries);
          c' = c\<lparr>c_entryBase := base, c_entryCount := nat count\<rparr>
      in if int base + count * int fileEntrySize > int (c_blockSize c)
         then try_bases c maxRootEntries bases (reasons @ [EntriesOverflow])
         else case validateEntries c' of
           Inl reason \<Rightarrow> try_bases c maxRootEntries bases (reasons @ [reason])
         | Inr _ \<Rightarrow> Inr c')"

definition locateEntryArray :: "Container \<Rightarrow> nat \<Rightarrow> ctfs_error + Container" where
  "locateEntryArray c maxRootEntries =
     (let r = 8 * unat (c_maxShards c) * 6;
          candidates = (if r > 0 then
              if c_maxShards c \<le> 1 then [headerSize, headerSize + r] else [headerSize + r, headerSize]
            else [headerSize])
      in try_bases c maxRootEntries candidates [])"

definition Open :: "byte list \<Rightarrow> ctfs_error + Container" where
  "Open f =
     (if length f < headerSize then Inl TooSmall
      else let hdr = take headerSize f; bs = unat (get32 (drop 8 hdr)) in
        if take 5 hdr \<noteq> ctfs_magic then Inl BadMagic
        else if hdr ! 6 \<noteq> 0 then Inl Encrypted
        else if bs = 0 \<or> bs mod 8 \<noteq> 0 \<or> bs < headerSize then Inl BadBlockSize
        else case ReadAt f bs 0 of
          Inl _ \<Rightarrow> Inl Block0Short
        | Inr block0 \<Rightarrow>
            locateEntryArray
              \<lparr>c_blockSize = bs, c_maxShards = hdr ! 7, c_version = hdr ! 5, c_encryption = hdr ! 6,
               c_entryBase = 0, c_entryCount = 0, c_block0 = block0,
               c_nextFreeBlock = length f div bs, c_fileSize = length f,
               c_partialTailBytes = length f mod bs\<rparr>
              (unat (get32 (drop 12 hdr))))"

definition Names :: "Container \<Rightarrow> string list" where
  "Names c = sort (map (DecodeName \<circ> fe_Name)
     (filter (\<lambda>e. fe_Name e \<noteq> 0) (map (entryAt c) [0..<c_entryCount c])))"

definition find_entry :: "Container \<Rightarrow> string \<Rightarrow> ctfs_error + FileEntry" where
  "find_entry c name = bind_res (EncodeName name) (\<lambda>want.
     case find (\<lambda>e. fe_Name e = want) (map (entryAt c) [0..<c_entryCount c]) of
       Some e \<Rightarrow> Inr e
     | None \<Rightarrow> Inl NoSuchFile)"

definition Has :: "Container \<Rightarrow> string \<Rightarrow> bool" where
  "Has c name = (case find_entry c name of Inl _ \<Rightarrow> False | Inr _ \<Rightarrow> True)"

subsection \<open>Block mapping\<close>

definition usable :: "Container \<Rightarrow> u64" where
  "usable c = word_of_nat (c_blockSize c) div 8 - 1"

primrec levelCapacity :: "u64 \<Rightarrow> nat \<Rightarrow> u64" where
  "levelCapacity u 0 = 1"
| "levelCapacity u (Suc level) = levelCapacity u level * u"

definition readBlock :: "Container \<Rightarrow> byte list \<Rightarrow> u64 \<Rightarrow> ctfs_error + byte list" where
  "readBlock c f blk =
     (if blk = 0 \<or> unat blk \<ge> c_nextFreeBlock c then Inl BlockOutside
      else ReadAt f (c_blockSize c) (unat blk * c_blockSize c))"

text \<open>The \<open>block\<close> closure reads a mapping block and may keep state (its cache), which is
  threaded through as \<open>'s\<close>.\<close>

type_synonym 's block_fn = "'s \<Rightarrow> u64 \<Rightarrow> ctfs_error + byte list \<times> 's"

function ascend :: "u64 \<Rightarrow> 's block_fn \<Rightarrow> 's \<Rightarrow> u64 \<Rightarrow> nat \<Rightarrow> u64
    \<Rightarrow> ctfs_error + (u64 \<times> nat \<times> u64) \<times> 's" where
  "ascend u block s idx level cur =
     (let capacity = levelCapacity u level in
      if idx < capacity then Inr ((idx, level, cur), s)
      else let idx' = idx - capacity; level' = level + 1 in
        if level' > maxMapLevels then Inl LevelLimit
        else bind_res (block s cur) (\<lambda>(blk, s').
          let chain = get64 (drop (unat (u * 8)) blk) in
          if chain = 0 then Inl (NoChain level')
          else ascend u block s' idx' level' chain))"
  by pat_completeness auto
termination
  by (relation "measure (\<lambda>(_, _, _, _, level, _). 6 - level)") (auto simp: maxMapLevels_def)

function descend :: "u64 \<Rightarrow> 's block_fn \<Rightarrow> 's \<Rightarrow> u64 \<Rightarrow> nat \<Rightarrow> u64
    \<Rightarrow> ctfs_error + (u64 \<times> u64) \<times> 's" where
  "descend u block s idx level cur =
     (if level > 1 then
        let subCap = levelCapacity u (level - 1);
            entryIdx = idx div subCap; subIdx = idx mod subCap
        in bind_res (block s cur) (\<lambda>(blk, s').
          let child = get64 (drop (unat (entryIdx * 8)) blk) in
          if child = 0 then Inl (MapHole level)
          else descend u block s' subIdx (level - 1) child)
      else Inr ((idx, cur), s))"
  by pat_completeness auto
termination
  by (relation "measure (\<lambda>(_, _, _, _, level, _). level)") auto

definition resolveDataBlock ::
  "Container \<Rightarrow> FileEntry \<Rightarrow> u64 \<Rightarrow> 's block_fn \<Rightarrow> 's \<Rightarrow> ctfs_error + u64 \<times> 's" where
  "resolveDataBlock c e blockIdx block s =
     bind_res (ascend (usable c) block s blockIdx 1 (fe_MapBlock e)) (\<lambda>((idx, level, cur), s).
     bind_res (descend (usable c) block s idx level cur) (\<lambda>((idx, cur), s).
     bind_res (block s cur) (\<lambda>(blk, s).
       let dataBlk = get64 (drop (unat (idx * 8)) blk) in
       if dataBlk = 0 then Inl NullData
       else if unat dataBlk \<ge> c_nextFreeBlock c then Inl DataOutside
       else Inr (dataBlk, s))))"

definition cached_block :: "Container \<Rightarrow> byte list \<Rightarrow> (u64 \<rightharpoonup> byte list) block_fn" where
  "cached_block c f cache blk = (case cache blk of
     Some b \<Rightarrow> Inr (b, cache)
   | None \<Rightarrow> bind_res (readBlock c f blk) (\<lambda>b. Inr (b, cache(blk \<mapsto> b))))"

definition dataBlocks_step :: "Container \<Rightarrow> byte list \<Rightarrow> FileEntry
    \<Rightarrow> (u64 \<rightharpoonup> byte list) \<times> u64 list \<Rightarrow> u64 \<Rightarrow> ctfs_error + (u64 \<rightharpoonup> byte list) \<times> u64 list" where
  "dataBlocks_step c f e st i = (case st of (cache, out) \<Rightarrow>
     bind_res (resolveDataBlock c e i (cached_block c f) cache) (\<lambda>(blk, cache'). Inr (cache', out @ [blk])))"

definition dataBlocks :: "Container \<Rightarrow> byte list \<Rightarrow> FileEntry \<Rightarrow> ctfs_error + u64 list" where
  "dataBlocks c f e =
     (let bs = word_of_nat (c_blockSize c); n = (fe_Size e + bs - 1) div bs in
      bind_res (run_steps (dataBlocks_step c f e) (\<lambda>_. None, []) (map word_of_nat [0..<unat n]))
        (\<lambda>(_, out). Inr out))"

text \<open>\<open>make([]byte, n)\<close> panics for an \<open>n\<close> that is not a Go \<open>int\<close>.\<close>

definition readEntry_step :: "Container \<Rightarrow> byte list \<Rightarrow> FileEntry
    \<Rightarrow> byte list \<Rightarrow> nat \<times> u64 \<Rightarrow> ctfs_error + byte list" where
  "readEntry_step c f e out p = (case p of (i, blk) \<Rightarrow>
     let start = i * c_blockSize c;
         fin = min (start + c_blockSize c) (unat (fe_Size e))
     in bind_res (ReadAt f (fin - start) (unat blk * c_blockSize c)) (\<lambda>bytes.
       Inr (put_at start bytes out)))"

definition readEntry :: "Container \<Rightarrow> byte list \<Rightarrow> FileEntry \<Rightarrow> ctfs_error + byte list" where
  "readEntry c f e =
     (if unat (fe_Size e) \<ge> 2 ^ 63 then Inl SliceTooLong
      else let out = replicate (unat (fe_Size e)) 0 in
        if fe_Size e = 0 then Inr out
        else bind_res (dataBlocks c f e) (\<lambda>blocks.
          run_steps (readEntry_step c f e) out (enumerate 0 blocks)))"

definition ReadFile :: "Container \<Rightarrow> byte list \<Rightarrow> string \<Rightarrow> ctfs_error + byte list" where
  "ReadFile c f name = bind_res (find_entry c name) (readEntry c f)"

section \<open>Names\<close>

declare DecodeName.simps [simp del] ascend.simps [simp del] descend.simps [simp del]

primrec val40 :: "int list \<Rightarrow> int" where
  "val40 [] = 0"
| "val40 (d # ds) = d + 40 * val40 ds"

abbreviation pos40 :: "char \<Rightarrow> int" where "pos40 \<equiv> alphabet_pos base40Alphabet 0"

lemma val40_snoc: "val40 (ds @ [d]) = val40 ds + d * 40 ^ length ds"
  by (induction ds) (auto simp: algebra_simps)

lemma val40_bound: "\<forall>d\<in>set ds. 0 < d \<and> d < 40 \<Longrightarrow> 0 \<le> val40 ds \<and> val40 ds < 40 ^ length ds"
  by (induction ds) auto

lemma alphabet_pos_bound:
  "alphabet_pos as j c \<noteq> - 1 \<Longrightarrow>
   \<exists>k < length as. alphabet_pos as j c = j + int k \<and> as ! k = c"
proof (induction as arbitrary: j)
  case (Cons a as)
  then show ?case
  proof (cases "a = c")
    case False
    with Cons obtain k where "k < length as" "alphabet_pos as (j + 1) c = j + 1 + int k" "as ! k = c"
      by auto
    with False show ?thesis by (intro exI[of _ "Suc k"]) auto
  qed auto
qed simp

lemma length_base40: "length base40Alphabet = 40"
  by (simp add: base40Alphabet_def)

lemma pos40_pos: "0 < pos40 c \<Longrightarrow> pos40 c < 40 \<and> base40Alphabet ! nat (pos40 c) = c"
  using alphabet_pos_bound[of base40Alphabet 0 c] by (auto simp: length_base40)

lemma EncodeName_run:
  assumes "n \<le> 12" "run_steps (EncodeName_step name) (0, 1) [0..<n] = Inr (enc, sc)" "length name \<le> 12"
  shows "enc = word_of_int (val40 (map pos40 (take n name))) \<and> sc = 40 ^ min n 11 \<and>
    (\<forall>c\<in>set (take n name). 0 < pos40 c)"
  using assms(1,2)
proof (induction n arbitrary: enc sc)
  case (Suc n)
  then obtain enc' sc' where run: "run_steps (EncodeName_step name) (0, 1) [0..<n] = Inr (enc', sc')"
    and step: "EncodeName_step name (enc', sc') n = Inr (enc, sc)"
    by (auto simp: run_steps_append bind_res_eq_Inr)
  note IH = Suc.IH[OF _ run]
  have mn: "min (Suc n) 11 = (if n < 11 then Suc n else n)" "min n 11 = n" "n \<le> 12"
    using Suc.prems(1) by auto
  show ?case
  proof (cases "n < length name")
    case True
    with step IH mn show ?thesis
      by (auto simp: EncodeName_step_def bind_res_eq_Inr Let_def MaxNameLen_def take_Suc_conv_app_nth
          val40_snoc power_Suc2 split: if_splits)
  next
    case False
    with step IH mn show ?thesis
      by (auto simp: EncodeName_step_def MaxNameLen_def)
  qed
qed simp

lemma EncodeName_Inr:
  assumes "EncodeName name = Inr w"
  shows "w = word_of_int (val40 (map pos40 name))" "\<forall>c\<in>set name. 0 < pos40 c"
    "name \<noteq> []" "length name \<le> 12"
proof -
  obtain sc where run: "run_steps (EncodeName_step name) (0, 1) [0..<MaxNameLen] = Inr (w, sc)"
    and "name \<noteq> []" "length name \<le> MaxNameLen"
    using assms by (auto simp: EncodeName_def bind_res_eq_Inr split: if_splits)
  then show "name \<noteq> []" and l: "length name \<le> 12" by (simp_all add: MaxNameLen_def)
  show "w = word_of_int (val40 (map pos40 name))" "\<forall>c\<in>set name. 0 < pos40 c"
    using EncodeName_run[of 12 name w sc] run l unfolding MaxNameLen_def by (simp_all only: take_all) simp_all
qed

lemma DecodeName_val40:
  "\<forall>d\<in>set ds. 0 < d \<and> d < 40 \<Longrightarrow> val40 ds < 2 ^ 64 \<Longrightarrow>
   DecodeName (word_of_int (val40 ds)) = map (\<lambda>d. base40Alphabet ! nat d) ds"
proof (induction ds)
  case Nil
  then show ?case by (subst DecodeName.simps) simp
next
  case (Cons d ds)
  define v where "v = val40 (d # ds)"
  have v: "0 < v" "0 \<le> val40 ds" "v < 2 ^ 64" "v mod 40 = d" "v div 40 = val40 ds" "val40 ds < 2 ^ 64"
    using Cons.prems val40_bound[of ds] by (auto simp: v_def)
  let ?w = "word_of_int v :: u64"
  have u: "uint ?w = v" "uint (word_of_int (val40 ds) :: u64) = val40 ds"
    using v by (simp_all add: uint_word_of_int_eq take_bit_int_eq_self)
  have m: "uint (?w mod 40) = d" using v by (simp only: uint_mod u) simp
  have "uint (?w div 40) = val40 ds" using v by (simp only: uint_div u) simp
  then have "uint (?w div 40) = uint (word_of_int (val40 ds) :: u64)" using u by simp
  then have "?w div 40 = word_of_int (val40 ds)" by (rule unsigned_word_eqI)
  moreover have "?w > 0" using u v by (simp add: word_less_iff_unsigned[where 'a=int])
  moreover have "?w mod 40 \<noteq> 0" using m Cons.prems(1) by (metis list.set_intros(1) less_irrefl unsigned_0)
  moreover have "unat (?w mod 40) = nat d" by (simp only: m flip: nat_uint_eq)
  moreover have "DecodeName (word_of_int (val40 ds)) = map (\<lambda>d. base40Alphabet ! nat d) ds"
    using Cons v by auto
  ultimately show ?case
    unfolding v_def[symmetric] by (subst DecodeName.simps) (simp add: Let_def)
qed

section \<open>Mapping blocks behind a stateful reader\<close>

text \<open>What \<open>resolveDataBlock\<close> needs of its \<open>block\<close> argument: under an invariant of the state
  it answers as a fixed function of the block number does.\<close>

definition pure_block :: "(u64 \<Rightarrow> ctfs_error + byte list) \<Rightarrow> unit block_fn" where
  "pure_block rd s blk = bind_res (rd blk) (\<lambda>b. Inr (b, ()))"

definition res_sim :: "('s \<Rightarrow> bool) \<Rightarrow> 'e + 'x \<times> 's \<Rightarrow> 'e + 'x \<times> unit \<Rightarrow> bool" where
  "res_sim P r r' \<longleftrightarrow> (\<forall>e. r' = Inl e \<longrightarrow> r = Inl e) \<and>
     (\<forall>x u. r' = Inr (x, u) \<longrightarrow> (\<exists>s. r = Inr (x, s) \<and> P s))"

lemma res_sim_Inl [simp]: "res_sim P (Inl e) (Inl e)"
  by (simp add: res_sim_def)

lemma res_sim_Inr [simp]: "P s \<Longrightarrow> res_sim P (Inr (x, s)) (Inr (x, u))"
  by (simp add: res_sim_def)

lemma res_sim_bind:
  "res_sim P r r' \<Longrightarrow> (\<And>x s. P s \<Longrightarrow> res_sim P (k (x, s)) (k' (x, ()))) \<Longrightarrow>
   res_sim P (bind_res r k) (bind_res r' k')"
  by (cases r') (auto simp: res_sim_def)

locale block_reader =
  fixes block :: "'s block_fn" and rd :: "u64 \<Rightarrow> ctfs_error + byte list" and inv :: "'s \<Rightarrow> bool"
  assumes block_err: "inv s \<Longrightarrow> rd b = Inl e \<Longrightarrow> block s b = Inl e"
    and block_ok: "inv s \<Longrightarrow> rd b = Inr x \<Longrightarrow> \<exists>s'. block s b = Inr (x, s') \<and> inv s'"
begin

lemma sim_block: "inv s \<Longrightarrow> res_sim inv (block s b) (pure_block rd () b)"
  by (cases "rd b") (auto simp: res_sim_def pure_block_def block_err dest: block_ok)

lemma ascend_sim: "inv s \<Longrightarrow>
  res_sim inv (ascend u block s idx level cur) (ascend u (pure_block rd) () idx level cur)"
proof (induction "6 - level" arbitrary: s idx level cur rule: less_induct)
  case less
  show ?case
    by (subst (1 2) ascend.simps)
       (auto simp: Let_def maxMapLevels_def less.prems intro!: res_sim_bind sim_block less.hyps)
qed

lemma descend_sim: "inv s \<Longrightarrow>
  res_sim inv (descend u block s idx level cur) (descend u (pure_block rd) () idx level cur)"
proof (induction level arbitrary: s idx cur)
  case (Suc level)
  then show ?case
    by (subst (1 2) descend.simps) (auto simp: Let_def intro!: res_sim_bind sim_block)
qed (simp add: descend.simps)

lemma resolve_sim: "inv s \<Longrightarrow>
  res_sim inv (resolveDataBlock c e i block s) (resolveDataBlock c e i (pure_block rd) ())"
  unfolding resolveDataBlock_def
  by (auto simp: Let_def intro!: res_sim_bind ascend_sim descend_sim sim_block)

end

definition cache_ok :: "Container \<Rightarrow> byte list \<Rightarrow> (u64 \<rightharpoonup> byte list) \<Rightarrow> bool" where
  "cache_ok c f cache \<longleftrightarrow> (\<forall>k b. cache k = Some b \<longrightarrow> readBlock c f k = Inr b)"

interpretation cached: block_reader "cached_block c f" "readBlock c f" "cache_ok c f"
proof unfold_locales
  fix cache blk err b
  assume ok: "cache_ok c f cache"
  show "readBlock c f blk = Inl err \<Longrightarrow> cached_block c f cache blk = Inl err"
    using ok by (cases "cache blk") (auto simp: cached_block_def cache_ok_def)
  show "readBlock c f blk = Inr b \<Longrightarrow>
      \<exists>cache'. cached_block c f cache blk = Inr (b, cache') \<and> cache_ok c f cache'"
    using ok by (cases "cache blk") (auto simp: cached_block_def cache_ok_def)
qed

text \<open>The data block of index \<open>i\<close>, read without a cache.\<close>

definition resolve_pure :: "Container \<Rightarrow> byte list \<Rightarrow> FileEntry \<Rightarrow> u64 \<Rightarrow> ctfs_error + u64" where
  "resolve_pure c f e i =
     bind_res (resolveDataBlock c e i (pure_block (readBlock c f)) ()) (\<lambda>(d, _). Inr d)"

lemma dataBlocks_run:
  assumes "cache_ok c f cache"
  shows "bind_res (run_steps (dataBlocks_step c f e) (cache, out) is) (\<lambda>(_, out). Inr out) =
    bind_res (map_res (resolve_pure c f e) is) (\<lambda>ds. Inr (out @ ds))"
  using assms
proof (induction "is" arbitrary: cache out)
  case (Cons i "is")
  note sim = cached.resolve_sim[OF Cons.prems, of c e i, unfolded res_sim_def]
  show ?case
  proof (cases "resolveDataBlock c e i (pure_block (readBlock c f)) ()")
    case (Inl err)
    then show ?thesis using sim by (simp add: dataBlocks_step_def resolve_pure_def)
  next
    case (Inr p)
    then obtain d where "p = (d, ())" by (cases p) auto
    with Inr sim obtain cache' where
      "resolveDataBlock c e i (cached_block c f) cache = Inr (d, cache')" "cache_ok c f cache'" by auto
    moreover from this have "dataBlocks_step c f e (cache, out) i = Inr (cache', out @ [d])"
      by (simp add: dataBlocks_step_def)
    moreover have "resolve_pure c f e i = Inr d" using Inr \<open>p = _\<close> by (simp add: resolve_pure_def)
    ultimately show ?thesis using Cons.IH[of cache' "out @ [d]"] by (simp add: bind_res_assoc)
  qed
qed simp

abbreviation block_count :: "Container \<Rightarrow> FileEntry \<Rightarrow> nat" where
  "block_count c e \<equiv> unat ((fe_Size e + word_of_nat (c_blockSize c) - 1) div word_of_nat (c_blockSize c))"

lemma dataBlocks_eq: "dataBlocks c f e =
  map_res (resolve_pure c f e) (map word_of_nat [0..<block_count c e])"
  using dataBlocks_run[of c f "\<lambda>_. None" e "[]" "map word_of_nat [0..<block_count c e]"]
  by (cases "map_res (resolve_pure c f e) (map word_of_nat [0..<block_count c e])")
     (simp_all add: dataBlocks_def cache_ok_def Let_def)

section \<open>The mapping in closed form\<close>

text \<open>What a mapping block holds in a slot; the first index served by level \<open>L\<close>; the head of a
  level; the data block under a subtree of height \<open>n + 1\<close>.\<close>

definition slot :: "(u64 \<Rightarrow> ctfs_error + byte list) \<Rightarrow> u64 \<Rightarrow> nat \<Rightarrow> u64 option" where
  "slot rd b k = (case rd b of Inl _ \<Rightarrow> None
     | Inr blk \<Rightarrow> let v = get64 (drop (8 * k) blk) in if v = 0 then None else Some v)"

definition level_start :: "nat \<Rightarrow> nat \<Rightarrow> nat" where
  "level_start U L = (\<Sum>k = 1..<L. U ^ k)"

primrec chain_head :: "(u64 \<Rightarrow> ctfs_error + byte list) \<Rightarrow> nat \<Rightarrow> nat \<Rightarrow> u64 \<Rightarrow> u64 option" where
  "chain_head rd U 0 b = Some b"
| "chain_head rd U (Suc n) b = Option.bind (slot rd b U) (chain_head rd U n)"

primrec tree_slot :: "(u64 \<Rightarrow> ctfs_error + byte list) \<Rightarrow> nat \<Rightarrow> nat \<Rightarrow> u64 \<Rightarrow> nat \<Rightarrow> u64 option" where
  "tree_slot rd U 0 b k = slot rd b k"
| "tree_slot rd U (Suc n) b k =
     Option.bind (slot rd b (k div U ^ Suc n)) (\<lambda>child. tree_slot rd U n child (k mod U ^ Suc n))"

definition mapping_lookup :: "(u64 \<Rightarrow> ctfs_error + byte list) \<Rightarrow> nat \<Rightarrow> u64 \<Rightarrow> nat \<Rightarrow> u64 option" where
  "mapping_lookup rd U root i =
     (case find (\<lambda>L. i < level_start U (Suc L)) [1..<Suc maxMapLevels] of
        None \<Rightarrow> None
      | Some L \<Rightarrow> Option.bind (chain_head rd U (L - 1) root) (\<lambda>h.
          tree_slot rd U (L - 1) h (i - level_start U L)))"

lemma level_start_Suc: "1 \<le> L \<Longrightarrow> level_start U (Suc L) = level_start U L + U ^ L"
  by (simp add: level_start_def)

lemma level_start_1 [simp]: "level_start U 1 = 0" "level_start U (Suc 0) = 0"
  by (simp_all add: level_start_def)

lemma level_start_mono: "L \<le> L' \<Longrightarrow> level_start U L \<le> level_start U L'"
  unfolding level_start_def by (intro sum_mono2) auto

lemma unat_levelCapacity: "unat u ^ L < 2 ^ 64 \<Longrightarrow> unat (levelCapacity u L) = unat u ^ L"
proof -
  have "levelCapacity u L = word_of_nat (unat u ^ L)" by (induction L) (simp_all add: mult.commute)
  moreover have "n < 2 ^ 64 \<Longrightarrow> unat (word_of_nat n :: u64) = n" for n
    by (simp add: unsigned_of_nat take_bit_nat_eq_self)
  ultimately show "unat u ^ L < 2 ^ 64 \<Longrightarrow> ?thesis" by (simp only:)
qed

text \<open>An index whose byte offset is below \<open>2^64\<close> never reaches a level whose capacity wraps.\<close>

lemma capacity_no_wrap:
  assumes "1 \<le> L" "level_start U L \<le> i" "i * (8 * (U + 1)) < 2 ^ 64" "U < 2 ^ 61"
  shows "U ^ L < 2 ^ 64"
proof (cases "L = 1")
  case True
  then show ?thesis using assms(4) by simp
next
  case False
  with assms(1) obtain K where L: "L = Suc K" "1 \<le> K" by (cases L) auto
  then have "U ^ K \<le> i" using assms(2) level_start_Suc[of K U] by simp
  then have "U ^ L \<le> i * U" using L by (simp add: mult.commute)
  also have "\<dots> \<le> i * (8 * (U + 1))" by (intro mult_le_mono2) simp
  also have "\<dots> < 2 ^ 64" by (rule assms(3))
  finally show ?thesis .
qed

lemma unat_times_8: "unat (x::u64) < 2 ^ 61 \<Longrightarrow> unat (x * 8) = 8 * unat x"
  using unat_mult_lem[of x 8] by simp

lemma pure_block_slot:
  "bind_res (pure_block rd () b) (\<lambda>(blk, s). let v = get64 (drop (8 * k) blk) in
      if v = 0 then Inl err else g v s) = Inr y \<longleftrightarrow>
   (\<exists>v. slot rd b k = Some v \<and> g v () = Inr y)"
  by (cases "rd b") (auto simp: pure_block_def slot_def Let_def)

lemma ascend_pure:
  assumes "1 \<le> L" "L \<le> 5" "level_start U L \<le> i" "unat idx = i - level_start U L"
    and "i * (8 * (U + 1)) < 2 ^ 64" "U = unat u" "U < 2 ^ 61"
  shows "ascend u (pure_block rd) () idx L cur = Inr ((idx', L', cur'), ()) \<longleftrightarrow>
    L \<le> L' \<and> L' \<le> 5 \<and> level_start U L' \<le> i \<and> i < level_start U (Suc L') \<and>
    chain_head rd U (L' - L) cur = Some cur' \<and> unat idx' = i - level_start U L'"
  using assms(1-4)
proof (induction "6 - L" arbitrary: L idx cur rule: less_induct)
  case less
  have cap: "unat (levelCapacity u L) = U ^ L"
    using unat_levelCapacity[of u L] capacity_no_wrap[OF less.prems(1,3) assms(5,7)] assms(6) by simp
  note S = level_start_Suc[OF less.prems(1), of U]
  show ?case
  proof (cases "idx < levelCapacity u L")
    case True
    then have i: "i < level_start U (Suc L)"
      using S cap less.prems(3,4) by (simp add: word_less_nat_alt)
    have "L' = L" if "L \<le> L'" "level_start U L' \<le> i"
      using that i level_start_mono[of "Suc L" L' U] by (cases "L' = L") auto
    then show ?thesis
      using True i less.prems by (subst ascend.simps) (auto simp: Let_def word_unat_eq_iff)
  next
    case False
    then have i: "level_start U (Suc L) \<le> i" "unat (idx - levelCapacity u L) = i - level_start U (Suc L)"
      using S cap less.prems(3,4) by (simp_all add: word_less_nat_alt unat_sub word_le_nat_alt)
    have L': "L \<le> L' \<and> i < level_start U (Suc L') \<longleftrightarrow> Suc L \<le> L' \<and> i < level_start U (Suc L')"
      using i(1) by (cases "L' = L") auto
    show ?thesis
    proof (cases "L = 5")
      case True
      then show ?thesis using False L' by (subst ascend.simps) (auto simp: Let_def maxMapLevels_def)
    next
      case L5: False
      have u8: "unat (u * 8) = 8 * U" using unat_times_8[of u] assms(6,7) by simp
      have "ascend u (pure_block rd) () idx L cur = Inr ((idx', L', cur'), ()) \<longleftrightarrow>
          (\<exists>v. slot rd cur U = Some v \<and>
            ascend u (pure_block rd) () (idx - levelCapacity u L) (L + 1) v = Inr ((idx', L', cur'), ()))"
        using False L5 less.prems(2) pure_block_slot[of rd cur U]
        by (subst ascend.simps) (simp add: Let_def maxMapLevels_def u8)
      also have "\<dots> \<longleftrightarrow> (\<exists>v. slot rd cur U = Some v \<and>
          (Suc L \<le> L' \<and> L' \<le> 5 \<and> level_start U L' \<le> i \<and> i < level_start U (Suc L') \<and>
          chain_head rd U (L' - Suc L) v = Some cur' \<and> unat idx' = i - level_start U L'))"
        using less.hyps[of "Suc L"] less.prems L5 i by (intro ex_cong1 conj_cong refl) simp
      also have "\<dots> \<longleftrightarrow> Suc L \<le> L' \<and> L' \<le> 5 \<and> level_start U L' \<le> i \<and> i < level_start U (Suc L') \<and>
          chain_head rd U (L' - L) cur = Some cur' \<and> unat idx' = i - level_start U L'"
      proof (cases "Suc L \<le> L'")
        case True
        then have "L' - L = Suc (L' - Suc L)" by simp
        then show ?thesis by (auto simp: bind_eq_Some_conv)
      qed simp
      finally show ?thesis using L' by blast
    qed
  qed
qed

lemma descend_pure:
  assumes "1 \<le> L" "U ^ L < 2 ^ 64" "unat idx < U ^ L" "U = unat u" "1 \<le> U" "U < 2 ^ 61"
  shows "(\<exists>idx' cur'. descend u (pure_block rd) () idx L cur = Inr ((idx', cur'), ()) \<and>
      slot rd cur' (unat idx') = Some d \<and> unat idx' < U) \<longleftrightarrow>
    tree_slot rd U (L - 1) cur (unat idx) = Some d"
  using assms(1-3)
proof (induction "L - 1" arbitrary: L idx cur)
  case 0
  then have "L = 1" by simp
  with 0 show ?case by (subst descend.simps) simp
next
  case (Suc n)
  then have L: "L = Suc (Suc n)" by simp
  then have "1 < L" by simp
  let ?C = "U ^ Suc n"
  have less: "?C < 2 ^ 64"
    using Suc.prems(2) assms(5) power_increasing[of "Suc n" L U] L
    by (intro le_less_trans[OF _ Suc.prems(2)]) auto
  then have cap: "unat (levelCapacity u (L - 1)) = ?C"
    using unat_levelCapacity[of u "Suc n"] assms(4) L by simp
  let ?e = "idx div levelCapacity u (L - 1)" and ?s = "idx mod levelCapacity u (L - 1)"
  have es: "unat ?e = unat idx div ?C" "unat ?s = unat idx mod ?C"
    by (simp_all only: unat_div unat_mod cap)
  have "unat idx < U * ?C" using Suc.prems(3) L by simp
  then have eU: "unat ?e < U" by (simp only: es(1) less_mult_imp_div_less)
  then have e8: "unat (?e * 8) = 8 * (unat idx div ?C)" using unat_times_8[of ?e] es(1) assms(6) by simp
  have sub: "unat ?s < ?C" using assms(5) by (simp only: es(2)) simp
  have step: "descend u (pure_block rd) () idx L cur = Inr y \<longleftrightarrow>
      (\<exists>v. slot rd cur (unat idx div ?C) = Some v \<and> descend u (pure_block rd) () ?s (L - 1) v = Inr y)" for y
    using pure_block_slot[of rd cur "unat idx div ?C" "MapHole L"
        "\<lambda>v s. descend u (pure_block rd) s ?s (L - 1) v" y]
    unfolding descend.simps[of u _ _ idx L cur] if_P[OF \<open>1 < L\<close>] Let_def e8 .
  have IH: "(\<exists>idx' cur'. descend u (pure_block rd) () ?s (L - 1) v = Inr ((idx', cur'), ()) \<and>
      slot rd cur' (unat idx') = Some d \<and> unat idx' < U) \<longleftrightarrow>
    tree_slot rd U n v (unat idx mod ?C) = Some d" for v
    using Suc.hyps(1)[of "L - 1" ?s v] L less sub es(2) by simp
  have "tree_slot rd U (L - 1) cur (unat idx) = Some d \<longleftrightarrow>
      (\<exists>v. slot rd cur (unat idx div ?C) = Some v \<and> tree_slot rd U n v (unat idx mod ?C) = Some d)"
    using L by (simp add: bind_eq_Some_conv)
  then show ?case unfolding step IH[symmetric] by blast
qed

lemma descend_bound:
  assumes "1 \<le> L" "U ^ L < 2 ^ 64" "unat idx < U ^ L" "U = unat u" "1 \<le> U"
    "descend u block s idx L cur = Inr ((idx', cur'), s')"
  shows "unat idx' < U"
  using assms(1-3,6)
proof (induction "L - 1" arbitrary: L idx cur s)
  case 0
  then have "L = 1" by simp
  with 0 show ?case by (simp add: descend.simps)
next
  case (Suc n)
  then have L: "L = Suc (Suc n)" "1 < L" by auto
  have less: "U ^ Suc n < 2 ^ 64"
    using Suc.prems(2) assms(5) power_increasing[of "Suc n" L U] L
    by (intro le_less_trans[OF _ Suc.prems(2)]) auto
  then have "unat (levelCapacity u (L - 1)) = U ^ Suc n"
    using unat_levelCapacity[of u "Suc n"] assms(4) L by simp
  then have "unat (idx mod levelCapacity u (L - 1)) < U ^ Suc n"
    using assms(5) by (simp only: unat_mod) simp
  moreover have "\<exists>s cur. descend u block s (idx mod levelCapacity u (L - 1)) (L - 1) cur = Inr ((idx', cur'), s')"
    using Suc.prems(4) L(2) unfolding descend.simps[of u _ _ idx L cur]
    by (auto simp: bind_res_eq_Inr Let_def split: if_splits)
  ultimately show ?case using Suc.hyps(1)[of "L - 1"] L less by auto
qed

lemma find_level:
  "find (\<lambda>L. i < level_start U (Suc L)) [1..<Suc maxMapLevels] = Some L \<longleftrightarrow>
   1 \<le> L \<and> L \<le> 5 \<and> level_start U L \<le> i \<and> i < level_start U (Suc L)"
proof -
  have nth: "k < 5 \<Longrightarrow> [1..<Suc maxMapLevels] ! k = Suc k" for k by (simp add: maxMapLevels_def del: upt_Suc)
  show ?thesis
  proof
    assume "find (\<lambda>L. i < level_start U (Suc L)) [1..<Suc maxMapLevels] = Some L"
    then obtain k where k: "k < 5" "i < level_start U (Suc (Suc k))" "L = Suc k"
      and "\<forall>j<k. \<not> i < level_start U (Suc (Suc j))"
      by (auto simp: find_Some_iff maxMapLevels_def nth[unfolded maxMapLevels_def] simp del: upt_Suc)
    then have "level_start U L \<le> i" by (cases k) (auto simp: not_less)
    with k show "1 \<le> L \<and> L \<le> 5 \<and> level_start U L \<le> i \<and> i < level_start U (Suc L)" by simp
  next
    assume a: "1 \<le> L \<and> L \<le> 5 \<and> level_start U L \<le> i \<and> i < level_start U (Suc L)"
    then obtain k where k: "L = Suc k" "k < 5" by (cases L) auto
    have "\<not> i < level_start U (Suc (Suc j))" if "j < k" for j
      using a k that level_start_mono[of "Suc (Suc j)" L U] by simp
    with a k show "find (\<lambda>L. i < level_start U (Suc L)) [1..<Suc maxMapLevels] = Some L"
      by (auto simp: find_Some_iff maxMapLevels_def nth[unfolded maxMapLevels_def] simp del: upt_Suc
          intro!: exI[of _ k])
  qed
qed

text \<open>What \<open>Open\<close> establishes of a container and its file.\<close>

definition opened :: "Container \<Rightarrow> byte list \<Rightarrow> bool" where
  "opened c f \<longleftrightarrow> 16 \<le> c_blockSize c \<and> 8 dvd c_blockSize c \<and> c_blockSize c < 2 ^ 32 \<and>
     c_blockSize c \<le> length f \<and> c_block0 c = take (c_blockSize c) f \<and>
     c_nextFreeBlock c = length f div c_blockSize c \<and>
     c_entryBase c + c_entryCount c * fileEntrySize \<le> c_blockSize c \<and>
     validateEntries c = Inr ()"

lemma try_bases_Inr:
  "try_bases c m bases rs = Inr c' \<Longrightarrow>
   \<exists>base count. c' = c\<lparr>c_entryBase := base, c_entryCount := count\<rparr> \<and>
     (c_entryBase c' + c_entryCount c' * fileEntrySize \<le> c_blockSize c' \<or> count = 0) \<and> validateEntries c' = Inr ()"
proof (induction bases arbitrary: rs)
  case (Cons base bases)
  show ?case
  proof (cases "try_bases c m bases rs = Inr c' \<or> (\<exists>rs. try_bases c m bases rs = Inr c')")
    case True
    then show ?thesis using Cons.IH by blast
  next
    case False
    let ?n = "if m = 0 then go_div (int (c_blockSize c) - int base) (int fileEntrySize) else int m"
    from False Cons.prems have le: "int base + ?n * int fileEntrySize \<le> int (c_blockSize c)"
      and c': "c' = c\<lparr>c_entryBase := base, c_entryCount := nat ?n\<rparr>" "validateEntries c' = Inr ()"
      by (auto simp: Let_def split: if_splits sum.splits)
    have "base + nat ?n * fileEntrySize \<le> c_blockSize c \<or> nat ?n = 0"
    proof (cases "?n \<le> 0")
      case False
      then have "int (base + nat ?n * fileEntrySize) = int base + ?n * int fileEntrySize" by simp
      then show ?thesis using le by linarith
    qed simp
    with c' show ?thesis by (intro exI[of _ base] exI[of _ "nat ?n"] conjI) simp_all
  qed
qed simp

lemma validateEntries_nonempty: "validateEntries c = Inr () \<Longrightarrow> c_entryCount c \<noteq> 0"
  by (cases "c_entryCount c") (auto simp: validateEntries_def)

lemma Open_opened:
  assumes "Open f = Inr c"
  shows "opened c f" "c_partialTailBytes c = length f mod c_blockSize c"
proof -
  define bs where "bs = unat (get32 (drop 8 (take headerSize f)))"
  have bs32: "bs < 2 ^ 32" using unsigned_less[of "get32 (drop 8 (take headerSize f))"] by (simp add: bs_def)
  obtain c0 m where "locateEntryArray c0 m = Inr c" "c_blockSize c0 = bs" "c_block0 c0 = slice 0 bs f"
    "c_nextFreeBlock c0 = length f div bs" "c_partialTailBytes c0 = length f mod bs"
    and bs: "bs \<noteq> 0" "bs mod 8 = 0" "headerSize \<le> bs" "bs \<le> length f"
    using assms by (auto simp: Open_def Let_def ReadAt_def simp flip: bs_def split: if_splits)
  moreover from this obtain base count where
    "c = c0\<lparr>c_entryBase := base, c_entryCount := count\<rparr>" "validateEntries c = Inr ()"
    "c_entryBase c + c_entryCount c * fileEntrySize \<le> c_blockSize c \<or> count = 0"
    unfolding locateEntryArray_def Let_def by (auto dest!: try_bases_Inr)
  moreover from this have "c_entryCount c \<noteq> 0" using validateEntries_nonempty by blast
  ultimately show "opened c f" "c_partialTailBytes c = length f mod c_blockSize c"
    using bs32 by (auto simp: opened_def headerSize_def slice_def)
qed

lemma usable_nat:
  assumes "opened c f"
  shows "unat (usable c) = c_blockSize c div 8 - 1" "8 * (unat (usable c) + 1) = c_blockSize c"
    "1 \<le> unat (usable c)" "unat (usable c) < 2 ^ 61"
proof -
  let ?b = "word_of_nat (c_blockSize c) :: u64"
  have b: "16 \<le> c_blockSize c" "8 dvd c_blockSize c" "c_blockSize c < 2 ^ 32"
    using assms by (auto simp: opened_def)
  then have "unat ?b = c_blockSize c" by (simp add: unsigned_of_nat take_bit_nat_eq_self)
  then have d: "unat (?b div 8) = c_blockSize c div 8" by (simp add: unat_div)
  then have "1 \<le> ?b div 8" using b by (simp add: word_le_nat_alt)
  then show u: "unat (usable c) = c_blockSize c div 8 - 1"
    using d by (simp add: usable_def unat_sub)
  from b u show "8 * (unat (usable c) + 1) = c_blockSize c" "1 \<le> unat (usable c)" "unat (usable c) < 2 ^ 61"
    by auto
qed

section \<open>Reading an entry\<close>

text \<open>The last two stages of \<open>resolveDataBlock\<close>: descend, then read the data pointer.\<close>

definition read_leaf :: "Container \<Rightarrow> 's block_fn \<Rightarrow> 's \<Rightarrow> u64 \<Rightarrow> u64 \<Rightarrow> ctfs_error + u64 \<times> 's" where
  "read_leaf c block s idx cur = bind_res (block s cur) (\<lambda>(blk, s).
     let dataBlk = get64 (drop (unat (idx * 8)) blk) in
     if dataBlk = 0 then Inl NullData
     else if unat dataBlk \<ge> c_nextFreeBlock c then Inl DataOutside
     else Inr (dataBlk, s))"

lemma resolveDataBlock_split: "resolveDataBlock c e i block s =
  bind_res (ascend (usable c) block s i 1 (fe_MapBlock e)) (\<lambda>((idx, level, cur), s).
  bind_res (descend (usable c) block s idx level cur) (\<lambda>((idx, cur), s). read_leaf c block s idx cur))"
  by (simp add: resolveDataBlock_def read_leaf_def)

lemma read_leaf_pure:
  "unat idx < 2 ^ 61 \<Longrightarrow> read_leaf c (pure_block rd) () idx cur = Inr (d, ()) \<longleftrightarrow>
   slot rd cur (unat idx) = Some d \<and> unat d < c_nextFreeBlock c"
  using unat_times_8[of idx]
  by (cases "rd cur") (auto simp: read_leaf_def pure_block_def slot_def Let_def)

lemma descend_leaf_pure:
  assumes "1 \<le> L" "U ^ L < 2 ^ 64" "unat idx < U ^ L" "U = unat u" "1 \<le> U" "U < 2 ^ 61"
  shows "bind_res (descend u (pure_block rd) () idx L cur)
      (\<lambda>((idx, cur), s). read_leaf c (pure_block rd) s idx cur) = Inr (d, ()) \<longleftrightarrow>
    tree_slot rd U (L - 1) cur (unat idx) = Some d \<and> unat d < c_nextFreeBlock c"
proof -
  have b: "unat idx' < U" "unat idx' < 2 ^ 61"
    if "descend u (pure_block rd) () idx L cur = Inr ((idx', cur'), ())" for idx' cur'
    using descend_bound[OF assms(1-5) that] assms(6) by auto
  show ?thesis
    unfolding descend_pure[OF assms, symmetric]
    by (auto simp: bind_res_eq_Inr[of "descend _ _ _ _ _ _"] read_leaf_pure[OF b(2)] dest: b)
qed

lemma resolve_pure_iff:
  assumes "opened c f" "unat i * c_blockSize c < 2 ^ 64"
  shows "resolve_pure c f e i = Inr d \<longleftrightarrow>
    mapping_lookup (readBlock c f) (unat (usable c)) (fe_MapBlock e) (unat i) = Some d \<and>
    unat d < c_nextFreeBlock c"
proof -
  define U rd where "U = unat (usable c)" and "rd = readBlock c f"
  note U = usable_nat[OF assms(1), folded U_def]
  have i8: "unat i * (8 * (U + 1)) < 2 ^ 64" using assms(2) U(2) by simp
  have asc: "ascend (usable c) (pure_block rd) () i 1 r = Inr ((idx, L, cur), ()) \<longleftrightarrow>
      1 \<le> L \<and> L \<le> 5 \<and> level_start U L \<le> unat i \<and> unat i < level_start U (Suc L) \<and>
      chain_head rd U (L - 1) r = Some cur \<and> unat idx = unat i - level_start U L" for r idx L cur
    using ascend_pure[of 1 U "unat i" i "usable c" rd r idx L cur] i8 U(4) by (simp add: U_def)
  have desc: "bind_res (descend (usable c) (pure_block rd) () idx L cur)
      (\<lambda>((idx, cur), s). read_leaf c (pure_block rd) s idx cur) = Inr (d, ()) \<longleftrightarrow>
    tree_slot rd U (L - 1) cur (unat idx) = Some d \<and> unat d < c_nextFreeBlock c"
    if "1 \<le> L" "level_start U L \<le> unat i" "unat idx < U ^ L" for idx L cur
    using descend_leaf_pure[OF that(1) capacity_no_wrap[OF that(1,2) i8 U(4)] that(3) U_def U(3,4)] .
  show ?thesis
  proof
    assume "resolve_pure c f e i = Inr d"
    then obtain idx L cur where a: "ascend (usable c) (pure_block rd) () i 1 (fe_MapBlock e) = Inr ((idx, L, cur), ())"
      and d: "bind_res (descend (usable c) (pure_block rd) () idx L cur)
        (\<lambda>((idx, cur), s). read_leaf c (pure_block rd) s idx cur) = Inr (d, ())"
      unfolding resolve_pure_def resolveDataBlock_split rd_def[symmetric]
      by (auto simp: bind_res_eq_Inr[of "ascend _ _ _ _ _ _"] bind_res_eq_Inr[of "bind_res _ _"])
    from a[unfolded asc] have L: "1 \<le> L" "level_start U L \<le> unat i" "unat idx < U ^ L" 
      "unat idx = unat i - level_start U L"
      using level_start_Suc[of L U] by auto
    from d desc[OF L(1-3)] a[unfolded asc] find_level[of "unat i" U L] L show
      "mapping_lookup (readBlock c f) (unat (usable c)) (fe_MapBlock e) (unat i) = Some d \<and>
       unat d < c_nextFreeBlock c"
      by (simp add: mapping_lookup_def flip: U_def rd_def)
  next
    assume "mapping_lookup (readBlock c f) (unat (usable c)) (fe_MapBlock e) (unat i) = Some d \<and>
       unat d < c_nextFreeBlock c"
    then obtain L cur where f: "find (\<lambda>L. unat i < level_start U (Suc L)) [1..<Suc maxMapLevels] = Some L"
      and h: "chain_head rd U (L - 1) (fe_MapBlock e) = Some cur"
      and t: "tree_slot rd U (L - 1) cur (unat i - level_start U L) = Some d" "unat d < c_nextFreeBlock c"
      by (auto simp: mapping_lookup_def bind_eq_Some_conv simp flip: U_def rd_def split: option.splits)
    note L = f[unfolded find_level]
    obtain idx :: u64 where idx: "unat idx = unat i - level_start U L"
      using unat_of_nat64[of "unat i - level_start U L"] unat_less64[of i] by (metis less_imp_diff_less)
    then have "unat idx < U ^ L" using L level_start_Suc[of L U] by auto
    with desc[of L idx cur] L t idx asc[of "fe_MapBlock e" idx L cur] h
    show "resolve_pure c f e i = Inr d"
      by (simp add: resolve_pure_def resolveDataBlock_split flip: rd_def)
  qed
qed

abbreviation block_bytes :: "Container \<Rightarrow> byte list \<Rightarrow> u64 \<Rightarrow> byte list" where
  "block_bytes c f d \<equiv> slice (unat d * c_blockSize c) (c_blockSize c) f"

lemma whole_block:
  "opened c f \<Longrightarrow> d < c_nextFreeBlock c \<Longrightarrow> d * c_blockSize c + c_blockSize c \<le> length f"
proof -
  assume "opened c f" "d < c_nextFreeBlock c"
  then have "(d + 1) * c_blockSize c \<le> length f div c_blockSize c * c_blockSize c"
    by (intro mult_le_mono1) (simp add: opened_def)
  also have "\<dots> \<le> length f" by simp
  finally show ?thesis by simp
qed

lemma min_diff_right: "(a::nat) \<le> s \<Longrightarrow> min (a + b) s - a = min b (s - a)"
  by arith

lemma readEntry_run:
  assumes "opened c f" "\<forall>d\<in>set bl. unat d < c_nextFreeBlock c" "length out = unat (fe_Size e)"
    "\<forall>j<length bl. (i + j) * c_blockSize c < unat (fe_Size e)"
    "unat (fe_Size e) \<le> (i + length bl) * c_blockSize c"
  shows "run_steps (readEntry_step c f e) out (enumerate i bl) =
    Inr (take (i * c_blockSize c) out @
      take (unat (fe_Size e) - i * c_blockSize c) (concat (map (block_bytes c f) bl)))"
  using assms(2-5)
proof (induction bl arbitrary: i out)
  case (Cons d bl)
  let ?bs = "c_blockSize c" and ?sz = "unat (fe_Size e)"
  let ?m = "min ?bs (?sz - i * ?bs)"
  have i: "i * ?bs < ?sz" using Cons.prems(3) by auto
  have fin: "min (i * ?bs + ?bs) ?sz - i * ?bs = ?m" using i by (intro min_diff_right) simp
  have fits: "unat d * ?bs + ?m \<le> length f" using whole_block[OF assms(1), of "unat d"] Cons.prems(1) by simp
  let ?out = "put_at (i * ?bs) (take ?m (block_bytes c f d)) out"
  have len: "length (block_bytes c f d) = ?bs"
    using whole_block[OF assms(1), of "unat d"] Cons.prems(1) by simp
  have out: "length ?out = ?sz" using len i Cons.prems(2) by (subst length_put_at) auto
  have tk: "take ?m (block_bytes c f d) = slice (unat d * ?bs) ?m f" by (simp add: slice_def min_def)
  have step: "readEntry_step c f e out (i, d) = Inr ?out"
    using fits tk by (simp add: readEntry_step_def Let_def fin ReadAt_def)
  show ?case
  proof (cases bl)
    case Nil
    then have "?sz \<le> i * ?bs + ?bs" using Cons.prems(4) by simp
    then show ?thesis using Nil step i len Cons.prems(2) by (simp add: put_at_def min_def)
  next
    case (Cons d' bl')
    have more: "(i + 1) * ?bs < ?sz" using Cons Cons.prems(3)[rule_format, of 1] by simp
    have "run_steps (readEntry_step c f e) ?out (enumerate (Suc i) bl) =
      Inr (take (Suc i * ?bs) ?out @ take (?sz - Suc i * ?bs) (concat (map (block_bytes c f) bl)))"
    proof (rule Cons.IH)
      show "\<forall>j<length bl. (Suc i + j) * ?bs < ?sz"
        using Cons.prems(3)[rule_format, of "Suc _"] by auto
    qed (use Cons.prems out in auto)
    moreover have "take (Suc i * ?bs) ?out = take (i * ?bs) out @ block_bytes c f d"
      using more len i Cons.prems(2) by (simp add: put_at_def min_def)
    ultimately show ?thesis using step len more by (simp add: add.commute)
  qed
qed simp

lemma block_count_nat:
  assumes "opened c f" "unat (fe_Size e) < 2 ^ 63"
  shows "block_count c e = (unat (fe_Size e) + c_blockSize c - 1) div c_blockSize c"
proof -
  let ?b = "word_of_nat (c_blockSize c) :: u64"
  have bs: "16 \<le> c_blockSize c" "c_blockSize c < 2 ^ 32" using assms(1) by (auto simp: opened_def)
  then have b: "unat ?b = c_blockSize c" by (intro unat_of_nat64) simp
  have "unat (fe_Size e + ?b) = unat (fe_Size e) + unat ?b"
    using bs b assms(2) by (intro unat_add_lem[THEN iffD1]) simp
  moreover have "1 \<le> fe_Size e + ?b"
    using bs b calculation by (simp add: word_le_nat_alt)
  ultimately have "unat (fe_Size e + ?b - 1) = unat (fe_Size e) + c_blockSize c - 1"
    using b by (simp add: unat_sub)
  then show ?thesis using b by (simp add: unat_div)
qed

lemma ceil_div:
  assumes "0 < (b::nat)"
  shows "j < (n + b - Suc 0) div b \<longleftrightarrow> j * b < n" "n \<le> (n + b - Suc 0) div b * b"
proof -
  have "j < (n + b - Suc 0) div b \<longleftrightarrow> Suc j * b \<le> n + b - Suc 0"
    using assms by (simp add: Suc_le_eq[symmetric] less_eq_div_iff_mult_less_eq)
  then show "j < (n + b - Suc 0) div b \<longleftrightarrow> j * b < n" using assms by auto
  have "n + b - Suc 0 < b + (n + b - Suc 0) div b * b" using assms by (rule dividend_less_div_times)
  then show "n \<le> (n + b - Suc 0) div b * b" using assms by linarith
qed

lemma dataBlocks_iff:
  assumes "opened c f" "unat (fe_Size e) < 2 ^ 63"
  shows "dataBlocks c f e = Inr bl \<longleftrightarrow>
    length bl = (unat (fe_Size e) + c_blockSize c - 1) div c_blockSize c \<and>
    (\<forall>i<length bl. mapping_lookup (readBlock c f) (unat (usable c)) (fe_MapBlock e) i = Some (bl ! i) \<and>
      unat (bl ! i) < c_nextFreeBlock c)"
proof -
  let ?n = "(unat (fe_Size e) + c_blockSize c - 1) div c_blockSize c"
  have r: "resolve_pure c f e (word_of_nat i) = Inr d \<longleftrightarrow>
    mapping_lookup (readBlock c f) (unat (usable c)) (fe_MapBlock e) i = Some d \<and> unat d < c_nextFreeBlock c"
    if "i < ?n" for i d
  proof -
    have bs: "16 \<le> c_blockSize c" using assms(1) by (simp add: opened_def)
    then have "i * c_blockSize c < 2 ^ 63" using that assms(2) by (simp add: ceil_div)
    moreover have "i \<le> i * c_blockSize c" using bs by (cases "c_blockSize c") auto
    ultimately have "i < 2 ^ 63" by (metis le_less_trans)
    then have "i < 2 ^ 64" by simp
    then have "unat (word_of_nat i :: u64) = i" by (rule unat_of_nat64)
    then show ?thesis using resolve_pure_iff[OF assms(1), of "word_of_nat i"] \<open>i * c_blockSize c < 2 ^ 63\<close> by simp
  qed
  show ?thesis
    unfolding dataBlocks_eq block_count_nat[OF assms] map_res_Inr_iff list_all2_conv_all_nth
    using r by auto
qed

lemma readEntry_iff:
  assumes "opened c f"
  shows "readEntry c f e = Inr out \<longleftrightarrow> unat (fe_Size e) < 2 ^ 63 \<and>
    (\<exists>bl. dataBlocks c f e = Inr bl \<and>
      out = take (unat (fe_Size e)) (concat (map (block_bytes c f) bl)))"
proof (cases "unat (fe_Size e) < 2 ^ 63")
  case True
  have bs: "0 < c_blockSize c" using assms by (simp add: opened_def)
  show ?thesis
  proof (cases "fe_Size e = 0")
    case True
    then have "dataBlocks c f e = Inr []" using dataBlocks_iff[OF assms, of e "[]"] bs by simp
    with True show ?thesis by (auto simp: readEntry_def)
  next
    case False
    have "run_steps (readEntry_step c f e) (replicate (unat (fe_Size e)) 0) (enumerate 0 bl) =
        Inr (take (unat (fe_Size e)) (concat (map (block_bytes c f) bl)))" if "dataBlocks c f e = Inr bl" for bl
    proof -
      have "\<forall>d\<in>set bl. unat d < c_nextFreeBlock c"
        using that by (auto simp: dataBlocks_iff[OF assms True] in_set_conv_nth)
      then show ?thesis
        using readEntry_run[OF assms, of bl "replicate (unat (fe_Size e)) 0" e 0] that bs
        by (simp add: dataBlocks_iff[OF assms True] ceil_div)
    qed
    with True False show ?thesis
      by (auto simp: readEntry_def bind_res_eq_Inr)
  qed
qed (simp add: readEntry_def)

text \<open>No step reports a short read when no block read does.\<close>

lemma readBlock_not_short: "opened c f \<Longrightarrow> readBlock c f b \<noteq> Inl ReadShort"
  using whole_block[of c f "unat b"] by (auto simp: readBlock_def ReadAt_def)

lemma pure_not_short:
  assumes "\<And>b. rd b \<noteq> Inl ReadShort"
  shows "pure_block rd s b \<noteq> Inl ReadShort" "ascend u (pure_block rd) s idx L cur \<noteq> Inl ReadShort"
    "descend u (pure_block rd) s idx L cur \<noteq> Inl ReadShort"
proof -
  show p: "pure_block rd s b \<noteq> Inl ReadShort" for s b using assms by (auto simp: pure_block_def bind_res_eq_Inl)
  show "ascend u (pure_block rd) s idx L cur \<noteq> Inl ReadShort"
  proof (induction "6 - L" arbitrary: s idx L cur rule: less_induct)
    case less
    then show ?case using p
      by (subst ascend.simps) (auto simp: Let_def maxMapLevels_def bind_res_eq_Inl split: if_splits)
  qed
  show "descend u (pure_block rd) s idx L cur \<noteq> Inl ReadShort"
  proof (induction L arbitrary: s idx cur)
    case (Suc L)
    then show ?case using p
      by (subst descend.simps) (auto simp: Let_def bind_res_eq_Inl split: if_splits)
  qed (simp add: descend.simps)
qed

section \<open>The partial tail\<close>

text \<open>A container and the same container with another file size and partial tail.\<close>

abbreviation retail :: "nat \<Rightarrow> nat \<Rightarrow> Container \<Rightarrow> Container" where
  "retail n t c \<equiv> c\<lparr>c_fileSize := n, c_partialTailBytes := t\<rparr>"

lemma retail_entries [simp]:
  "entryAt (retail n t c) i = entryAt c i"
  "validateEntries (retail n t c) = validateEntries c"
  "Names (retail n t c) = Names c"
  "find_entry (retail n t c) name = find_entry c name"
  "usable (retail n t c) = usable c"
proof -
  show e: "entryAt (retail n t c) i = entryAt c i" for i by (simp add: entryAt_def)
  then have "validateEntry (retail n t c) = validateEntry c" by (simp add: fun_eq_iff validateEntry_def Let_def)
  then show "validateEntries (retail n t c) = validateEntries c" by (simp add: validateEntries_def)
  have "entryAt (retail n t c) = entryAt c" using e by blast
  then show "Names (retail n t c) = Names c" "find_entry (retail n t c) name = find_entry c name"
    by (simp_all add: Names_def find_entry_def)
qed (simp add: usable_def)

lemma try_bases_retail:
  "try_bases (retail n t c) m bases rs = bind_res (try_bases c m bases rs) (\<lambda>c'. Inr (retail n t c'))"
proof (induction bases arbitrary: rs)
  case (Cons base bases)
  have comm: "(retail n t c)\<lparr>c_entryBase := base, c_entryCount := k\<rparr> =
      retail n t (c\<lparr>c_entryBase := base, c_entryCount := k\<rparr>)" for k by simp
  have blk: "c_blockSize (retail n t c) = c_blockSize c" by simp
  show ?case
    unfolding try_bases.simps Let_def blk comm retail_entries(2)
    by (simp only: Cons.IH split: sum.split if_split) simp
qed simp

lemma locate_retail:
  "locateEntryArray (retail n t c) m = bind_res (locateEntryArray c m) (\<lambda>c'. Inr (retail n t c'))"
  by (simp add: locateEntryArray_def Let_def try_bases_retail)

text \<open>The container \<open>Open\<close> builds before it looks for the entry array.\<close>

definition header_container :: "byte list \<Rightarrow> nat \<Rightarrow> Container" where
  "header_container f bs =
     \<lparr>c_blockSize = bs, c_maxShards = f ! 7, c_version = f ! 5, c_encryption = f ! 6,
      c_entryBase = 0, c_entryCount = 0, c_block0 = take bs f,
      c_nextFreeBlock = length f div bs, c_fileSize = length f, c_partialTailBytes = length f mod bs\<rparr>"

definition header_ok :: "byte list \<Rightarrow> nat \<Rightarrow> bool" where
  "header_ok hdr bs \<longleftrightarrow> length hdr = headerSize \<and> take 5 hdr = ctfs_magic \<and> hdr ! 6 = 0 \<and>
     bs = unat (get32 (drop 8 hdr)) \<and> bs mod 8 = 0 \<and> headerSize \<le> bs"

lemma Open_Inr_iff: "Open f = Inr c \<longleftrightarrow> (\<exists>bs. header_ok (take headerSize f) bs \<and> bs \<le> length f \<and>
   locateEntryArray (header_container f bs) (unat (get32 (drop 12 (take headerSize f)))) = Inr c)"
  by (auto simp: Open_def Let_def ReadAt_def header_ok_def header_container_def headerSize_def slice_def
      not_less min_def)

lemma Open_tail:
  assumes "Open f = Inr c" "c_partialTailBytes c = 0" "length t < c_blockSize c"
  shows "Open (f @ t) = Inr (retail (length (f @ t)) (length t) c)"
proof -
  obtain bs where h: "header_ok (take headerSize f) bs" "bs \<le> length f"
    and loc: "locateEntryArray (header_container f bs) (unat (get32 (drop 12 (take headerSize f)))) = Inr c"
    using assms(1) Open_Inr_iff by blast
  have "c_blockSize c = bs"
    using loc by (auto simp: locateEntryArray_def Let_def header_container_def dest!: try_bases_Inr)
  with assms(3) have t: "length t < bs" by simp
  have "length f mod bs = 0" using Open_opened(2)[OF assms(1)] assms(2) \<open>c_blockSize c = bs\<close> by simp
  then have n: "(length f + length t) div bs = length f div bs" "(length f + length t) mod bs = length t"
    using t by (auto elim!: dvdE)
  have l: "headerSize \<le> length f" "7 < headerSize" using h by (auto simp: header_ok_def headerSize_def)
  then have hdr: "take headerSize (f @ t) = take headerSize f" by simp
  have "header_container (f @ t) bs = retail (length (f @ t)) (length t) (header_container f bs)"
    using n h(2) l by (simp add: header_container_def nth_append)
  then show ?thesis
    using loc h locate_retail unfolding Open_Inr_iff hdr by auto
qed

lemma resolve_pure_tail:
  assumes "\<And>b. readBlock c' f' b = readBlock c f b" "usable c' = usable c" "c_nextFreeBlock c' = c_nextFreeBlock c"
  shows "resolve_pure c' f' e i = resolve_pure c f e i"
proof -
  have "readBlock c' f' = readBlock c f" using assms(1) by blast
  moreover have "read_leaf c' block s idx cur = read_leaf c block s idx cur" for block :: "unit block_fn" and s idx cur
    unfolding read_leaf_def assms(3) ..
  ultimately show ?thesis using assms(2) by (simp add: resolve_pure_def resolveDataBlock_split)
qed

section \<open>A small container\<close>

text \<open>Three blocks of 64 bytes holding one file of three bytes, named \<open>a\<close>.\<close>

definition ct_example :: "byte list" where
  "ct_example =
     ctfs_magic @ [4, 0, 0] @ put32 64 @ put32 1 @
     put64 3 @ put64 1 @ put64 11 @ replicate 24 0 @
     put64 2 @ replicate 56 0 @
     [1, 2, 3] @ replicate 61 0"

definition ct_block0 :: "byte list" where
  "ct_block0 = ctfs_magic @ [4, 0, 0] @ put32 64 @ put32 1 @ put64 3 @ put64 1 @ put64 11 @ replicate 24 0"

definition ct_c :: Container where
  "ct_c = \<lparr>c_blockSize = 64, c_maxShards = 0, c_version = 4, c_encryption = 0, c_entryBase = 16, c_entryCount = 1,
     c_block0 = ct_block0, c_nextFreeBlock = 3, c_fileSize = 192, c_partialTailBytes = 0\<rparr>"

lemma upt12: "[0..<12] = [0, 1, 2, 3, 4, 5, 6, 7, 8, 9, 10, 11]" by code_simp
lemma ct_encode: "EncodeName ''a'' = Inr 11"
  by (simp add: EncodeName_def MaxNameLen_def EncodeName_step_def base40Alphabet_def Let_def upt12)
lemma ct_decode: "DecodeName 11 = ''a''"
  by (simp add: DecodeName.simps base40Alphabet_def)
lemma ct_entry: "entryAt ct_c 0 = \<lparr>fe_Size = 3, fe_MapBlock = 1, fe_Name = 11, fe_Slot = 0\<rparr>"
  by (simp add: entryAt_def ct_c_def ct_block0_def ctfs_magic_def fileEntrySize_def)
lemma ct_valid: "validateEntries ct_c = Inr ()"
  using ct_entry ct_encode ct_decode by (simp add: validateEntries_def validateEntry_def) (simp add: ct_c_def validateEntry_def)
lemma ct_open: "Open ct_example = Inr ct_c"
  using ct_valid
  by (simp add: Open_def ct_example_def ctfs_magic_def headerSize_def ReadAt_def slice_def locateEntryArray_def fileEntrySize_def ct_c_def ct_block0_def Let_def)

section \<open>Properties\<close>

text \<open>C25: a file name that packs into the 64-bit name field unpacks to itself, so the packing is
  injective and never loses a character to overflow.\<close>
theorem base40_round_trip:
  "EncodeName name = Inr w \<Longrightarrow> DecodeName w = name"
proof -
  assume a: "EncodeName name = Inr w"
  note e = EncodeName_Inr[OF a]
  let ?ds = "map pos40 name"
  have ds: "\<forall>d\<in>set ?ds. 0 < d \<and> d < 40" using e(2) pos40_pos by auto
  have "val40 ?ds < 40 ^ length ?ds" using val40_bound[OF ds] by simp
  also have "\<dots> \<le> 40 ^ 12" using e(4) by (intro power_increasing) auto
  also have "\<dots> < 2 ^ 64" by simp
  finally have "DecodeName w = map (\<lambda>d. base40Alphabet ! nat d) ?ds"
    using DecodeName_val40[OF ds] e(1) by simp
  also have "\<dots> = name" using e(2) pos40_pos by (simp add: map_idI)
  finally show "DecodeName w = name" .
qed

theorem base40_round_trip_witness: "EncodeName ''a'' = Inr 11 \<and> DecodeName 11 = ''a''"
  using base40_round_trip[OF ct_encode] ct_encode by simp

text \<open>C7: reading an internal file of an opened container gives exactly the bytes its
  multi-level mapping names: data block \<open>i\<close> is found in closed form on the level whose index
  range contains \<open>i\<close>, every data block is a whole block of the file, and the bytes are
  concatenated and cut at the entry's size; when some index has no such block, or the size is no
  Go length, nothing is returned.\<close>
theorem read_entry_spec:
  assumes "Open f = Inr c"
  shows "readEntry c f e = Inr out \<longleftrightarrow>
    (let bs = c_blockSize c; sz = unat (fe_Size e) in
     sz < 2 ^ 63 \<and>
     (\<exists>bl. length bl = (sz + bs - 1) div bs \<and>
       (\<forall>i<length bl. mapping_lookup (readBlock c f) (bs div 8 - 1) (fe_MapBlock e) i = Some (bl ! i) \<and>
          unat (bl ! i) < length f div bs) \<and>
       out = take sz (concat (map (\<lambda>d. slice (unat d * bs) bs f) bl))))"
proof -
  note o = Open_opened(1)[OF assms]
  have "c_nextFreeBlock c = length f div c_blockSize c" using o by (simp add: opened_def)
  then show ?thesis
    using usable_nat(1)[OF o] dataBlocks_iff[OF o, of e] unfolding readEntry_iff[OF o] Let_def
    by (auto simp flip: usable_nat(1)[OF o])
qed

theorem read_entry_spec_witness:
  "Open ct_example = Inr ct_c \<and> readEntry ct_c ct_example (entryAt ct_c 0) = Inr [1, 2, 3]"
proof -
  have rb: "readBlock ct_c ct_example 1 = Inr (put64 2 @ replicate 56 0)"
    by (simp add: readBlock_def ReadAt_def ct_c_def ct_example_def ctfs_magic_def slice_def)
  then have "mapping_lookup (readBlock ct_c ct_example) 7 1 0 = Some 2"
    by (simp add: mapping_lookup_def maxMapLevels_def level_start_def upt_rec slot_def)
  moreover have "length ct_example = 192" "c_blockSize ct_c = 64"
    by (simp_all add: ct_example_def ctfs_magic_def ct_c_def)
  moreover have "slice 128 64 ct_example = [1, 2, 3] @ replicate 61 0"
    by (simp add: ct_example_def ctfs_magic_def slice_def)
  ultimately show ?thesis
    using ct_open ct_entry by (subst read_entry_spec[OF ct_open]) (auto simp: Let_def intro!: exI[of _ "[2]"])
qed



text \<open>C32: bytes after the last whole block change nothing: a container whose last append died
  inside its tail write opens, lists and reads as the container without those bytes.\<close>
theorem partial_tail_ignored:
  assumes "Open f = Inr c" "c_partialTailBytes c = 0" "length t < c_blockSize c"
  shows "\<exists>c'. Open (f @ t) = Inr c' \<and> c_partialTailBytes c' = length t \<and> Names c' = Names c \<and>
    (\<forall>name. ReadFile c' (f @ t) name = ReadFile c f name)"
proof -
  define c' where "c' = retail (length (f @ t)) (length t) c"
  have opn: "Open (f @ t) = Inr c'" unfolding c'_def by (rule Open_tail[OF assms])
  have c' [simp]: "usable c' = usable c" "c_nextFreeBlock c' = c_nextFreeBlock c"
    "c_blockSize c' = c_blockSize c" "find_entry c' = find_entry c" "Names c' = Names c"
    "c_partialTailBytes c' = length t"
    by (simp_all add: c'_def fun_eq_iff)
  note o = Open_opened(1)[OF assms(1)]
  have rd: "ReadAt (f @ t) n off = ReadAt f n off" if "off + n \<le> length f" for n off
    using that by (simp add: ReadAt_def slice_append_left)
  have rb: "readBlock c' (f @ t) b = readBlock c f b" for b
    using whole_block[OF o, of "unat b"] by (simp add: readBlock_def rd)
  have d: "dataBlocks c' (f @ t) e = dataBlocks c f e" for e
  proof -
    have "resolve_pure c' (f @ t) e = resolve_pure c f e"
      by (rule ext, rule resolve_pure_tail[OF rb]) simp_all
    then show ?thesis unfolding dataBlocks_eq by simp
  qed
    have step: "readEntry_step c' (f @ t) e out x = readEntry_step c f e out x"
      if "unat (snd x) < c_nextFreeBlock c" for e out x
      using whole_block[OF o that] by (cases x) (simp add: readEntry_step_def Let_def rd)
    have "readEntry c' (f @ t) e = readEntry c f e" for e
    proof (cases "unat (fe_Size e) < 2 ^ 63")
      case True
      have "run_steps (readEntry_step c' (f @ t) e) out (enumerate 0 bl) =
          run_steps (readEntry_step c f e) out (enumerate 0 bl)" if "dataBlocks c f e = Inr bl" for out bl
        using that by (intro run_steps_cong step)
          (auto simp: dataBlocks_iff[OF o True] in_set_enumerate_eq)
      then show ?thesis by (cases "dataBlocks c f e") (auto simp: readEntry_def d Let_def)
    qed (simp add: readEntry_def)
    then have "readEntry c' (f @ t) = readEntry c f" by blast
    then show ?thesis using opn by (auto simp: ReadFile_def intro!: exI[of _ c'])
qed

theorem partial_tail_ignored_witness:
  "\<exists>c'. Open (ct_example @ [9]) = Inr c' \<and> c_partialTailBytes c' = 1 \<and> Names c' = Names ct_c \<and>
     (\<forall>name. ReadFile c' (ct_example @ [9]) name = ReadFile ct_c ct_example name)"
  using partial_tail_ignored[OF ct_open, of "[9]"] by (simp add: ct_c_def)

text \<open>C26: every name an opened container lists can be looked up.\<close>
theorem listed_files_exist:
  assumes "Open f = Inr c" "name \<in> set (Names c)"
  shows "Has c name"
proof -
  obtain i where i: "i < c_entryCount c" "fe_Name (entryAt c i) \<noteq> 0" "name = DecodeName (fe_Name (entryAt c i))"
    using assms(2) by (auto simp: Names_def)
  have "validateEntries c = Inr ()" using Open_opened(1)[OF assms(1)] by (simp add: opened_def)
  then obtain bs where "list_all2 (\<lambda>i b. validateEntry c i = Inr b) [0..<c_entryCount c] bs"
    by (auto simp: validateEntries_def bind_res_eq_Inr map_res_Inr_iff split: if_splits)
  then have "\<exists>b. validateEntry c i = Inr b" using i(1) by (auto simp: list_all2_conv_all_nth)
  then have "EncodeName name = Inr (fe_Name (entryAt c i))"
    using i by (auto simp: validateEntry_def Let_def split: if_splits)
  moreover have "find (\<lambda>e. fe_Name e = fe_Name (entryAt c i)) (map (entryAt c) [0..<c_entryCount c]) \<noteq> None"
    using i(1) by (auto simp: find_None_iff)
  ultimately show ?thesis by (auto simp: Has_def find_entry_def split: option.split)
qed

theorem listed_files_exist_witness: "''a'' \<in> set (Names ct_c) \<and> Has ct_c ''a''"
proof -
  have "''a'' \<in> set (Names ct_c)"
    using ct_entry ct_decode by (force simp: Names_def ct_c_def)
  then show ?thesis using listed_files_exist[OF ct_open] by simp
qed

end
