(* ===== verification/GoText.thy ===== *)
theory GoText
  imports Prelude
begin

text \<open>
  What the recorder uses of Go's \<open>strings\<close> and \<open>strconv\<close>: Go strings are byte strings, so
  they are lists of 8-bit characters. Integer parsing keeps the range checks of \<open>strconv\<close>,
  and a parse error is \<open>None\<close>.
\<close>

section \<open>Definitions\<close>

definition HasPrefix :: "string \<Rightarrow> string \<Rightarrow> bool" where
  "HasPrefix s p \<longleftrightarrow> take (length p) s = p"

fun Contains :: "string \<Rightarrow> string \<Rightarrow> bool" where
  "Contains [] sub \<longleftrightarrow> sub = []"
| "Contains (c # s) sub \<longleftrightarrow> HasPrefix (c # s) sub \<or> Contains s sub"

fun LastIndexByte :: "string \<Rightarrow> char \<Rightarrow> nat option" where
  "LastIndexByte [] c = None"
| "LastIndexByte (a # s) c = (case LastIndexByte s c of
     Some i \<Rightarrow> Some (Suc i)
   | None \<Rightarrow> if a = c then Some 0 else None)"

text \<open>\<open>unicode.IsSpace\<close>, by the UTF-8 encodings of the characters it accepts.\<close>

definition space_encodings :: "string list" where
  "space_encodings =
     map (\<lambda>n. [char_of n]) [9, 10, 11, 12, 13, 32 :: nat] @
     map (map char_of)
       ([[0xc2, 0x85], [0xc2, 0xa0], [0xe1, 0x9a, 0x80]] @
        map (\<lambda>n. [0xe2, 0x80, n]) [0x80, 0x81, 0x82, 0x83, 0x84, 0x85, 0x86, 0x87, 0x88, 0x89, 0x8a] @
        [[0xe2, 0x80, 0xa8], [0xe2, 0x80, 0xa9], [0xe2, 0x80, 0xaf], [0xe2, 0x81, 0x9f],
         [0xe3, 0x80, 0x80 :: nat]])"

definition space_prefix :: "string list \<Rightarrow> string \<Rightarrow> string option" where
  "space_prefix encs s = find (HasPrefix s) encs"

function trim_left :: "string list \<Rightarrow> string \<Rightarrow> string" where
  "trim_left encs s = (case space_prefix encs s of
     None \<Rightarrow> s
   | Some p \<Rightarrow> if p = [] then s else trim_left encs (drop (length p) s))"
  by pat_completeness auto
termination
proof (relation "measure (length \<circ> snd)")
  fix encs s p assume "space_prefix encs s = Some p" "p \<noteq> []"
  then have "HasPrefix s p" by (auto simp: space_prefix_def find_Some_iff)
  then have "length p \<le> length s" unfolding HasPrefix_def by (metis length_take min.cobounded1)
  with \<open>p \<noteq> []\<close> show "((encs, drop (length p) s), encs, s) \<in> measure (length \<circ> snd)"
    by (cases p) auto
qed simp

definition TrimSpace :: "string \<Rightarrow> string" where
  "TrimSpace s = rev (trim_left (map rev space_encodings) (rev (trim_left space_encodings s)))"

subsection \<open>Integers\<close>

definition digit_val :: "char \<Rightarrow> nat" where
  "digit_val c = (let n = of_char c in
     if 48 \<le> n \<and> n \<le> 57 then n - 48
     else if 97 \<le> n \<and> n \<le> 122 then n - 97 + 10
     else if 65 \<le> n \<and> n \<le> 90 then n - 65 + 10
     else 36)"

definition ParseUint :: "string \<Rightarrow> nat \<Rightarrow> nat \<Rightarrow> nat option" where
  "ParseUint s base bits =
     (if s = [] \<or> \<not> list_all (\<lambda>c. digit_val c < base) s then None
      else let n = foldl (\<lambda>n c. n * base + digit_val c) 0 s in if n < 2 ^ bits then Some n else None)"

definition ParseInt :: "string \<Rightarrow> nat \<Rightarrow> nat \<Rightarrow> int option" where
  "ParseInt s base bits =
     (let neg = (case s of c # _ \<Rightarrow> c = CHR ''-'' | [] \<Rightarrow> False);
          digits = (case s of c # r \<Rightarrow> if c = CHR ''-'' \<or> c = CHR ''+'' then r else s | [] \<Rightarrow> [])
      in case ParseUint digits base bits of
           None \<Rightarrow> None
         | Some un \<Rightarrow>
             if \<not> neg \<and> un \<ge> 2 ^ (bits - 1) then None
             else if neg \<and> un > 2 ^ (bits - 1) then None
             else Some (if neg then - int un else int un))"

definition Atoi :: "string \<Rightarrow> int option" where
  "Atoi s = ParseInt s 10 64"

definition digit_char :: "nat \<Rightarrow> char" where
  "digit_char n = char_of (48 + n)"

fun FormatUint :: "nat \<Rightarrow> string" where
  "FormatUint n = (if n < 10 then [digit_char n] else FormatUint (n div 10) @ [digit_char (n mod 10)])"

section \<open>Lemmas\<close>

lemma HasPrefix_append [simp]: "HasPrefix (p @ s) p"
  by (simp add: HasPrefix_def)

lemma HasPrefix_iff: "HasPrefix s p \<longleftrightarrow> (\<exists>r. s = p @ r)"
  by (metis HasPrefix_append HasPrefix_def append_take_drop_id)

lemma digit_val_digit_char [simp]: "n < 10 \<Longrightarrow> digit_val (digit_char n) = n"
  by (simp add: digit_val_def digit_char_def)

declare FormatUint.simps [simp del]

lemma FormatUint_digits: "list_all (\<lambda>c. digit_val c < 10) (FormatUint n)"
proof (induction n rule: FormatUint.induct)
  case (1 n)
  then show ?case by (subst FormatUint.simps) simp
qed

lemma FormatUint_nonempty [simp]: "FormatUint n \<noteq> []"
  by (subst FormatUint.simps) simp

lemma FormatUint_value: "foldl (\<lambda>n c. n * 10 + digit_val c) 0 (FormatUint n) = n"
proof (induction n rule: FormatUint.induct)
  case (1 n)
  then show ?case by (subst FormatUint.simps) simp
qed

lemma ParseUint_FormatUint: "n < 2 ^ bits \<Longrightarrow> ParseUint (FormatUint n) 10 bits = Some n"
  by (simp add: ParseUint_def FormatUint_digits FormatUint_value Let_def)

lemma FormatUint_head_digit: "FormatUint n = c # s \<Longrightarrow> digit_val c < 10"
  using FormatUint_digits[of n] by simp

lemma digit_val_sign: "digit_val CHR ''-'' = 36" "digit_val CHR ''+'' = 36" "digit_val CHR '':'' = 36"
  by (simp_all add: digit_val_def)

lemma ParseInt_FormatUint: "n < 2 ^ 63 \<Longrightarrow> ParseInt (FormatUint n) 10 64 = Some (int n)"
proof -
  assume n: "n < 2 ^ 63"
  obtain c s where cs: "FormatUint n = c # s" by (cases "FormatUint n") auto
  have "c \<noteq> CHR ''-''" "c \<noteq> CHR ''+''"
    using FormatUint_head_digit[OF cs] digit_val_sign by auto
  moreover have "ParseUint (c # s) 10 64 = Some n" using ParseUint_FormatUint[of n 64] n cs by simp
  ultimately show ?thesis using n unfolding cs by (simp add: ParseInt_def Let_def)
qed

lemma Atoi_FormatUint: "n < 2 ^ 63 \<Longrightarrow> Atoi (FormatUint n) = Some (int n)"
  by (simp add: Atoi_def ParseInt_FormatUint)

lemma LastIndexByte_None: "LastIndexByte s c = None \<longleftrightarrow> c \<notin> set s"
  by (induction s) (auto split: option.splits)

lemma LastIndexByte_append: "c \<notin> set r \<Longrightarrow> LastIndexByte (s @ c # r) c = Some (length s)"
  by (induction s) (auto simp: LastIndexByte_None split: option.split)

end
