(* ===== verification/BoundaryValues.thy ===== *)
theory BoundaryValues
  imports GoText
begin

text \<open>
  Values that cross a recorded boundary (\<open>internal/boundarylog/values.go\<close>): the four scalar
  types, signatures, recorded values in their \<open>.ct\<close> spelling and their decoding into
  the 64-bit representation of the runtime.
\<close>

section \<open>Definitions\<close>

datatype ScalarType = TypeI32 | TypeI64 | TypeF32 | TypeF64

record Signature =
  sig_Params :: "ScalarType list"
  sig_Results :: "ScalarType list"

record BValue =
  v_Type :: ScalarType
  v_Bits :: u64

record rawValue =
  rv_Kind :: string
  rv_Text :: string

datatype value_error =
    UnsupportedType string | UnsupportedValueType byte
  | NotIntKind | NotInteger | NotFloatKind | NotFloat
  | WidthMismatch | BadNibbles | BadBits
  | TupleArity nat nat

text \<open>Decimal floating point: \<open>strconv.ParseFloat(s, 64)\<close> as the bits of the result, and the
  narrowing conversion \<open>float32(f)\<close> from the bits of a float64 to those of a float32.\<close>

record float_ops =
  ParseFloat :: "string \<Rightarrow> u64 option"
  narrow32 :: "u64 \<Rightarrow> u32"

definition ParseScalarType :: "string \<Rightarrow> value_error + ScalarType" where
  "ParseScalarType s =
     (if s = ''i32'' then Inr TypeI32
      else if s = ''i64'' then Inr TypeI64
      else if s = ''f32'' then Inr TypeF32
      else if s = ''f64'' then Inr TypeF64
      else Inl (UnsupportedType s))"

fun ScalarType_String :: "ScalarType \<Rightarrow> string" where
  "ScalarType_String TypeI32 = ''i32''"
| "ScalarType_String TypeI64 = ''i64''"
| "ScalarType_String TypeF32 = ''f32''"
| "ScalarType_String TypeF64 = ''f64''"

definition ScalarTypeOf :: "byte \<Rightarrow> value_error + ScalarType" where
  "ScalarTypeOf v =
     (if v = 0x7f then Inr TypeI32
      else if v = 0x7e then Inr TypeI64
      else if v = 0x7d then Inr TypeF32
      else if v = 0x7c then Inr TypeF64
      else Inl (UnsupportedValueType v))"

fun ValueType :: "ScalarType \<Rightarrow> byte" where
  "ValueType TypeI32 = 0x7f"
| "ValueType TypeI64 = 0x7e"
| "ValueType TypeF32 = 0x7d"
| "ValueType TypeF64 = 0x7c"

definition Signature_Equal :: "Signature \<Rightarrow> Signature \<Rightarrow> bool" where
  "Signature_Equal s t \<longleftrightarrow>
     length (sig_Params s) = length (sig_Params t) \<and> length (sig_Results s) = length (sig_Results t) \<and>
     (\<forall>i\<in>set [0..<length (sig_Params s)]. sig_Params s ! i = sig_Params t ! i) \<and>
     (\<forall>i\<in>set [0..<length (sig_Results s)]. sig_Results s ! i = sig_Results t ! i)"

definition BValue_Equal :: "BValue \<Rightarrow> BValue \<Rightarrow> bool" where
  "BValue_Equal v w \<longleftrightarrow> v_Type v = v_Type w \<and> v_Bits v = v_Bits w"

definition FromWazero :: "ScalarType \<Rightarrow> u64 \<Rightarrow> BValue" where
  "FromWazero t raw = \<lparr>v_Type = t, v_Bits = raw\<rparr>"

fun floatBitsPrefix :: "ScalarType \<Rightarrow> (string \<times> nat) option" where
  "floatBitsPrefix TypeF32 = Some (''f32:0x'', 8)"
| "floatBitsPrefix TypeF64 = Some (''f64:0x'', 16)"
| "floatBitsPrefix _ = None"

definition parseFloatBits :: "string \<Rightarrow> ScalarType \<Rightarrow> value_error + u64 option" where
  "parseFloatBits txt t = (case floatBitsPrefix t of
     None \<Rightarrow> Inr None
   | Some (pre, nibbles) \<Rightarrow>
       if \<not> HasPrefix txt ''f32:0x'' \<and> \<not> HasPrefix txt ''f64:0x'' then Inr None
       else if \<not> HasPrefix txt pre then Inl WidthMismatch
       else let digits = drop (length pre) txt in
         if length digits \<noteq> nibbles then Inl BadNibbles
         else (case ParseUint digits 16 64 of
           None \<Rightarrow> Inl BadBits
         | Some bits \<Rightarrow> Inr (Some (word_of_nat bits))))"

definition decode_int :: "string \<Rightarrow> ScalarType \<Rightarrow> value_error + BValue" where
  "decode_int txt t =
     (case ParseInt txt 10 64 of
        Some n \<Rightarrow> Inr \<lparr>v_Type = t,
          v_Bits = (if t = TypeI32 then ucast (word_of_int n :: u32) else word_of_int n)\<rparr>
      | None \<Rightarrow>
          (case ParseUint txt 10 64 of
             Some u \<Rightarrow> Inr \<lparr>v_Type = t,
               v_Bits = (if t = TypeI32 then ucast (word_of_nat u :: u32) else word_of_nat u)\<rparr>
           | None \<Rightarrow> Inl NotInteger))"

definition decode :: "float_ops \<Rightarrow> rawValue \<Rightarrow> ScalarType \<Rightarrow> value_error + BValue" where
  "decode fo r t =
     (if t = TypeI32 \<or> t = TypeI64 then
        if rv_Kind r \<noteq> ''Int'' \<and> rv_Kind r \<noteq> ''Raw'' then Inl NotIntKind
        else decode_int (TrimSpace (rv_Text r)) t
      else
        if rv_Kind r \<noteq> ''Float'' then Inl NotFloatKind
        else let txt = TrimSpace (rv_Text r) in
          bind_res (parseFloatBits txt t) (\<lambda>m. case m of
            Some bits \<Rightarrow> Inr \<lparr>v_Type = t, v_Bits = bits\<rparr>
          | None \<Rightarrow>
              (case ParseFloat fo txt of
                 None \<Rightarrow> Inl NotFloat
               | Some f \<Rightarrow> Inr \<lparr>v_Type = t,
                   v_Bits = (if t = TypeF32 then ucast (narrow32 fo f) else f)\<rparr>)))"

definition decodeTuple :: "float_ops \<Rightarrow> rawValue list \<Rightarrow> ScalarType list \<Rightarrow> value_error + BValue list" where
  "decodeTuple fo raws types =
     (if length raws \<noteq> length types then Inl (TupleArity (length raws) (length types))
      else map_res (\<lambda>(r, t). decode fo r t) (zip raws types))"

text \<open>The spellings the producers write: a signed decimal, and a width-tagged hex bit pattern.\<close>

definition FormatInt :: "int \<Rightarrow> string" where
  "FormatInt n = (if n < 0 then CHR ''-'' # FormatUint (nat (- n)) else FormatUint (nat n))"

definition hex_char :: "nat \<Rightarrow> char" where
  "hex_char n = (if n < 10 then digit_char n else char_of (87 + n))"

primrec hex_digits :: "nat \<Rightarrow> nat \<Rightarrow> string" where
  "hex_digits 0 n = []"
| "hex_digits (Suc k) n = hex_digits k (n div 16) @ [hex_char (n mod 16)]"

section \<open>Lemmas\<close>

lemma Signature_Equal_iff: "Signature_Equal s t \<longleftrightarrow> s = t"
proof
  assume "Signature_Equal s t"
  then show "s = t" by (intro Signature.equality) (auto simp: Signature_Equal_def intro: nth_equalityI)
qed (simp add: Signature_Equal_def)

lemma BValue_Equal_iff: "BValue_Equal v w \<longleftrightarrow> v = w"
  by (auto simp: BValue_Equal_def)

lemma ScalarTypeOf_ValueType [simp]: "ScalarTypeOf (ValueType t) = Inr t"
  by (cases t) (simp_all add: ScalarTypeOf_def)

lemma ScalarTypeOf_Inr: "ScalarTypeOf v = Inr t \<Longrightarrow> ValueType t = v"
  by (auto simp: ScalarTypeOf_def split: if_splits)

lemma ParseScalarType_String [simp]: "ParseScalarType (ScalarType_String t) = Inr t"
  by (cases t) (simp_all add: ParseScalarType_def)

subsection \<open>Spellings without white space\<close>

definition graphic :: "char \<Rightarrow> bool" where
  "graphic c \<longleftrightarrow> 33 \<le> (of_char c :: nat) \<and> (of_char c :: nat) < 127"

lemma trim_left_graphic:
  assumes "\<And>p. p \<in> set encs \<Longrightarrow> \<exists>a q. p = a # q \<and> \<not> graphic a" "s = c # r" "graphic c"
  shows "trim_left encs s = s"
proof -
  have "space_prefix encs s = None"
    using assms by (fastforce simp: space_prefix_def find_None_iff HasPrefix_iff)
  then show ?thesis by (subst trim_left.simps) simp
qed

lemma space_encodings_not_graphic:
  "p \<in> set space_encodings \<Longrightarrow> \<exists>a q. p = a # q \<and> \<not> graphic a"
  "p \<in> set (map rev space_encodings) \<Longrightarrow> \<exists>a q. p = a # q \<and> \<not> graphic a"
  by (auto simp: space_encodings_def graphic_def)

lemma TrimSpace_graphic: "s \<noteq> [] \<Longrightarrow> \<forall>c\<in>set s. graphic c \<Longrightarrow> TrimSpace s = s"
proof -
  assume s: "s \<noteq> []" "\<forall>c\<in>set s. graphic c"
  then obtain c r where "s = c # r" by (cases s) auto
  with s have l: "trim_left space_encodings s = s"
    by (intro trim_left_graphic space_encodings_not_graphic) auto
  from s obtain d q where "rev s = d # q" by (cases "rev s") auto
  moreover from this s have "graphic d" by (metis list.set_intros(1) set_rev)
  ultimately have "trim_left (map rev space_encodings) (rev s) = rev s"
    by (intro trim_left_graphic space_encodings_not_graphic)
  with l show "TrimSpace s = s" by (simp add: TrimSpace_def)
qed

lemma digit_graphic: "digit_val c < 36 \<Longrightarrow> graphic c"
  by (auto simp: digit_val_def graphic_def Let_def split: if_splits)

lemma FormatUint_graphic: "\<forall>c\<in>set (FormatUint n). graphic c"
  using FormatUint_digits[of n] by (fastforce simp: list_all_iff intro: digit_graphic)

lemma FormatInt_graphic: "FormatInt n \<noteq> []" "\<forall>c\<in>set (FormatInt n). graphic c"
  using FormatUint_graphic by (auto simp: FormatInt_def graphic_def)

lemma ParseInt_FormatInt:
  assumes "- (2 ^ 63) \<le> n" "n < 2 ^ 63"
  shows "ParseInt (FormatInt n) 10 64 = Some n"
proof (cases "n < 0")
  case True
  then have "nat (- n) \<le> 2 ^ 63" using assms(1) by simp
  then have "ParseUint (FormatUint (nat (- n))) 10 64 = Some (nat (- n))"
    by (intro ParseUint_FormatUint) (simp add: order_le_less_trans)
  with True \<open>nat (- n) \<le> 2 ^ 63\<close> show ?thesis by (simp add: ParseInt_def FormatInt_def Let_def)
next
  case False
  then have "nat n < 2 ^ 63" using assms(2) by simp
  with False show ?thesis by (simp add: FormatInt_def ParseInt_FormatUint)
qed

lemma hex_char_val [simp]: "n < 16 \<Longrightarrow> digit_val (hex_char n) = n"
proof -
  assume "n < 16"
  then consider "n < 10" | "n = 10" | "n = 11" | "n = 12" | "n = 13" | "n = 14" | "n = 15" by linarith
  then show ?thesis by cases (simp add: hex_char_def, simp_all add: hex_char_def digit_val_def)
qed

lemma length_hex_digits [simp]: "length (hex_digits k n) = k"
  by (induction k arbitrary: n) simp_all

lemma hex_digits_valid: "list_all (\<lambda>c. digit_val c < 16) (hex_digits k n)"
  by (induction k arbitrary: n) simp_all

lemma hex_digits_value: "foldl (\<lambda>n c. n * 16 + digit_val c) 0 (hex_digits k n) = n mod 16 ^ k"
proof (induction k arbitrary: n)
  case (Suc k)
  have "n mod 16 ^ Suc k = 16 * (n div 16 mod 16 ^ k) + n mod 16"
    by (simp add: mod_mult2_eq)
  with Suc show ?case by simp
qed simp

lemma ParseUint_hex:
  assumes "0 < k" "n < 16 ^ k" "n < 2 ^ bits"
  shows "ParseUint (hex_digits k n) 16 bits = Some n"
proof -
  have "hex_digits k n \<noteq> []" using assms(1) by (metis length_hex_digits list.size(3) less_irrefl)
  then show ?thesis using assms by (simp add: ParseUint_def hex_digits_valid hex_digits_value Let_def)
qed

lemma hex_graphic: "\<forall>c\<in>set (hex_digits k n). graphic c"
  using hex_digits_valid[of k n] by (fastforce simp: list_all_iff intro: digit_graphic)

lemma decode_int_FormatInt:
  "- (2 ^ 63) \<le> n \<Longrightarrow> n < 2 ^ 63 \<Longrightarrow> decode_int (FormatInt n) t =
     Inr \<lparr>v_Type = t, v_Bits = (if t = TypeI32 then ucast (word_of_int n :: u32) else word_of_int n)\<rparr>"
  by (simp add: decode_int_def ParseInt_FormatInt)

lemma decode_int_FormatUint:
  assumes "n < 2 ^ 64"
  shows "decode_int (FormatUint n) t =
    Inr \<lparr>v_Type = t, v_Bits = (if t = TypeI32 then ucast (word_of_nat n :: u32) else word_of_nat n)\<rparr>"
proof (cases "n < 2 ^ 63")
  case True
  then show ?thesis by (simp add: decode_int_def ParseInt_FormatUint)
next
  case False
  obtain c s where cs: "FormatUint n = c # s" by (cases "FormatUint n") auto
  have "c \<noteq> CHR ''-''" "c \<noteq> CHR ''+''" using FormatUint_head_digit[OF cs] digit_val_sign by auto
  moreover have p: "ParseUint (c # s) 10 64 = Some n" using ParseUint_FormatUint[OF assms] cs by simp
  ultimately have "ParseInt (FormatUint n) 10 64 = None" using False unfolding cs by (simp add: ParseInt_def Let_def)
  then show ?thesis using p cs by (simp add: decode_int_def)
qed

text \<open>Float operations for concrete runs that read no decimal but zero.\<close>

definition zero_floats :: float_ops where
  "zero_floats = \<lparr>ParseFloat = (\<lambda>s. if s = ''0'' then Some 0 else None), narrow32 = (\<lambda>f. ucast f)\<rparr>"

section \<open>Properties\<close>

text \<open>C17: an integer survives the recording whichever way it was spelled: a 64-bit value is
  recovered from its signed and from its unsigned decimal, and so is a 32-bit value, whether the
  producer tagged the record \<open>Int\<close> or \<open>Raw\<close>.\<close>
theorem decode_integers_exact:
  assumes "kind = ''Int'' \<or> kind = ''Raw''"
  shows "decode fo \<lparr>rv_Kind = kind, rv_Text = FormatInt (sint (w :: u64))\<rparr> TypeI64 = Inr (FromWazero TypeI64 w) \<and>
    decode fo \<lparr>rv_Kind = kind, rv_Text = FormatUint (unat w)\<rparr> TypeI64 = Inr (FromWazero TypeI64 w) \<and>
    decode fo \<lparr>rv_Kind = kind, rv_Text = FormatInt (sint (x :: u32))\<rparr> TypeI32 = Inr (FromWazero TypeI32 (ucast x)) \<and>
    decode fo \<lparr>rv_Kind = kind, rv_Text = FormatUint (unat x)\<rparr> TypeI32 = Inr (FromWazero TypeI32 (ucast x))"
proof -
  have trim: "TrimSpace (FormatInt n) = FormatInt n" "TrimSpace (FormatUint m) = FormatUint m" for n m
    by (simp_all add: TrimSpace_graphic FormatInt_graphic FormatUint_graphic)
  have b: "- (2 ^ 63) \<le> sint w" "sint w < 2 ^ 63" "- (2 ^ 63) \<le> sint x" "sint x < 2 ^ 63"
    using sint_greater_eq[of w] sint_less[of w] sint_greater_eq[of x] sint_less[of x] by auto
  have "unat x < 2 ^ 32" using unsigned_less[of x] by simp
  then have u: "unat w < 2 ^ 64" "unat x < 2 ^ 64" using unat_less64 by simp_all
  show ?thesis
    using assms b u by (auto simp: decode_def trim decode_int_FormatInt decode_int_FormatUint FromWazero_def)
qed

theorem decode_integers_exact_witness:
  "decode zero_floats \<lparr>rv_Kind = ''Raw'', rv_Text = FormatUint (unat (2 ^ 63 :: u64))\<rparr> TypeI64 =
     Inr (FromWazero TypeI64 (2 ^ 63))"
  using decode_integers_exact[of "''Raw''" zero_floats "2 ^ 63" 0] by blast

text \<open>C18: a float recorded as a width-tagged bit pattern is recovered bit for bit, NaN payloads
  and the sign of zero included, without any decimal conversion; a pattern of the other width is
  refused.\<close>
theorem decode_float_bits_exact:
  "decode fo \<lparr>rv_Kind = ''Float'', rv_Text = ''f64:0x'' @ hex_digits 16 (unat (w :: u64))\<rparr> TypeF64 =
     Inr (FromWazero TypeF64 w) \<and>
   decode fo \<lparr>rv_Kind = ''Float'', rv_Text = ''f32:0x'' @ hex_digits 8 (unat (x :: u32))\<rparr> TypeF32 =
     Inr (FromWazero TypeF32 (ucast x)) \<and>
   decode fo \<lparr>rv_Kind = ''Float'', rv_Text = ''f64:0x'' @ hex_digits 16 (unat w)\<rparr> TypeF32 = Inl WidthMismatch \<and>
   decode fo \<lparr>rv_Kind = ''Float'', rv_Text = ''f32:0x'' @ hex_digits 8 (unat x)\<rparr> TypeF64 = Inl WidthMismatch"
proof -
  have g: "\<forall>c\<in>set (''f64:0x'' @ hex_digits k n). graphic c" "\<forall>c\<in>set (''f32:0x'' @ hex_digits k n). graphic c" for k n
    using hex_graphic by (auto simp: graphic_def)
  have t: "TrimSpace (''f64:0x'' @ hex_digits k n) = ''f64:0x'' @ hex_digits k n"
    "TrimSpace (''f32:0x'' @ hex_digits k n) = ''f32:0x'' @ hex_digits k n" for k n
    using TrimSpace_graphic[OF _ g(1)] TrimSpace_graphic[OF _ g(2)] by simp_all
  have "unat x < 2 ^ 32" using unsigned_less[of x] by simp
  then have "ParseUint (hex_digits 8 (unat x)) 16 64 = Some (unat x)" by (intro ParseUint_hex) simp_all
  moreover have "ParseUint (hex_digits 16 (unat w)) 16 64 = Some (unat w)"
    using unat_less64[of w] by (intro ParseUint_hex) simp_all
  ultimately show ?thesis
    by (simp add: decode_def t[simplified] parseFloatBits_def HasPrefix_def FromWazero_def Let_def)
qed



end
