(* ===== verification/JsonDoc.thy ===== *)
theory JsonDoc
  imports GoText
begin

text \<open>
  JSON documents as Go's \<open>encoding/json\<close> stores them into structs. A document is its syntax
  tree, so the text of a number literal is kept; turning text into a tree is the argument
  \<open>js\<close> of the definitions that decode a nested document. Decoders follow
  \<open>json.Unmarshal\<close>: keys match field names up to case, unknown keys are skipped, \<open>null\<close>
  leaves a value untouched (and clears a pointer or a slice), and a mismatched type fails the
  whole document.
\<close>

section \<open>Definitions\<close>

datatype json =
    JNull | JBool bool | JNum string | JStr string | JArr "json list" | JObj "(string \<times> json) list"

datatype json_error = JsonSyntax | JsonType

type_synonym 'a json_dec = "json \<Rightarrow> 'a \<Rightarrow> json_error + 'a"

text \<open>Key folding: ASCII letters, plus the two other characters whose simple case folding is an
  ASCII letter (U+017F and U+212A).\<close>

fun fold_key :: "string \<Rightarrow> string" where
  "fold_key [] = []"
| "fold_key (c # s) =
     (if of_char c = (0xc5 :: nat) \<and> take 1 s = [char_of (0xbf :: nat)] then CHR ''S'' # fold_key (drop 1 s)
      else if of_char c = (0xe2 :: nat) \<and> take 2 s = [char_of (0x84 :: nat), char_of (0xaa :: nat)]
        then CHR ''K'' # fold_key (drop 2 s)
      else if 97 \<le> (of_char c :: nat) \<and> (of_char c :: nat) \<le> 122
        then char_of (of_char c - 32 :: nat) # fold_key s
      else c # fold_key s)"

definition dec_string :: "string json_dec" where
  "dec_string j s = (case j of JStr t \<Rightarrow> Inr t | JNull \<Rightarrow> Inr s | _ \<Rightarrow> Inl JsonType)"

definition dec_bool :: "bool json_dec" where
  "dec_bool j b = (case j of JBool c \<Rightarrow> Inr c | JNull \<Rightarrow> Inr b | _ \<Rightarrow> Inl JsonType)"

definition dec_int :: "int json_dec" where
  "dec_int j n = (case j of
     JNum l \<Rightarrow> (case ParseInt l 10 64 of Some m \<Rightarrow> Inr m | None \<Rightarrow> Inl JsonType)
   | JNull \<Rightarrow> Inr n | _ \<Rightarrow> Inl JsonType)"

definition dec_uint32 :: "u32 json_dec" where
  "dec_uint32 j n = (case j of
     JNum l \<Rightarrow> (case ParseUint l 10 32 of Some m \<Rightarrow> Inr (word_of_nat m) | None \<Rightarrow> Inl JsonType)
   | JNull \<Rightarrow> Inr n | _ \<Rightarrow> Inl JsonType)"

text \<open>A \<open>json.RawMessage\<close> keeps any document; \<open>None\<close> is the empty message of an absent key.\<close>

definition dec_raw :: "json option json_dec" where
  "dec_raw j r = Inr (Some j)"

definition dec_ptr :: "'a json_dec \<Rightarrow> 'a \<Rightarrow> 'a option json_dec" where
  "dec_ptr d zero j p = (case j of
     JNull \<Rightarrow> Inr None
   | _ \<Rightarrow> bind_res (d j (case p of Some x \<Rightarrow> x | None \<Rightarrow> zero)) (\<lambda>x. Inr (Some x)))"

definition dec_rawptr :: "json option json_dec" where
  "dec_rawptr j p = (case j of JNull \<Rightarrow> Inr None | _ \<Rightarrow> Inr (Some j))"

definition dec_list :: "'a json_dec \<Rightarrow> 'a \<Rightarrow> 'a list json_dec" where
  "dec_list d zero j xs = (case j of
     JNull \<Rightarrow> Inr []
   | JArr js \<Rightarrow> map_res (\<lambda>j. d j zero) js
   | _ \<Rightarrow> Inl JsonType)"

definition dec_rawlist :: "json list json_dec" where
  "dec_rawlist j xs = (case j of JNull \<Rightarrow> Inr [] | JArr js \<Rightarrow> Inr js | _ \<Rightarrow> Inl JsonType)"

definition fld :: "'a json_dec \<Rightarrow> ('s \<Rightarrow> 'a) \<Rightarrow> (('a \<Rightarrow> 'a) \<Rightarrow> 's \<Rightarrow> 's) \<Rightarrow> 's json_dec" where
  "fld d get upd j s = bind_res (d j (get s)) (\<lambda>x. Inr (upd (\<lambda>_. x) s))"

definition dec_field :: "(string \<times> 's json_dec) list \<Rightarrow> 's \<Rightarrow> string \<times> json \<Rightarrow> json_error + 's" where
  "dec_field fields s kv = (case kv of (k, v) \<Rightarrow>
     (case find (\<lambda>f. fold_key (fst f) = fold_key k) fields of
        None \<Rightarrow> Inr s
      | Some (_, d) \<Rightarrow> d v s))"

definition dec_struct :: "(string \<times> 's json_dec) list \<Rightarrow> 's json_dec" where
  "dec_struct fields j s = (case j of
     JNull \<Rightarrow> Inr s
   | JObj kvs \<Rightarrow> run_steps (dec_field fields) s kvs
   | _ \<Rightarrow> Inl JsonType)"

text \<open>\<open>json.Unmarshal\<close> of a text and of a raw message.\<close>

definition unmarshal_text :: "(string \<Rightarrow> json option) \<Rightarrow> 'a json_dec \<Rightarrow> string \<Rightarrow> 'a \<Rightarrow> json_error + 'a" where
  "unmarshal_text js d t zero = (case js t of None \<Rightarrow> Inl JsonSyntax | Some j \<Rightarrow> d j zero)"

definition unmarshal_raw :: "'a json_dec \<Rightarrow> json option \<Rightarrow> 'a \<Rightarrow> json_error + 'a" where
  "unmarshal_raw d r zero = (case r of None \<Rightarrow> Inl JsonSyntax | Some j \<Rightarrow> d j zero)"

end
