(* ===== verification/HostStates.thy ===== *)
theory HostStates
  imports BoundaryValues JsonDoc "HOL-Library.List_Lexorder" "HOL-Library.Char_ord"
begin

text \<open>
  Host-supplied state of a recording (\<open>internal/boundarylog/hoststate.go\<close>): imported memories
  and globals before the first call, host writes anchored to crossings, the sidecar
  \<open>boundary_state.json\<close>, the in-stream records that carry the same state, and the
  comparison of the two carriers. A slice is a list: the code normalises away the difference
  between an absent and an empty one before it compares.
\<close>

section \<open>Definitions\<close>

record MemoryRegion =
  mr_Offset :: u32
  mr_BytesB64 :: string

record ImportedMemory =
  im_Module :: string
  im_Name :: string
  im_MinPages :: u32
  im_MaxPages :: "u32 option"
  im_Data :: "MemoryRegion list"

record ImportedGlobal =
  ig_Module :: string
  ig_Name :: string
  ig_Type :: string
  ig_Mutable :: bool
  ig_Value :: string

record InitialState =
  is_Memories :: "ImportedMemory list"
  is_Globals :: "ImportedGlobal list"
  is_Tables :: "json list"

record MemoryWrite =
  mw_Module :: string
  mw_Name :: string
  mw_Offset :: u32
  mw_BytesB64 :: string

record GlobalSet =
  gs_Module :: string
  gs_Name :: string
  gs_Type :: string
  gs_Value :: string

record HostMutation =
  hm_AfterCrossing :: int
  hm_MemoryWrites :: "MemoryWrite list"
  hm_GlobalSets :: "GlobalSet list"

record HostState =
  hs_Version :: int
  hs_Initial :: InitialState
  hs_Mutations :: "HostMutation list"
  hs_initialSeen :: bool

record hostStateMarker =
  hsm_BoundaryID :: string
  hsm_Version :: int
  hsm_Record :: string
  hsm_Initial :: "InitialState option"
  hsm_Mutation :: "HostMutation option"

record eventRecord =
  er_Kind :: int
  er_Metadata :: string
  er_Content :: string

datatype host_error =
    BadBase64 | BadVersion int | HasTables | MemoryNoName | MaxBelowMin | GlobalNoName
  | BadGlobal value_error | NegativeCrossing | GlobalNotMutable
  | MarkerVersion int | MarkerNoInitial | MarkerNoMutation | MarkerUnknownKind string
  | SidecarSyntax json_error | CarriersDisagree

definition hostStateVersion :: int where "hostStateVersion = 1"
definition hostStateBoundary :: string where "hostStateBoundary = ''wasm-host-state''"
definition eventKindTraceLogEvent :: int where "eventKindTraceLogEvent = 12"

definition InitialState0 :: InitialState where
  "InitialState0 = \<lparr>is_Memories = [], is_Globals = [], is_Tables = []\<rparr>"

definition HostMutation0 :: HostMutation where
  "HostMutation0 = \<lparr>hm_AfterCrossing = 0, hm_MemoryWrites = [], hm_GlobalSets = []\<rparr>"

definition HostState0 :: HostState where
  "HostState0 = \<lparr>hs_Version = 0, hs_Initial = InitialState0, hs_Mutations = [], hs_initialSeen = False\<rparr>"

subsection \<open>Struct decoding\<close>

definition dec_MemoryRegion :: "MemoryRegion json_dec" where
  "dec_MemoryRegion = dec_struct
     [(''offset'', fld dec_uint32 mr_Offset mr_Offset_update),
      (''bytesB64'', fld dec_string mr_BytesB64 mr_BytesB64_update)]"

definition dec_ImportedMemory :: "ImportedMemory json_dec" where
  "dec_ImportedMemory = dec_struct
     [(''module'', fld dec_string im_Module im_Module_update),
      (''name'', fld dec_string im_Name im_Name_update),
      (''minPages'', fld dec_uint32 im_MinPages im_MinPages_update),
      (''maxPages'', fld (dec_ptr dec_uint32 0) im_MaxPages im_MaxPages_update),
      (''data'', fld (dec_list dec_MemoryRegion \<lparr>mr_Offset = 0, mr_BytesB64 = []\<rparr>) im_Data im_Data_update)]"

definition dec_ImportedGlobal :: "ImportedGlobal json_dec" where
  "dec_ImportedGlobal = dec_struct
     [(''module'', fld dec_string ig_Module ig_Module_update),
      (''name'', fld dec_string ig_Name ig_Name_update),
      (''type'', fld dec_string ig_Type ig_Type_update),
      (''mutable'', fld dec_bool ig_Mutable ig_Mutable_update),
      (''value'', fld dec_string ig_Value ig_Value_update)]"

definition dec_InitialState :: "InitialState json_dec" where
  "dec_InitialState = dec_struct
     [(''memories'', fld (dec_list dec_ImportedMemory
         \<lparr>im_Module = [], im_Name = [], im_MinPages = 0, im_MaxPages = None, im_Data = []\<rparr>)
         is_Memories is_Memories_update),
      (''globals'', fld (dec_list dec_ImportedGlobal
         \<lparr>ig_Module = [], ig_Name = [], ig_Type = [], ig_Mutable = False, ig_Value = []\<rparr>)
         is_Globals is_Globals_update),
      (''tables'', fld dec_rawlist is_Tables is_Tables_update)]"

definition dec_MemoryWrite :: "MemoryWrite json_dec" where
  "dec_MemoryWrite = dec_struct
     [(''module'', fld dec_string mw_Module mw_Module_update),
      (''name'', fld dec_string mw_Name mw_Name_update),
      (''offset'', fld dec_uint32 mw_Offset mw_Offset_update),
      (''bytesB64'', fld dec_string mw_BytesB64 mw_BytesB64_update)]"

definition dec_GlobalSet :: "GlobalSet json_dec" where
  "dec_GlobalSet = dec_struct
     [(''module'', fld dec_string gs_Module gs_Module_update),
      (''name'', fld dec_string gs_Name gs_Name_update),
      (''type'', fld dec_string gs_Type gs_Type_update),
      (''value'', fld dec_string gs_Value gs_Value_update)]"

definition dec_HostMutation :: "HostMutation json_dec" where
  "dec_HostMutation = dec_struct
     [(''afterCrossing'', fld dec_int hm_AfterCrossing hm_AfterCrossing_update),
      (''memoryWrites'', fld (dec_list dec_MemoryWrite
         \<lparr>mw_Module = [], mw_Name = [], mw_Offset = 0, mw_BytesB64 = []\<rparr>)
         hm_MemoryWrites hm_MemoryWrites_update),
      (''globalSets'', fld (dec_list dec_GlobalSet
         \<lparr>gs_Module = [], gs_Name = [], gs_Type = [], gs_Value = []\<rparr>)
         hm_GlobalSets hm_GlobalSets_update)]"

definition dec_HostState :: "HostState json_dec" where
  "dec_HostState = dec_struct
     [(''version'', fld dec_int hs_Version hs_Version_update),
      (''initial'', fld dec_InitialState hs_Initial hs_Initial_update),
      (''mutations'', fld (dec_list dec_HostMutation HostMutation0) hs_Mutations hs_Mutations_update)]"

definition dec_hostStateMarker :: "hostStateMarker json_dec" where
  "dec_hostStateMarker = dec_struct
     [(''boundary_id'', fld dec_string hsm_BoundaryID hsm_BoundaryID_update),
      (''version'', fld dec_int hsm_Version hsm_Version_update),
      (''record'', fld dec_string hsm_Record hsm_Record_update),
      (''initial'', fld (dec_ptr dec_InitialState InitialState0) hsm_Initial hsm_Initial_update),
      (''mutation'', fld (dec_ptr dec_HostMutation HostMutation0) hsm_Mutation hsm_Mutation_update)]"

definition dec_eventRecord :: "eventRecord json_dec" where
  "dec_eventRecord = dec_struct
     [(''kind'', fld dec_int er_Kind er_Kind_update),
      (''metadata'', fld dec_string er_Metadata er_Metadata_update),
      (''content'', fld dec_string er_Content er_Content_update)]"

subsection \<open>Base64 (\<open>encoding/base64\<close>, standard alphabet, padded)\<close>

definition b64_val :: "char \<Rightarrow> nat option" where
  "b64_val c = (let n = of_char c :: nat in
     if 65 \<le> n \<and> n \<le> 90 then Some (n - 65)
     else if 97 \<le> n \<and> n \<le> 122 then Some (n - 71)
     else if 48 \<le> n \<and> n \<le> 57 then Some (n + 4)
     else if n = 43 then Some 62
     else if n = 47 then Some 63
     else None)"

definition b64_bytes :: "nat list \<Rightarrow> byte list" where
  "b64_bytes ds = (let v = foldl (\<lambda>v d. v * 64 + d) 0 (ds @ replicate (4 - length ds) 0) in
     take (length ds - 1)
       [word_of_nat (v div 65536), word_of_nat (v div 256), word_of_nat v])"

fun b64_quanta :: "string \<Rightarrow> byte list option" where
  "b64_quanta [] = Some []"
| "b64_quanta (a # b # c # d # s) =
     (if c = CHR ''='' then
        if d = CHR ''='' \<and> s = [] then
          (case (b64_val a, b64_val b) of
             (Some x, Some y) \<Rightarrow> Some (b64_bytes [x, y]) | _ \<Rightarrow> None)
        else None
      else if d = CHR ''='' then
        if s = [] then
          (case (b64_val a, b64_val b, b64_val c) of
             (Some x, Some y, Some z) \<Rightarrow> Some (b64_bytes [x, y, z]) | _ \<Rightarrow> None)
        else None
      else
        (case (b64_val a, b64_val b, b64_val c, b64_val d) of
           (Some x, Some y, Some z, Some w) \<Rightarrow>
             map_option (\<lambda>r. b64_bytes [x, y, z, w] @ r) (b64_quanta s)
         | _ \<Rightarrow> None))"
| "b64_quanta _ = None"

definition DecodeString :: "string \<Rightarrow> byte list option" where
  "DecodeString s = b64_quanta (filter (\<lambda>c. c \<noteq> CHR 0x0A \<and> c \<noteq> CHR 0x0D) s)"

definition region_decode :: "MemoryRegion \<Rightarrow> host_error + byte list" where
  "region_decode m = (case DecodeString (mr_BytesB64 m) of None \<Rightarrow> Inl BadBase64 | Some b \<Rightarrow> Inr b)"

definition MemoryWrite_decode :: "MemoryWrite \<Rightarrow> host_error + byte list" where
  "MemoryWrite_decode w = (case DecodeString (mw_BytesB64 w) of None \<Rightarrow> Inl BadBase64 | Some b \<Rightarrow> Inr b)"

subsection \<open>Globals\<close>

definition decode_global_text :: "float_ops \<Rightarrow> string \<Rightarrow> string \<Rightarrow> host_error + ScalarType \<times> BValue" where
  "decode_global_text fo ty txt = (case ParseScalarType ty of
     Inl e \<Rightarrow> Inl (BadGlobal e)
   | Inr t \<Rightarrow>
       let kind = (if t = TypeF32 \<or> t = TypeF64 then ''Float'' else ''Int'') in
       (case decode fo \<lparr>rv_Kind = kind, rv_Text = txt\<rparr> t of
          Inl e \<Rightarrow> Inl (BadGlobal e)
        | Inr v \<Rightarrow> Inr (t, v)))"

definition ImportedGlobal_decode :: "float_ops \<Rightarrow> ImportedGlobal \<Rightarrow> host_error + ScalarType \<times> BValue" where
  "ImportedGlobal_decode fo g = decode_global_text fo (ig_Type g) (ig_Value g)"

definition GlobalSet_decode :: "float_ops \<Rightarrow> GlobalSet \<Rightarrow> host_error + BValue" where
  "GlobalSet_decode fo s = bind_res (decode_global_text fo (gs_Type s) (gs_Value s)) (\<lambda>(t, v). Inr v)"

definition globalIsMutable :: "HostState \<Rightarrow> string \<Rightarrow> string \<Rightarrow> bool" where
  "globalIsMutable h modname name =
     (case find (\<lambda>g. ig_Module g = modname \<and> ig_Name g = name) (is_Globals (hs_Initial h)) of
        Some g \<Rightarrow> ig_Mutable g
      | None \<Rightarrow> False)"

definition MutationsFor :: "HostState option \<Rightarrow> int \<Rightarrow> HostMutation list" where
  "MutationsFor h seq = (case h of None \<Rightarrow> []
     | Some h \<Rightarrow> filter (\<lambda>m. hm_AfterCrossing m = seq) (hs_Mutations h))"

subsection \<open>Validation\<close>

definition check_memory :: "ImportedMemory \<Rightarrow> host_error + unit" where
  "check_memory m =
     bind_res (guard_res (im_Name m \<noteq> []) MemoryNoName) (\<lambda>_.
     bind_res (guard_res (case im_MaxPages m of None \<Rightarrow> True | Some mx \<Rightarrow> \<not> mx < im_MinPages m) MaxBelowMin) (\<lambda>_.
     bind_res (map_res region_decode (im_Data m)) (\<lambda>_. Inr ())))"

definition check_global :: "float_ops \<Rightarrow> ImportedGlobal \<Rightarrow> host_error + unit" where
  "check_global fo g =
     bind_res (guard_res (ig_Name g \<noteq> []) GlobalNoName) (\<lambda>_.
     bind_res (ImportedGlobal_decode fo g) (\<lambda>_. Inr ()))"

definition check_mutation :: "float_ops \<Rightarrow> HostState \<Rightarrow> HostMutation \<Rightarrow> host_error + unit" where
  "check_mutation fo h mu =
     bind_res (guard_res (hm_AfterCrossing mu \<ge> 0) NegativeCrossing) (\<lambda>_.
     bind_res (map_res MemoryWrite_decode (hm_MemoryWrites mu)) (\<lambda>_.
     bind_res (map_res (\<lambda>s. bind_res (GlobalSet_decode fo s) (\<lambda>_.
        guard_res (globalIsMutable h (gs_Module s) (gs_Name s)) GlobalNotMutable)) (hm_GlobalSets mu)) (\<lambda>_.
     Inr ())))"

definition validate :: "float_ops \<Rightarrow> HostState \<Rightarrow> host_error + unit" where
  "validate fo h =
     bind_res (guard_res (hs_Version h = hostStateVersion) (BadVersion (hs_Version h))) (\<lambda>_.
     bind_res (guard_res (is_Tables (hs_Initial h) = []) HasTables) (\<lambda>_.
     bind_res (map_res check_memory (is_Memories (hs_Initial h))) (\<lambda>_.
     bind_res (map_res (check_global fo) (is_Globals (hs_Initial h))) (\<lambda>_.
     bind_res (map_res (check_mutation fo h) (hs_Mutations h)) (\<lambda>_.
     Inr ())))))"

text \<open>The sidecar: the bytes of the file, if it exists.\<close>

definition loadHostState :: "float_ops \<Rightarrow> (string \<Rightarrow> json option) \<Rightarrow> string option \<Rightarrow> host_error + HostState option" where
  "loadHostState fo js file = (case file of
     None \<Rightarrow> Inr None
   | Some contents \<Rightarrow>
       (case unmarshal_text js dec_HostState contents HostState0 of
          Inl e \<Rightarrow> Inl (SidecarSyntax e)
        | Inr h \<Rightarrow> bind_res (validate fo h) (\<lambda>_. Inr (Some h))))"

subsection \<open>The in-stream channel\<close>

definition hostStateMarker0 :: hostStateMarker where
  "hostStateMarker0 = \<lparr>hsm_BoundaryID = [], hsm_Version = 0, hsm_Record = [],
     hsm_Initial = None, hsm_Mutation = None\<rparr>"

definition eventRecord0 :: eventRecord where
  "eventRecord0 = \<lparr>er_Kind = 0, er_Metadata = [], er_Content = []\<rparr>"

definition parseHostStateMarker :: "(string \<Rightarrow> json option) \<Rightarrow> json \<Rightarrow> host_error + hostStateMarker option" where
  "parseHostStateMarker js raw = (case dec_eventRecord raw eventRecord0 of
     Inl _ \<Rightarrow> Inr None
   | Inr ev \<Rightarrow>
       if er_Kind ev \<noteq> eventKindTraceLogEvent then Inr None
       else if \<not> Contains (er_Metadata ev) hostStateBoundary then Inr None
       else (case unmarshal_text js dec_hostStateMarker (er_Metadata ev) hostStateMarker0 of
         Inl _ \<Rightarrow> Inr None
       | Inr m \<Rightarrow>
           if hsm_BoundaryID m \<noteq> hostStateBoundary then Inr None
           else if hsm_Version m \<noteq> hostStateVersion then Inl (MarkerVersion (hsm_Version m))
           else if hsm_Record m = ''initial'' then
             if hsm_Initial m = None then Inl MarkerNoInitial else Inr (Some m)
           else if hsm_Record m = ''mutation'' then
             if hsm_Mutation m = None then Inl MarkerNoMutation else Inr (Some m)
           else Inl (MarkerUnknownKind (hsm_Record m))))"

definition foldHostStateMarker ::
  "float_ops \<Rightarrow> HostState option \<Rightarrow> hostStateMarker \<Rightarrow> host_error + HostState option" where
  "foldHostStateMarker fo state m =
     (let st = (case state of Some s \<Rightarrow> s | None \<Rightarrow> HostState0\<lparr>hs_Version := hostStateVersion\<rparr>) in
      if hsm_Record m = ''initial'' \<and> hs_initialSeen st then Inr (Some st)
      else
        let st' = (if hsm_Record m = ''initial''
                   then st\<lparr>hs_initialSeen := True, hs_Initial := the (hsm_Initial m)\<rparr>
                   else if hsm_Record m = ''mutation''
                   then st\<lparr>hs_Mutations := hs_Mutations st @ [the (hsm_Mutation m)]\<rparr>
                   else st)
        in bind_res (validate fo st') (\<lambda>_. Inr (Some st')))"

text \<open>The comparison is of the marshalled documents: every field but \<open>initialSeen\<close>.\<close>

definition reconcileHostState :: "HostState option \<Rightarrow> HostState option \<Rightarrow> host_error + HostState option" where
  "reconcileHostState sidecar streamed = (case (sidecar, streamed) of
     (_, None) \<Rightarrow> Inr sidecar
   | (None, Some _) \<Rightarrow> Inr streamed
   | (Some a, Some b) \<Rightarrow>
       if a\<lparr>hs_initialSeen := False\<rparr> = b\<lparr>hs_initialSeen := False\<rparr> then Inr sidecar
       else Inl CarriersDisagree)"

section \<open>Lemmas\<close>

lemma check_mutation_cong: "hs_Initial h = hs_Initial h' \<Longrightarrow> check_mutation fo h = check_mutation fo h'"
  by (simp add: fun_eq_iff check_mutation_def globalIsMutable_def)

lemma validate_Inr_iff: "validate fo h = Inr () \<longleftrightarrow>
  hs_Version h = hostStateVersion \<and> is_Tables (hs_Initial h) = [] \<and>
  (\<forall>m\<in>set (is_Memories (hs_Initial h)). check_memory m = Inr ()) \<and>
  (\<forall>g\<in>set (is_Globals (hs_Initial h)). check_global fo g = Inr ()) \<and>
  (\<forall>mu\<in>set (hs_Mutations h). check_mutation fo h mu = Inr ())"
  by (auto simp: validate_def bind_res_eq_Inr map_res_unit)

lemma validate_seen [simp]: "validate fo (h\<lparr>hs_initialSeen := b\<rparr>) = validate fo h"
  by (simp add: validate_def check_mutation_cong[of "h\<lparr>hs_initialSeen := b\<rparr>" h])

lemma validate_fewer_mutations:
  "validate fo h = Inr () \<Longrightarrow> set ms \<subseteq> set (hs_Mutations h) \<Longrightarrow>
   validate fo (h\<lparr>hs_Mutations := ms\<rparr>) = Inr ()"
  using check_mutation_cong[of "h\<lparr>hs_Mutations := ms\<rparr>" h fo] by (auto simp: validate_Inr_iff)

definition valid_state :: "float_ops \<Rightarrow> HostState option \<Rightarrow> bool" where
  "valid_state fo st = (case st of None \<Rightarrow> True | Some s \<Rightarrow> validate fo s = Inr ())"

interpretation host_fold: step_invariant "foldHostStateMarker fo" "valid_state fo"
proof unfold_locales
  fix s m s'
  assume v: "valid_state fo s" and st: "foldHostStateMarker fo s m = Inr s'"
  show "valid_state fo s'"
    using v st
    by (auto simp: foldHostStateMarker_def valid_state_def Let_def bind_res_eq_Inr HostState0_def
        split: if_splits option.splits)
qed

abbreviation mutations_of :: "hostStateMarker list \<Rightarrow> HostMutation list" where
  "mutations_of ms \<equiv> map (the \<circ> hsm_Mutation) (filter (\<lambda>m. hsm_Record m = ''mutation'') ms)"

abbreviation initials_of :: "hostStateMarker list \<Rightarrow> InitialState list" where
  "initials_of ms \<equiv> map (the \<circ> hsm_Initial) (filter (\<lambda>m. hsm_Record m = ''initial'') ms)"

lemma fold_step:
  assumes "foldHostStateMarker fo s m = Inr s'"
  shows "\<exists>st'. s' = Some st' \<and>
    (let st = (case s of Some x \<Rightarrow> x | None \<Rightarrow> HostState0\<lparr>hs_Version := hostStateVersion\<rparr>) in
     hs_Mutations st' = hs_Mutations st @ mutations_of [m] \<and>
     hs_initialSeen st' = (hs_initialSeen st \<or> initials_of [m] \<noteq> []) \<and>
     hs_Initial st' = hd ((if hs_initialSeen st then [hs_Initial st] else []) @ initials_of [m] @ [hs_Initial st]))"
  using assms by (auto simp: foldHostStateMarker_def Let_def bind_res_eq_Inr split: if_splits)

lemma fold_run:
  assumes "run_steps (foldHostStateMarker fo) (Some st) ms = Inr (Some st')"
  shows "hs_Mutations st' = hs_Mutations st @ mutations_of ms \<and>
    hs_Initial st' = hd ((if hs_initialSeen st then [hs_Initial st] else []) @ initials_of ms @ [hs_Initial st])"
  using assms
proof (induction ms arbitrary: st)
  case (Cons m ms)
  then obtain s1 where s1: "foldHostStateMarker fo (Some st) m = Inr s1"
    "run_steps (foldHostStateMarker fo) s1 ms = Inr (Some st')" by (auto simp: bind_res_eq_Inr)
  obtain st1 where st1: "s1 = Some st1" "hs_Mutations st1 = hs_Mutations st @ mutations_of [m]"
    "hs_initialSeen st1 = (hs_initialSeen st \<or> initials_of [m] \<noteq> [])"
    "hs_Initial st1 = hd ((if hs_initialSeen st then [hs_Initial st] else []) @ initials_of [m] @ [hs_Initial st])"
    using fold_step[OF s1(1)] by auto
  then show ?case using Cons.IH[of st1] s1(2) by (auto split: if_splits)
qed simp

definition initial_marker :: "InitialState \<Rightarrow> hostStateMarker" where
  "initial_marker i = \<lparr>hsm_BoundaryID = hostStateBoundary, hsm_Version = hostStateVersion,
     hsm_Record = ''initial'', hsm_Initial = Some i, hsm_Mutation = None\<rparr>"

definition mutation_marker :: "HostMutation \<Rightarrow> hostStateMarker" where
  "mutation_marker mu = \<lparr>hsm_BoundaryID = hostStateBoundary, hsm_Version = hostStateVersion,
     hsm_Record = ''mutation'', hsm_Initial = None, hsm_Mutation = Some mu\<rparr>"

lemma fold_mutation_markers:
  assumes "validate fo h = Inr ()" "hs_Mutations h = done @ todo" "hs_initialSeen h"
  shows "run_steps (foldHostStateMarker fo) (Some (h\<lparr>hs_Mutations := done\<rparr>)) (map mutation_marker todo) =
    Inr (Some h)"
  using assms(2)
proof (induction todo arbitrary: "done")
  case (Cons mu todo)
  have "validate fo (h\<lparr>hs_Mutations := done @ [mu]\<rparr>) = Inr ()"
    using assms(1) Cons.prems by (intro validate_fewer_mutations) auto
  then have "foldHostStateMarker fo (Some (h\<lparr>hs_Mutations := done\<rparr>)) (mutation_marker mu) =
      Inr (Some (h\<lparr>hs_Mutations := done @ [mu]\<rparr>))"
    by (simp add: foldHostStateMarker_def mutation_marker_def)
  with Cons show ?case by simp
qed simp

section \<open>Properties\<close>

text \<open>C11: accumulating the in-stream host-state records keeps the state valid after every record,
  keeps every mutation in arrival order, and keeps the first initial-state record when a stream
  carries several.\<close>
theorem host_records_accumulate:
  assumes "run_steps (foldHostStateMarker fo) None ms = Inr (Some st)"
  shows "validate fo st = Inr () \<and>
    hs_Mutations st = map (the \<circ> hsm_Mutation) (filter (\<lambda>m. hsm_Record m = ''mutation'') ms) \<and>
    hs_Initial st = hd (map (the \<circ> hsm_Initial) (filter (\<lambda>m. hsm_Record m = ''initial'') ms) @ [InitialState0])"
proof -
  have "validate fo st = Inr ()"
    using host_fold.run_inv[OF _ assms] by (simp add: valid_state_def)
  moreover obtain m ms' where ms: "ms = m # ms'" using assms by (cases ms) auto
  then obtain s1 where s1: "foldHostStateMarker fo None m = Inr s1"
    "run_steps (foldHostStateMarker fo) s1 ms' = Inr (Some st)" using assms by (auto simp: bind_res_eq_Inr)
  ultimately show ?thesis
    using fold_step[OF s1(1)] fold_run[of fo _ ms' st] s1(2) ms
    by (auto simp: HostState0_def split: if_splits)
qed

text \<open>C16: a valid host state written both as a sidecar and record by record is accepted, and the
  sidecar is what the recording keeps.\<close>
theorem host_carriers_agree:
  assumes "validate fo h = Inr ()"
  shows "\<exists>st. run_steps (foldHostStateMarker fo) None
      (initial_marker (hs_Initial h) # map mutation_marker (hs_Mutations h)) = Inr (Some st) \<and>
    reconcileHostState (Some h) (Some st) = Inr (Some h)"
proof -
  let ?h = "h\<lparr>hs_initialSeen := True\<rparr>"
  have "validate fo (?h\<lparr>hs_Mutations := []\<rparr>) = Inr ()"
    using assms by (intro validate_fewer_mutations) auto
  moreover have "?h\<lparr>hs_Mutations := []\<rparr> = HostState0\<lparr>hs_Version := hostStateVersion,
      hs_initialSeen := True, hs_Initial := hs_Initial h\<rparr>"
    using assms by (simp add: validate_Inr_iff HostState0_def)
  ultimately have "foldHostStateMarker fo None (initial_marker (hs_Initial h)) = Inr (Some (?h\<lparr>hs_Mutations := []\<rparr>))"
    by (simp add: foldHostStateMarker_def initial_marker_def) (simp add: HostState0_def)
  moreover have "run_steps (foldHostStateMarker fo) (Some (?h\<lparr>hs_Mutations := []\<rparr>))
      (map mutation_marker (hs_Mutations h)) = Inr (Some ?h)"
    using assms by (intro fold_mutation_markers) auto
  ultimately show ?thesis
    by (intro exI[of _ ?h]) (auto simp: reconcileHostState_def)
qed

definition example_state :: HostState where
  "example_state = \<lparr>hs_Version = 1,
     hs_Initial = \<lparr>is_Memories = [\<lparr>im_Module = ''env'', im_Name = ''memory'', im_MinPages = 1, im_MaxPages = None,
         im_Data = [\<lparr>mr_Offset = 16, mr_BytesB64 = ''AQID''\<rparr>]\<rparr>],
       is_Globals = [\<lparr>ig_Module = ''env'', ig_Name = ''g'', ig_Type = ''i32'', ig_Mutable = True, ig_Value = ''7''\<rparr>],
       is_Tables = []\<rparr>,
     hs_Mutations = [\<lparr>hm_AfterCrossing = 1, hm_MemoryWrites = [\<lparr>mw_Module = ''env'', mw_Name = ''memory'',
         mw_Offset = 16, mw_BytesB64 = ''BA==''\<rparr>],
       hm_GlobalSets = [\<lparr>gs_Module = ''env'', gs_Name = ''g'', gs_Type = ''i32'', gs_Value = ''8''\<rparr>]\<rparr>],
     hs_initialSeen = False\<rparr>"

lemma example_digits: "decode fo \<lparr>rv_Kind = ''Int'', rv_Text = ''7''\<rparr> TypeI32 = Inr \<lparr>v_Type = TypeI32, v_Bits = 7\<rparr>"
  "decode fo \<lparr>rv_Kind = ''Int'', rv_Text = ''8''\<rparr> TypeI32 = Inr \<lparr>v_Type = TypeI32, v_Bits = 8\<rparr>"
  by (simp_all add: decode_def decode_int_def TrimSpace_graphic graphic_def ParseInt_def ParseUint_def digit_val_def)

lemma example_state_valid: "validate zero_floats example_state = Inr ()"
  by (simp add: validate_def example_state_def hostStateVersion_def check_memory_def check_global_def
      check_mutation_def region_decode_def MemoryWrite_decode_def DecodeString_def b64_val_def
      ImportedGlobal_decode_def GlobalSet_decode_def decode_global_text_def ParseScalarType_def
      example_digits globalIsMutable_def guard_res_def)

theorem host_carriers_agree_witness:
  "\<exists>st. run_steps (foldHostStateMarker zero_floats) None
      (initial_marker (hs_Initial example_state) # map mutation_marker (hs_Mutations example_state)) = Inr (Some st) \<and>
    reconcileHostState (Some example_state) (Some st) = Inr (Some example_state)"
  using host_carriers_agree[OF example_state_valid] .

lemma example_fold: "run_steps (foldHostStateMarker zero_floats) None [initial_marker (hs_Initial example_state)] =
  Inr (Some (example_state\<lparr>hs_Mutations := [], hs_initialSeen := True\<rparr>))"
proof -
  have "validate zero_floats (example_state\<lparr>hs_Mutations := []\<rparr>) = Inr ()"
    using example_state_valid by (rule validate_fewer_mutations) simp
  then have "validate zero_floats (example_state\<lparr>hs_Mutations := [], hs_initialSeen := True\<rparr>) = Inr ()"
    using validate_seen[of zero_floats True "example_state\<lparr>hs_Mutations := []\<rparr>"] by simp
  then show ?thesis
    by (simp add: foldHostStateMarker_def initial_marker_def HostState0_def example_state_def hostStateVersion_def)
qed

theorem host_records_accumulate_witness:
  "validate zero_floats (example_state\<lparr>hs_Mutations := [], hs_initialSeen := True\<rparr>) = Inr () \<and>
   hs_Initial (example_state\<lparr>hs_Mutations := [], hs_initialSeen := True\<rparr>) = hs_Initial example_state"
  using host_records_accumulate[OF example_fold] by (simp add: initial_marker_def)
end
