(* ===== verification/Recordings.thy ===== *)
theory Recordings
  imports HostStates
begin

text \<open>
  The vocabulary of a browser recording (\<open>internal/boundarylog/recording.go\<close>): crossings, the
  records of \<open>trace.json\<close> and how JSON is stored into them, binding names, import labels, realm
  markers, and the files of a recording other than its event stream. A directory is given by
  the contents of its files, \<open>None\<close> where a file does not exist.
\<close>

section \<open>Definitions\<close>

datatype CrossingKind = CrossingExport | CrossingImport

record Crossing =
  c_Seq :: nat
  c_Depth :: nat
  c_Kind :: CrossingKind
  c_Name :: string
  c_Index :: u32
  c_Args :: "rawValue list"
  c_Results :: "rawValue list"
  c_hasResults :: bool
  c_markerBracketed :: bool

record Recording =
  r_Program :: string
  r_Workdir :: string
  r_Recorder :: string
  r_Paths :: "string list"
  r_Crossings :: "Crossing list"
  r_HostState :: "HostState option"
  r_MarkersIdentifyImports :: bool

definition TopLevelExports :: "Recording \<Rightarrow> Crossing list" where
  "TopLevelExports r = filter (\<lambda>c. c_Kind c = CrossingExport \<and> c_Depth c = 0) (r_Crossings r)"

definition NestedExports :: "Recording \<Rightarrow> Crossing list" where
  "NestedExports r = filter (\<lambda>c. c_Kind c = CrossingExport \<and> c_Depth c > 0) (r_Crossings r)"

subsection \<open>Records of \<open>trace.json\<close>\<close>

record functionRecord =
  fr_Name :: string
  fr_PathID :: u32
  fr_Line :: int

record callRecord =
  cr_FunctionID :: u32
  cr_Args :: "json list"

record returnRecord =
  rr_ReturnValue :: "json option"

record valueRecord =
  vr_VariableID :: u32
  vr_Value :: "json option"

record traceEvent =
  te_Path :: "string option"
  te_Step :: "json option"
  te_Function :: "functionRecord option"
  te_Call :: "callRecord option"
  te_Return :: "returnRecord option"
  te_Value :: "valueRecord option"
  te_VariableName :: "string option"
  te_Event :: "json option"

record onDiskValue =
  odv_Kind :: string
  odv_I :: string
  odv_F :: string
  odv_R :: string
  odv_Text :: string
  odv_B :: "bool option"

record traceMetadata =
  tm_Program :: string
  tm_Args :: "string list"
  tm_Workdir :: string
  tm_RecorderName :: string
  tm_RecorderVersion :: string

definition traceEvent0 :: traceEvent where
  "traceEvent0 = \<lparr>te_Path = None, te_Step = None, te_Function = None, te_Call = None,
     te_Return = None, te_Value = None, te_VariableName = None, te_Event = None\<rparr>"

definition onDiskValue0 :: onDiskValue where
  "onDiskValue0 = \<lparr>odv_Kind = [], odv_I = [], odv_F = [], odv_R = [], odv_Text = [], odv_B = None\<rparr>"

definition traceMetadata0 :: traceMetadata where
  "traceMetadata0 = \<lparr>tm_Program = [], tm_Args = [], tm_Workdir = [],
     tm_RecorderName = [], tm_RecorderVersion = []\<rparr>"

definition dec_functionRecord :: "functionRecord json_dec" where
  "dec_functionRecord = dec_struct
     [(''name'', fld dec_string fr_Name fr_Name_update),
      (''path_id'', fld dec_uint32 fr_PathID fr_PathID_update),
      (''line'', fld dec_int fr_Line fr_Line_update)]"

definition dec_callRecord :: "callRecord json_dec" where
  "dec_callRecord = dec_struct
     [(''function_id'', fld dec_uint32 cr_FunctionID cr_FunctionID_update),
      (''args'', fld dec_rawlist cr_Args cr_Args_update)]"

definition dec_returnRecord :: "returnRecord json_dec" where
  "dec_returnRecord = dec_struct
     [(''return_value'', fld dec_raw rr_ReturnValue rr_ReturnValue_update)]"

definition dec_valueRecord :: "valueRecord json_dec" where
  "dec_valueRecord = dec_struct
     [(''variable_id'', fld dec_uint32 vr_VariableID vr_VariableID_update),
      (''value'', fld dec_raw vr_Value vr_Value_update)]"

definition dec_traceEvent :: "traceEvent json_dec" where
  "dec_traceEvent = dec_struct
     [(''Path'', fld (dec_ptr dec_string []) te_Path te_Path_update),
      (''Step'', fld dec_rawptr te_Step te_Step_update),
      (''Function'', fld (dec_ptr dec_functionRecord \<lparr>fr_Name = [], fr_PathID = 0, fr_Line = 0\<rparr>)
         te_Function te_Function_update),
      (''Call'', fld (dec_ptr dec_callRecord \<lparr>cr_FunctionID = 0, cr_Args = []\<rparr>) te_Call te_Call_update),
      (''Return'', fld (dec_ptr dec_returnRecord \<lparr>rr_ReturnValue = None\<rparr>) te_Return te_Return_update),
      (''Value'', fld (dec_ptr dec_valueRecord \<lparr>vr_VariableID = 0, vr_Value = None\<rparr>)
         te_Value te_Value_update),
      (''VariableName'', fld (dec_ptr dec_string []) te_VariableName te_VariableName_update),
      (''Event'', fld dec_rawptr te_Event te_Event_update)]"

definition dec_onDiskValue :: "onDiskValue json_dec" where
  "dec_onDiskValue = dec_struct
     [(''kind'', fld dec_string odv_Kind odv_Kind_update),
      (''i'', fld dec_string odv_I odv_I_update),
      (''f'', fld dec_string odv_F odv_F_update),
      (''r'', fld dec_string odv_R odv_R_update),
      (''text'', fld dec_string odv_Text odv_Text_update),
      (''b'', fld (dec_ptr dec_bool False) odv_B odv_B_update)]"

definition dec_traceMetadata :: "traceMetadata json_dec" where
  "dec_traceMetadata = dec_struct
     [(''program'', fld dec_string tm_Program tm_Program_update),
      (''args'', fld (dec_list dec_string []) tm_Args tm_Args_update),
      (''workdir'', fld dec_string tm_Workdir tm_Workdir_update),
      (''recorder'', dec_struct
        [(''name'', fld dec_string tm_RecorderName tm_RecorderName_update),
         (''version'', fld dec_string tm_RecorderVersion tm_RecorderVersion_update)])]"

definition onDiskValue_raw :: "onDiskValue \<Rightarrow> rawValue" where
  "onDiskValue_raw v =
     (let raw = (\<lambda>t. \<lparr>rv_Kind = odv_Kind v, rv_Text = t\<rparr>) in
      if odv_Kind v = ''Int'' then raw (odv_I v)
      else if odv_Kind v = ''Float'' then raw (odv_F v)
      else if odv_Kind v = ''Raw'' then raw (odv_R v)
      else if odv_Kind v = ''String'' then raw (odv_Text v)
      else if odv_Kind v = ''Bool'' then raw (if odv_B v = Some True then ''true'' else ''false'')
      else raw [])"

subsection \<open>Binding names and import labels\<close>

datatype role = Arg | Ret

definition parseBindingName :: "string \<Rightarrow> (string \<times> role \<times> nat) option" where
  "parseBindingName name = (case LastIndexByte name CHR '':'' of
     None \<Rightarrow> None
   | Some i \<Rightarrow>
       if i = length name - 1 then None
       else
         let label = take i name; suffix = drop (i + 1) name in
         (case (if HasPrefix suffix ''arg'' then Some (Arg, drop 3 suffix)
                else if HasPrefix suffix ''ret'' then Some (Ret, drop 3 suffix)
                else None) of
            None \<Rightarrow> None
          | Some (role, digits) \<Rightarrow>
              if digits = [] then None
              else (case Atoi digits of
                None \<Rightarrow> None
              | Some n \<Rightarrow> if n < 0 then None
                          else if label = [] then None
                          else Some (label, role, nat n))))"

definition importLabelPrefix :: string where "importLabelPrefix = ''import #''"

definition importLabel :: "u32 \<Rightarrow> string" where
  "importLabel index = importLabelPrefix @ FormatUint (unat index)"

definition parseImportLabel :: "string \<Rightarrow> u32 option" where
  "parseImportLabel label =
     (if \<not> HasPrefix label importLabelPrefix then None
      else map_option word_of_nat (ParseUint (drop (length importLabelPrefix) label) 10 32))"

subsection \<open>Realm markers\<close>

definition jsWasmRealmBoundary :: string where "jsWasmRealmBoundary = ''js-wasm-realm''"
definition exportMarkerPrefix :: string where "exportMarkerPrefix = ''wasm export #''"
definition importMarkerPrefix :: string where "importMarkerPrefix = ''wasm import #''"
definition markerEnterDirection :: string where "markerEnterDirection = ''recv''"
definition markerLeaveDirection :: string where "markerLeaveDirection = ''send''"

record markerMetadata =
  mm_BoundaryID :: string
  mm_Direction :: string
  mm_ShowValue :: string

record realmMarker =
  rm_kind :: CrossingKind
  rm_index :: u32
  rm_enter :: bool

definition dec_markerMetadata :: "markerMetadata json_dec" where
  "dec_markerMetadata = dec_struct
     [(''boundary_id'', fld dec_string mm_BoundaryID mm_BoundaryID_update),
      (''direction'', fld dec_string mm_Direction mm_Direction_update),
      (''show_value'', fld dec_string mm_ShowValue mm_ShowValue_update)]"

definition marker_edge :: "string \<Rightarrow> (CrossingKind \<times> u32) option" where
  "marker_edge show =
     (if HasPrefix show importMarkerPrefix then
        map_option (\<lambda>n. (CrossingImport, word_of_nat n)) (ParseUint (drop (length importMarkerPrefix) show) 10 32)
      else if HasPrefix show exportMarkerPrefix then
        map_option (\<lambda>n. (CrossingExport, word_of_nat n)) (ParseUint (drop (length exportMarkerPrefix) show) 10 32)
      else None)"

definition marker_direction :: "string \<Rightarrow> bool option" where
  "marker_direction d =
     (if d = markerEnterDirection then Some True
      else if d = markerLeaveDirection then Some False else None)"

definition parseRealmMarker :: "(string \<Rightarrow> json option) \<Rightarrow> json \<Rightarrow> realmMarker option" where
  "parseRealmMarker js raw = (case dec_eventRecord raw eventRecord0 of
     Inl _ \<Rightarrow> None
   | Inr ev \<Rightarrow>
       if er_Kind ev \<noteq> eventKindTraceLogEvent then None
       else (case unmarshal_text js dec_markerMetadata (er_Metadata ev)
                    \<lparr>mm_BoundaryID = [], mm_Direction = [], mm_ShowValue = []\<rparr> of
         Inl _ \<Rightarrow> None
       | Inr meta \<Rightarrow>
           if mm_BoundaryID meta \<noteq> jsWasmRealmBoundary then None
           else (case marker_edge (mm_ShowValue meta) of
             None \<Rightarrow> None
           | Some (k, n) \<Rightarrow>
               map_option (\<lambda>en. \<lparr>rm_kind = k, rm_index = n, rm_enter = en\<rparr>)
                 (marker_direction (mm_Direction meta)))))"

subsection \<open>The files beside the event stream\<close>

record ct_dir =
  f_metadata :: "string option"
  f_paths :: "string option"
  f_state :: "string option"
  f_trace :: "string option"

datatype recording_error =
    MetadataSyntax json_error | PathsSyntax json_error | HostStateError host_error
  | NoTrace | TraceSyntax json_error

definition optional_json ::
  "(string \<Rightarrow> json option) \<Rightarrow> 'a json_dec \<Rightarrow> (json_error \<Rightarrow> recording_error) \<Rightarrow> 'a \<Rightarrow> string option \<Rightarrow> recording_error + 'a" where
  "optional_json js d err zero file = (case file of
     None \<Rightarrow> Inr zero
   | Some txt \<Rightarrow> (case unmarshal_text js d txt zero of Inl e \<Rightarrow> Inl (err e) | Inr x \<Rightarrow> Inr x))"

definition LoadRecordingMetadata ::
  "float_ops \<Rightarrow> (string \<Rightarrow> json option) \<Rightarrow> ct_dir \<Rightarrow> recording_error + Recording" where
  "LoadRecordingMetadata fo js dir =
     bind_res (optional_json js dec_traceMetadata MetadataSyntax traceMetadata0 (f_metadata dir)) (\<lambda>meta.
     bind_res (optional_json js (dec_list dec_string []) PathsSyntax [] (f_paths dir)) (\<lambda>paths.
     case loadHostState fo js (f_state dir) of
       Inl e \<Rightarrow> Inl (HostStateError e)
     | Inr st \<Rightarrow> Inr \<lparr>r_Program = tm_Program meta, r_Workdir = tm_Workdir meta,
         r_Recorder = tm_RecorderName meta, r_Paths = paths, r_Crossings = [],
         r_HostState = st, r_MarkersIdentifyImports = False\<rparr>))"

section \<open>Lemmas\<close>

lemma colon_not_digit: "CHR '':'' \<notin> set (FormatUint n)"
  using FormatUint_digits[of n] digit_val_sign by (auto simp: list_all_iff)

lemma parseBindingName_label:
  assumes "label \<noteq> []" "slot < 2 ^ 63"
  shows "parseBindingName (label @ '':arg'' @ FormatUint slot) = Some (label, Arg, slot)"
    and "parseBindingName (label @ '':ret'' @ FormatUint slot) = Some (label, Ret, slot)"
proof -
  have "LastIndexByte (label @ CHR '':'' # (''arg'' @ FormatUint slot)) CHR '':'' = Some (length label)"
    by (rule LastIndexByte_append) (simp add: colon_not_digit)
  then show "parseBindingName (label @ '':arg'' @ FormatUint slot) = Some (label, Arg, slot)"
    using assms by (simp add: parseBindingName_def HasPrefix_def Atoi_FormatUint)
  have "LastIndexByte (label @ CHR '':'' # (''ret'' @ FormatUint slot)) CHR '':'' = Some (length label)"
    by (rule LastIndexByte_append) (simp add: colon_not_digit)
  then show "parseBindingName (label @ '':ret'' @ FormatUint slot) = Some (label, Ret, slot)"
    using assms by (simp add: parseBindingName_def HasPrefix_def Atoi_FormatUint)
qed

lemma importLabel_nonempty [simp]: "importLabel n \<noteq> []"
  by (simp add: importLabel_def importLabelPrefix_def)

lemma unat_lt32: "unat (n :: u32) < 2 ^ 32"
  using unsigned_less[of n] by simp

lemma parseImportLabel_importLabel [simp]: "parseImportLabel (importLabel n) = Some n"
  using ParseUint_FormatUint[OF unat_lt32] by (simp add: parseImportLabel_def importLabel_def)

end
