(* ===== verification/Assembler.thy ===== *)
theory Assembler
  imports Recordings
begin

text \<open>
  The incremental reconstruction of boundary crossings (\<open>internal/boundarylog/assembler.go\<close> and
  \<open>reconstructCrossings\<close>). The stack of open crossings has its top first, where the code keeps
  it at the end of a slice.
\<close>

section \<open>Definitions\<close>

record valueRun =
  vn_label :: string
  vn_role :: role
  vn_values :: "rawValue list"

record openCrossing =
  oc_idx :: nat
  oc_label :: string

record assembler =
  a_functions :: "functionRecord list"
  a_varNames :: "string list"
  a_crossings :: "Crossing list"
  a_stack :: "openCrossing list"
  a_pending :: "valueRun option"
  a_groupStart :: nat
  a_groupEnds :: "nat list"
  a_sawImportMarker :: bool
  a_hostState :: "HostState option"

datatype asm_error =
    ArgRunWithoutFrame string | RetRunWithoutFrame string
  | UnknownFunction nat | ReturnWithoutFrame | ReturnClosesImport nat
  | MarkerHostState host_error | MarkerNotNested u32
  | UnknownVariable nat | BadValue json_error | SlotOrder nat nat
  | Unbalanced nat

definition newAssembler :: assembler where
  "newAssembler = \<lparr>a_functions = [], a_varNames = [], a_crossings = [], a_stack = [],
     a_pending = None, a_groupStart = 0, a_groupEnds = [], a_sawImportMarker = False,
     a_hostState = None\<rparr>"

definition blank_crossing :: Crossing where
  "blank_crossing = \<lparr>c_Seq = 0, c_Depth = 0, c_Kind = CrossingExport, c_Name = [], c_Index = 0,
     c_Args = [], c_Results = [], c_hasResults = False, c_markerBracketed = False\<rparr>"

text \<open>Appending a crossing at the position and depth the assembler is at, and opening it.\<close>

definition append_crossing :: "assembler \<Rightarrow> Crossing \<Rightarrow> assembler" where
  "append_crossing a c = a\<lparr>a_crossings := a_crossings a @
     [c\<lparr>c_Seq := length (a_crossings a), c_Depth := length (a_stack a)\<rparr>]\<rparr>"

definition open_crossing :: "assembler \<Rightarrow> Crossing \<Rightarrow> string \<Rightarrow> assembler" where
  "open_crossing a c label = (append_crossing a c)
     \<lparr>a_stack := \<lparr>oc_idx = length (a_crossings a), oc_label = label\<rparr> # a_stack a\<rparr>"

definition update_top :: "assembler \<Rightarrow> (Crossing \<Rightarrow> Crossing) \<Rightarrow> assembler" where
  "update_top a f = (case a_stack a of [] \<Rightarrow> a
     | oc # _ \<Rightarrow> a\<lparr>a_crossings := (a_crossings a)[oc_idx oc := f (a_crossings a ! oc_idx oc)]\<rparr>)"

definition pop_top :: "assembler \<Rightarrow> assembler" where
  "pop_top a = a\<lparr>a_stack := tl (a_stack a)\<rparr>"

fun dangling :: "Crossing list \<Rightarrow> string \<Rightarrow> bool \<Rightarrow> openCrossing list \<Rightarrow> openCrossing list" where
  "dangling cs keep force [] = []"
| "dangling cs keep force (oc # rest) =
     (let c = cs ! oc_idx oc in
      if c_Kind c \<noteq> CrossingImport then oc # rest
      else if oc_label oc = keep then oc # rest
      else if c_markerBracketed c \<and> \<not> force then oc # rest
      else dangling cs keep force rest)"

definition closeDanglingImports :: "assembler \<Rightarrow> string \<Rightarrow> bool \<Rightarrow> assembler" where
  "closeDanglingImports a keep force = a\<lparr>a_stack := dangling (a_crossings a) keep force (a_stack a)\<rparr>"

definition top_label :: "assembler \<Rightarrow> string option" where
  "top_label a = (case a_stack a of [] \<Rightarrow> None | oc # _ \<Rightarrow> Some (oc_label oc))"

definition top_crossing :: "assembler \<Rightarrow> Crossing option" where
  "top_crossing a = (case a_stack a of [] \<Rightarrow> None | oc # _ \<Rightarrow> Some (a_crossings a ! oc_idx oc))"

definition apply_run :: "assembler \<Rightarrow> valueRun \<Rightarrow> asm_error + assembler" where
  "apply_run a0 run =
     (let a = closeDanglingImports a0 (if vn_role run = Ret then vn_label run else []) False;
          imp = parseImportLabel (vn_label run) in
      case vn_role run of
        Arg \<Rightarrow>
          (case imp of
             Some n \<Rightarrow> Inr (open_crossing a (blank_crossing\<lparr>c_Kind := CrossingImport, c_Index := n,
                              c_Args := vn_values run\<rparr>) (vn_label run))
           | None \<Rightarrow>
               if top_label a \<noteq> Some (vn_label run) then Inl (ArgRunWithoutFrame (vn_label run))
               else Inr (update_top a (c_Args_update (\<lambda>_. vn_values run))))
      | Ret \<Rightarrow>
          if top_label a = Some (vn_label run) then
            let a' = update_top a (\<lambda>c. c\<lparr>c_Results := vn_values run, c_hasResults := True\<rparr>) in
            Inr (if imp \<noteq> None \<and> \<not> c_markerBracketed (the (top_crossing a')) then pop_top a' else a')
          else
            (case imp of
               Some n \<Rightarrow> Inr (append_crossing a (blank_crossing\<lparr>c_Kind := CrossingImport, c_Index := n,
                                c_Results := vn_values run, c_hasResults := True\<rparr>))
             | None \<Rightarrow> Inl (RetRunWithoutFrame (vn_label run))))"

definition closeRun :: "assembler \<Rightarrow> asm_error + assembler" where
  "closeRun a = (case a_pending a of
     None \<Rightarrow> Inr a
   | Some run \<Rightarrow> apply_run (a\<lparr>a_pending := None\<rparr>) run)"

definition openMarkedImport :: "assembler \<Rightarrow> u32 \<Rightarrow> assembler" where
  "openMarkedImport a index =
     (if (case top_crossing a of None \<Rightarrow> False
          | Some c \<Rightarrow> c_Kind c = CrossingImport \<and> c_Index c = index \<and> \<not> c_markerBracketed c)
      then update_top a (c_markerBracketed_update (\<lambda>_. True))
      else open_crossing a (blank_crossing\<lparr>c_Kind := CrossingImport, c_Index := index,
             c_markerBracketed := True\<rparr>) (importLabel index))"

definition closeMarkedImport :: "assembler \<Rightarrow> u32 \<Rightarrow> asm_error + assembler" where
  "closeMarkedImport a index = (case top_crossing a of
     None \<Rightarrow> Inl (MarkerNotNested index)
   | Some c \<Rightarrow>
       if c_Kind c = CrossingImport \<and> c_Index c = index \<and> c_markerBracketed c
       then Inr (pop_top a)
       else Inl (MarkerNotNested index))"

definition pushEvent :: "float_ops \<Rightarrow> (string \<Rightarrow> json option) \<Rightarrow> assembler \<Rightarrow> json \<Rightarrow> asm_error + assembler" where
  "pushEvent fo js a0 ev =
     bind_res (closeRun a0) (\<lambda>a.
     case parseHostStateMarker js ev of
       Inl e \<Rightarrow> Inl (MarkerHostState e)
     | Inr (Some hs) \<Rightarrow>
         (case foldHostStateMarker fo (a_hostState a) hs of
            Inl e \<Rightarrow> Inl (MarkerHostState e)
          | Inr folded \<Rightarrow> Inr (a\<lparr>a_hostState := folded\<rparr>))
     | Inr None \<Rightarrow>
         (case parseRealmMarker js ev of
            None \<Rightarrow> Inr a
          | Some m \<Rightarrow>
              if rm_kind m \<noteq> CrossingImport then Inr a
              else
                let a' = a\<lparr>a_sawImportMarker := True\<rparr> in
                if rm_enter m then Inr (openMarkedImport a' (rm_index m))
                else closeMarkedImport a' (rm_index m)))"

definition extend_run :: "assembler \<Rightarrow> string \<Rightarrow> role \<Rightarrow> nat \<Rightarrow> rawValue \<Rightarrow> asm_error + assembler" where
  "extend_run a label role slot v =
     (let run = (case a_pending a of Some r \<Rightarrow> r
                 | None \<Rightarrow> \<lparr>vn_label = label, vn_role = role, vn_values = []\<rparr>) in
      if slot \<noteq> length (vn_values run) then Inl (SlotOrder slot (length (vn_values run)))
      else Inr (a\<lparr>a_pending := Some (run\<lparr>vn_values := vn_values run @ [v]\<rparr>)\<rparr>))"

definition pushValue :: "assembler \<Rightarrow> valueRecord \<Rightarrow> asm_error + assembler" where
  "pushValue a vr =
     (let id = unat (vr_VariableID vr) in
      if id \<ge> length (a_varNames a) then Inl (UnknownVariable id)
      else (case parseBindingName (a_varNames a ! id) of
        None \<Rightarrow> closeRun a
      | Some (label, role, slot) \<Rightarrow>
          (case unmarshal_raw dec_onDiskValue (vr_Value vr) onDiskValue0 of
             Inl e \<Rightarrow> Inl (BadValue e)
           | Inr odv \<Rightarrow>
               bind_res
                 (case a_pending a of
                    Some run \<Rightarrow>
                      if vn_label run \<noteq> label \<or> vn_role run \<noteq> role \<or> slot = 0 \<and> vn_values run \<noteq> []
                      then closeRun a else Inr a
                  | None \<Rightarrow> Inr a)
                 (\<lambda>a'. extend_run a' label role slot (onDiskValue_raw odv)))))"

definition noteGroupBoundary :: "assembler \<Rightarrow> assembler" where
  "noteGroupBoundary a =
     (if a_stack a \<noteq> [] \<or> a_pending a \<noteq> None then a
      else if length (a_crossings a) \<le> a_groupStart a then a
      else a\<lparr>a_groupEnds := a_groupEnds a @ [length (a_crossings a)],
             a_groupStart := length (a_crossings a)\<rparr>)"

definition push_record :: "float_ops \<Rightarrow> (string \<Rightarrow> json option) \<Rightarrow> assembler \<Rightarrow> traceEvent \<Rightarrow> asm_error + assembler" where
  "push_record fo js a ev =
     (case te_Function ev of Some f \<Rightarrow>
        bind_res (closeRun a) (\<lambda>a. Inr (a\<lparr>a_functions := a_functions a @ [f]\<rparr>))
      | None \<Rightarrow>
      case te_VariableName ev of Some n \<Rightarrow> Inr (a\<lparr>a_varNames := a_varNames a @ [n]\<rparr>)
      | None \<Rightarrow>
      case te_Value ev of Some v \<Rightarrow> pushValue a v
      | None \<Rightarrow>
      case te_Call ev of Some call \<Rightarrow>
        bind_res (closeRun a) (\<lambda>a.
          let id = unat (cr_FunctionID call) in
          if id \<ge> length (a_functions a) then Inl (UnknownFunction id)
          else let name = fr_Name (a_functions a ! id) in
            Inr (open_crossing a (blank_crossing\<lparr>c_Kind := CrossingExport, c_Name := name\<rparr>) name))
      | None \<Rightarrow>
      case te_Event ev of Some e \<Rightarrow> pushEvent fo js a e
      | None \<Rightarrow>
      case te_Return ev of Some _ \<Rightarrow>
        bind_res (closeRun a) (\<lambda>a1.
          let a = closeDanglingImports a1 [] False in
          case top_crossing a of
            None \<Rightarrow> Inl ReturnWithoutFrame
          | Some c \<Rightarrow>
              if c_Kind c \<noteq> CrossingExport then Inl (ReturnClosesImport (c_Seq c))
              else Inr (pop_top a))
      | None \<Rightarrow>
        if te_Path ev \<noteq> None \<or> te_Step ev \<noteq> None then closeRun a else Inr a)"

definition push :: "float_ops \<Rightarrow> (string \<Rightarrow> json option) \<Rightarrow> assembler \<Rightarrow> traceEvent \<Rightarrow> asm_error + assembler" where
  "push fo js a ev = bind_res (push_record fo js a ev) (\<lambda>a'. Inr (noteGroupBoundary a'))"

definition finish :: "assembler \<Rightarrow> asm_error + assembler" where
  "finish a0 =
     bind_res (closeRun a0) (\<lambda>a1.
       let a = closeDanglingImports a1 [] True in
       if a_stack a \<noteq> [] then Inl (Unbalanced (length (a_stack a)))
       else Inr (noteGroupBoundary a))"

definition groups :: "assembler \<Rightarrow> nat" where "groups a = length (a_groupEnds a)"

definition group :: "assembler \<Rightarrow> nat \<Rightarrow> Crossing list" where
  "group a i = (let start = (if i > 0 then a_groupEnds a ! (i - 1) else 0) in
     slice start (a_groupEnds a ! i - start) (a_crossings a))"

definition openCrossings :: "assembler \<Rightarrow> nat" where "openCrossings a = length (a_stack a)"

definition reconstructCrossings ::
  "float_ops \<Rightarrow> (string \<Rightarrow> json option) \<Rightarrow> traceEvent list \<Rightarrow>
   asm_error + Crossing list \<times> bool \<times> HostState option" where
  "reconstructCrossings fo js events =
     bind_res (run_steps (push fo js) newAssembler events) (\<lambda>a1.
     bind_res (finish a1) (\<lambda>a.
     Inr (a_crossings a, a_sawImportMarker a, a_hostState a)))"

datatype load_error = LoadMeta recording_error | LoadAsm asm_error

definition LoadRecording ::
  "float_ops \<Rightarrow> (string \<Rightarrow> json option) \<Rightarrow> ct_dir \<Rightarrow> load_error + Recording" where
  "LoadRecording fo js dir = (case LoadRecordingMetadata fo js dir of
     Inl e \<Rightarrow> Inl (LoadMeta e)
   | Inr rec \<Rightarrow>
   case f_trace dir of
     None \<Rightarrow> Inl (LoadMeta NoTrace)
   | Some txt \<Rightarrow>
   case unmarshal_text js (dec_list dec_traceEvent traceEvent0) txt [] of
     Inl e \<Rightarrow> Inl (LoadMeta (TraceSyntax e))
   | Inr events \<Rightarrow>
   case reconstructCrossings fo js events of
     Inl e \<Rightarrow> Inl (LoadAsm e)
   | Inr (crossings, marked, streamed) \<Rightarrow>
   case reconcileHostState (r_HostState rec) streamed of
     Inl e \<Rightarrow> Inl (LoadMeta (HostStateError e))
   | Inr state \<Rightarrow> Inr (rec\<lparr>r_Crossings := crossings, r_MarkersIdentifyImports := marked,
                           r_HostState := state\<rparr>))"

section \<open>Lemmas\<close>

subsection \<open>The invariant\<close>

named_theorems asm_pres \<open>operations that keep the assembler invariant\<close>

definition entry_ok :: "openCrossing \<Rightarrow> Crossing \<Rightarrow> bool" where
  "entry_ok oc c \<longleftrightarrow> (case c_Kind c of
     CrossingImport \<Rightarrow> parseImportLabel (oc_label oc) = Some (c_Index c)
   | CrossingExport \<Rightarrow> oc_label oc = c_Name c)"

fun stack_ok :: "Crossing list \<Rightarrow> nat \<Rightarrow> openCrossing list \<Rightarrow> bool" where
  "stack_ok cs lo [] \<longleftrightarrow> True"
| "stack_ok cs lo (oc # rest) \<longleftrightarrow>
     lo \<le> oc_idx oc \<and> oc_idx oc < length cs \<and> c_Depth (cs ! oc_idx oc) = length rest \<and>
     entry_ok oc (cs ! oc_idx oc) \<and> (\<forall>r\<in>set rest. oc_idx r < oc_idx oc) \<and> stack_ok cs lo rest"

definition ends_ok :: "nat \<Rightarrow> nat list \<Rightarrow> bool" where
  "ends_ok gs ends \<longleftrightarrow> gs = last (0 # ends) \<and> sorted_wrt (<) (0 # ends)"

definition roots_ok :: "nat list \<Rightarrow> Crossing list \<Rightarrow> bool" where
  "roots_ok ends cs \<longleftrightarrow> (\<forall>b\<in>set (0 # ends). b < length cs \<longrightarrow> c_Depth (cs ! b) = 0)"

definition seqs_ok :: "Crossing list \<Rightarrow> bool" where
  "seqs_ok cs \<longleftrightarrow> (\<forall>i<length cs. c_Seq (cs ! i) = i)"

definition asm_ok :: "assembler \<Rightarrow> bool" where
  "asm_ok a \<longleftrightarrow> seqs_ok (a_crossings a) \<and>
     stack_ok (a_crossings a) (a_groupStart a) (a_stack a) \<and>
     a_groupStart a \<le> length (a_crossings a) \<and>
     ends_ok (a_groupStart a) (a_groupEnds a) \<and> roots_ok (a_groupEnds a) (a_crossings a)"

text \<open>\<open>asm_from a0 a\<close>: a state that keeps the invariant and every group \<open>a0\<close> had completed.\<close>

definition asm_from :: "assembler \<Rightarrow> assembler \<Rightarrow> bool" where
  "asm_from a0 a \<longleftrightarrow> asm_ok a \<and> prefix (a_groupEnds a0) (a_groupEnds a) \<and>
     a_groupStart a0 \<le> a_groupStart a \<and>
     take (a_groupStart a0) (a_crossings a) = take (a_groupStart a0) (a_crossings a0)"

definition frame_of :: "Crossing \<Rightarrow> nat \<times> nat \<times> CrossingKind \<times> string \<times> u32" where
  "frame_of c = (c_Seq c, c_Depth c, c_Kind c, c_Name c, c_Index c)"

lemma stack_ok_cong:
  assumes "stack_ok cs lo st" "length cs \<le> length cs'" "\<And>i. i < length cs \<Longrightarrow> frame_of (cs' ! i) = frame_of (cs ! i)"
  shows "stack_ok cs' lo st"
  using assms(1)
proof (induction st)
  case (Cons oc rest)
  then have "oc_idx oc < length cs" by simp
  from assms(3)[OF this] Cons assms(2) show ?case
    by (auto simp: frame_of_def entry_ok_def split: CrossingKind.splits)
qed simp

lemma stack_ok_mono: "stack_ok cs lo st \<Longrightarrow> \<forall>oc\<in>set st. oc_idx oc < length cs \<and> lo \<le> oc_idx oc"
  by (induction st) auto

lemma asm_from_same [asm_pres]:
  assumes "asm_from a0 a" "a_crossings a' = a_crossings a" "a_stack a' = a_stack a"
    "a_groupStart a' = a_groupStart a" "a_groupEnds a' = a_groupEnds a"
  shows "asm_from a0 a'"
  using assms by (simp add: asm_from_def asm_ok_def)

lemma dangling_ok: "stack_ok cs lo st \<Longrightarrow> stack_ok cs lo (dangling cs keep force st)"
  by (induction st) (auto simp: Let_def)

lemma closeDangling_ok [asm_pres]: "asm_from a0 a \<Longrightarrow> asm_from a0 (closeDanglingImports a keep force)"
  by (simp add: asm_from_def asm_ok_def closeDanglingImports_def dangling_ok)

lemma pop_ok [asm_pres]: "asm_from a0 a \<Longrightarrow> asm_from a0 (pop_top a)"
  by (cases "a_stack a") (simp_all add: asm_from_def asm_ok_def pop_top_def)

lemma ends_le: "ends_ok gs ends \<Longrightarrow> b \<in> set (0 # ends) \<Longrightarrow> b \<le> gs"
  unfolding ends_ok_def by (cases ends rule: rev_cases) (auto simp: sorted_wrt_append)

lemma ends_mem: "ends_ok gs ends \<Longrightarrow> gs \<in> set (0 # ends)"
  unfolding ends_ok_def by (metis last_in_set list.distinct(1))

lemma ends_snoc: "ends_ok gs ends \<Longrightarrow> gs < n \<Longrightarrow> ends_ok n (ends @ [n])"
  using ends_le[of gs ends] by (fastforce simp: ends_ok_def sorted_wrt_append)

lemma append_ok [asm_pres]:
  assumes "asm_from a0 a"
  shows "asm_from a0 (append_crossing a c)"
proof -
  let ?cs = "a_crossings a" and ?gs = "a_groupStart a" and ?c = "c\<lparr>c_Seq := length (a_crossings a), c_Depth := length (a_stack a)\<rparr>"
  have ok: "seqs_ok ?cs" "stack_ok ?cs ?gs (a_stack a)" "?gs \<le> length ?cs" "ends_ok ?gs (a_groupEnds a)"
    "roots_ok (a_groupEnds a) ?cs" "a_groupStart a0 \<le> ?gs"
    using assms by (auto simp: asm_from_def asm_ok_def)
  have "stack_ok (?cs @ [?c]) ?gs (a_stack a)"
    by (rule stack_ok_cong[OF ok(2)]) (auto simp: nth_append)
  moreover have "a_stack a = []" if "?gs = length ?cs"
    using ok(2) that by (cases "a_stack a") auto
  then have "roots_ok (a_groupEnds a) (?cs @ [?c])"
    using ok(3,5) ends_le[OF ok(4), of "length ?cs"] by (auto simp: roots_ok_def nth_append less_Suc_eq)
  ultimately show ?thesis
    using assms ok by (auto simp: asm_from_def asm_ok_def append_crossing_def seqs_ok_def nth_append)
qed

lemma open_ok [asm_pres]:
  assumes "asm_from a0 a" "entry_ok \<lparr>oc_idx = length (a_crossings a), oc_label = label\<rparr> c"
  shows "asm_from a0 (open_crossing a c label)"
proof -
  have "asm_from a0 (append_crossing a c)" by (rule append_ok[OF assms(1)])
  moreover have "\<forall>oc\<in>set (a_stack a). oc_idx oc < length (a_crossings a)"
    "a_groupStart a \<le> length (a_crossings a)"
    using assms(1) stack_ok_mono by (auto simp: asm_from_def asm_ok_def)
  ultimately show ?thesis
    using assms(2)
    by (auto simp: asm_from_def asm_ok_def open_crossing_def append_crossing_def entry_ok_def
        split: CrossingKind.splits)
qed

lemma update_ok [asm_pres]:
  assumes "asm_from a0 a" "\<And>c. frame_of (f c) = frame_of c"
  shows "asm_from a0 (update_top a f)"
proof (cases "a_stack a")
  case Nil
  with assms(1) show ?thesis by (simp add: update_top_def)
next
  case (Cons oc rest)
  define cs where "cs = a_crossings a"
  define cs' where "cs' = cs[oc_idx oc := f (cs ! oc_idx oc)]"
  have fr: "frame_of (cs' ! i) = frame_of (cs ! i)" for i
    using assms(2) unfolding cs'_def
    by (cases "i = oc_idx oc"; cases "oc_idx oc < length cs") (auto simp: list_update_beyond)
  have len: "length cs' = length cs" by (simp add: cs'_def)
  have ok: "seqs_ok cs" "stack_ok cs (a_groupStart a) (a_stack a)" "roots_ok (a_groupEnds a) cs"
    using assms(1) by (auto simp: asm_from_def asm_ok_def cs_def)
  have same: "c_Seq (cs' ! i) = c_Seq (cs ! i)" "c_Depth (cs' ! i) = c_Depth (cs ! i)" for i
    using fr[of i] by (simp_all add: frame_of_def)
  have "stack_ok cs' (a_groupStart a) (a_stack a)"
    by (rule stack_ok_cong[OF ok(2)]) (simp_all add: len fr)
  moreover have "seqs_ok cs'" "roots_ok (a_groupEnds a) cs'"
    using ok(1,3) by (simp_all add: seqs_ok_def roots_ok_def len same)
  moreover have "a_groupStart a0 \<le> oc_idx oc"
    using ok(2) assms(1) Cons by (simp add: asm_from_def)
  then have "take (a_groupStart a0) cs' = take (a_groupStart a0) cs"
    by (simp add: cs'_def)
  moreover have "update_top a f = a\<lparr>a_crossings := cs'\<rparr>"
    using Cons by (simp add: update_top_def cs'_def cs_def)
  ultimately show ?thesis using assms(1) by (simp add: asm_from_def asm_ok_def len cs_def)
qed

lemma boundary_ok [asm_pres]: "asm_from a0 a \<Longrightarrow> asm_from a0 (noteGroupBoundary a)"
  by (auto simp: asm_from_def asm_ok_def noteGroupBoundary_def ends_snoc roots_ok_def
      intro: prefix_prefix split: if_splits)


lemma frame_updates [simp]:
  "frame_of (c_Args_update f c) = frame_of c" "frame_of (c_Results_update g c) = frame_of c"
  "frame_of (c_hasResults_update h c) = frame_of c" "frame_of (c_markerBracketed_update h c) = frame_of c"
  by (simp_all add: frame_of_def)

lemma entry_import: "entry_ok oc (blank_crossing\<lparr>c_Kind := CrossingImport, c_Index := n, c_Args := vs\<rparr>) \<longleftrightarrow>
    parseImportLabel (oc_label oc) = Some n"
  "entry_ok oc (blank_crossing\<lparr>c_Kind := CrossingImport, c_Index := n, c_markerBracketed := b\<rparr>) \<longleftrightarrow>
    parseImportLabel (oc_label oc) = Some n"
  "entry_ok oc (blank_crossing\<lparr>c_Kind := CrossingExport, c_Name := name\<rparr>) \<longleftrightarrow> oc_label oc = name"
  by (simp_all add: entry_ok_def)

lemma asm_from_fields [simp]:
  "asm_from a0 (a\<lparr>a_sawImportMarker := b\<rparr>) = asm_from a0 a"
  "asm_from a0 (a\<lparr>a_hostState := h\<rparr>) = asm_from a0 a"
  "asm_from a0 (a\<lparr>a_functions := fs\<rparr>) = asm_from a0 a"
  "asm_from a0 (a\<lparr>a_varNames := vs\<rparr>) = asm_from a0 a"
  "asm_from a0 (a\<lparr>a_pending := p\<rparr>) = asm_from a0 a"
  by (simp_all add: asm_from_def asm_ok_def)

lemma apply_run_ok: "asm_from a0 a \<Longrightarrow> res_ok (asm_from a0) (apply_run a run)"
  by (auto simp: apply_run_def Let_def entry_import intro!: asm_pres split: role.split option.split)

lemma closeRun_ok: "asm_from a0 a \<Longrightarrow> res_ok (asm_from a0) (closeRun a)"
  by (auto simp: closeRun_def intro!: apply_run_ok split: option.split)

lemma openMarked_ok [asm_pres]: "asm_from a0 a \<Longrightarrow> asm_from a0 (openMarkedImport a n)"
  by (auto simp: openMarkedImport_def entry_import intro!: asm_pres split: option.split)

lemma closeMarked_ok: "asm_from a0 a \<Longrightarrow> res_ok (asm_from a0) (closeMarkedImport a n)"
  by (auto simp: closeMarkedImport_def intro!: asm_pres split: option.split)

lemma pushEvent_ok: "asm_from a0 a \<Longrightarrow> res_ok (asm_from a0) (pushEvent fo js a ev)"
  unfolding pushEvent_def Let_def
  by (rule res_ok_bind[OF closeRun_ok], assumption)
    (auto intro!: openMarked_ok closeMarked_ok split: sum.split option.split)

lemma extend_ok: "asm_from a0 a \<Longrightarrow> res_ok (asm_from a0) (extend_run a l r n v)"
  by (auto simp: extend_run_def Let_def)

lemma pushValue_ok: "asm_from a0 a \<Longrightarrow> res_ok (asm_from a0) (pushValue a vr)"
  by (auto simp: pushValue_def Let_def intro!: closeRun_ok res_ok_bind[of "asm_from a0"] extend_ok
      split: sum.split option.split)

lemma push_record_split:
  assumes "\<And>f. te_Function ev = Some f \<Longrightarrow>
      res_ok P (bind_res (closeRun a) (\<lambda>a. Inr (a\<lparr>a_functions := a_functions a @ [f]\<rparr>)))"
    and "\<And>n. P (a\<lparr>a_varNames := a_varNames a @ [n]\<rparr>)" and "\<And>v. res_ok P (pushValue a v)"
    and "\<And>i. res_ok P (bind_res (closeRun a) (\<lambda>a. if i \<ge> length (a_functions a) then Inl (UnknownFunction i)
          else Inr (open_crossing a (blank_crossing\<lparr>c_Kind := CrossingExport, c_Name := fr_Name (a_functions a ! i)\<rparr>)
            (fr_Name (a_functions a ! i)))))"
    and "\<And>e. res_ok P (pushEvent fo js a e)"
    and "res_ok P (bind_res (closeRun a) (\<lambda>a1. case top_crossing (closeDanglingImports a1 [] False) of
            None \<Rightarrow> Inl ReturnWithoutFrame
          | Some c \<Rightarrow> if c_Kind c \<noteq> CrossingExport then Inl (ReturnClosesImport (c_Seq c))
              else Inr (pop_top (closeDanglingImports a1 [] False))))"
    and "res_ok P (closeRun a)" "P a"
  shows "res_ok P (push_record fo js a ev)"
  unfolding push_record_def Let_def using assms by (simp split: option.split)

lemma push_record_ok: "asm_from a0 a \<Longrightarrow> res_ok (asm_from a0) (push_record fo js a ev)"
  by (intro push_record_split)
    (auto simp: entry_import intro!: pop_ok closeDangling_ok open_ok res_ok_bind[OF closeRun_ok] closeRun_ok
      pushValue_ok pushEvent_ok split: option.split)

lemma push_ok: "asm_from a0 a \<Longrightarrow> res_ok (asm_from a0) (push fo js a ev)"
  unfolding push_def by (rule res_ok_bind[OF push_record_ok]) (auto intro!: boundary_ok)

interpretation asm: step_invariant "push fo js" "asm_from a0"
  by unfold_locales (rule res_okD[OF push_ok])

subsection \<open>Call groups\<close>

definition top_export :: "Crossing \<Rightarrow> bool" where
  "top_export c \<longleftrightarrow> c_Kind c = CrossingExport \<and> c_Depth c = 0"

text \<open>A top-level export of the group being assembled is still open, at the bottom of the stack.\<close>

definition root_open :: "Crossing list \<Rightarrow> nat \<Rightarrow> openCrossing list \<Rightarrow> bool" where
  "root_open cs gs st \<longleftrightarrow>
     (\<forall>i. gs \<le> i \<and> i < length cs \<and> top_export (cs ! i) \<longrightarrow> st \<noteq> [] \<and> oc_idx (last st) = i)"

definition one_root :: "Crossing list \<Rightarrow> nat list \<Rightarrow> bool" where
  "one_root cs ends \<longleftrightarrow> (\<forall>i j. i < j \<and> j < length cs \<and> (\<forall>e\<in>set ends. \<not> (i < e \<and> e \<le> j)) \<and>
     top_export (cs ! i) \<longrightarrow> c_Depth (cs ! j) > 0)"

definition plain_name :: "string \<Rightarrow> bool" where
  "plain_name name \<longleftrightarrow> parseImportLabel name = None"

definition plain_stack :: "Crossing list \<Rightarrow> openCrossing list \<Rightarrow> bool" where
  "plain_stack cs st \<longleftrightarrow>
     (\<forall>oc\<in>set st. c_Kind (cs ! oc_idx oc) = CrossingExport \<longrightarrow> plain_name (oc_label oc))"

definition grp_ok :: "assembler \<Rightarrow> bool" where
  "grp_ok a \<longleftrightarrow> asm_from newAssembler a \<and> (\<forall>f\<in>set (a_functions a). plain_name (fr_Name f)) \<and>
     plain_stack (a_crossings a) (a_stack a) \<and>
     one_root (a_crossings a) (a_groupEnds a) \<and> root_open (a_crossings a) (a_groupStart a) (a_stack a)"

lemma root_open_drop:
  "root_open cs gs (oc # rest) \<Longrightarrow> c_Kind (cs ! oc_idx oc) = CrossingImport \<Longrightarrow> root_open cs gs rest"
  by (auto simp: root_open_def top_export_def split: if_splits)

lemma dangling_grp:
  "root_open cs gs st \<Longrightarrow> plain_stack cs st \<Longrightarrow>
   root_open cs gs (dangling cs keep force st) \<and> plain_stack cs (dangling cs keep force st)"
proof (induction st)
  case (Cons oc rest)
  then show ?case
    using root_open_drop[OF Cons.prems(1)] by (cases "c_Kind (cs ! oc_idx oc)") (auto simp: Let_def plain_stack_def)
qed simp

lemma closeDangling_grp: "grp_ok a \<Longrightarrow> grp_ok (closeDanglingImports a keep force)"
  using dangling_grp closeDangling_ok[of newAssembler a]
  by (auto simp: grp_ok_def) (auto simp: closeDanglingImports_def)

lemma pop_grp: "grp_ok a \<Longrightarrow> top_crossing a = Some c \<Longrightarrow> c_Kind c = CrossingImport \<Longrightarrow> grp_ok (pop_top a)"
  using pop_ok[of newAssembler a]
  by (cases "a_stack a") (auto simp: grp_ok_def pop_top_def top_crossing_def plain_stack_def dest: root_open_drop)

lemma append_grp:
  assumes "grp_ok a"
  shows "plain_stack (a_crossings (append_crossing a c)) (a_stack a)"
    and "one_root (a_crossings (append_crossing a c)) (a_groupEnds a)"
proof -
  let ?cs = "a_crossings a"
  have inv: "stack_ok ?cs (a_groupStart a) (a_stack a)" "ends_ok (a_groupStart a) (a_groupEnds a)"
    "a_groupStart a \<le> length ?cs"
    and r: "root_open ?cs (a_groupStart a) (a_stack a)" and o: "one_root ?cs (a_groupEnds a)"
    using assms by (auto simp: grp_ok_def asm_from_def asm_ok_def)
  show "plain_stack (a_crossings (append_crossing a c)) (a_stack a)"
    using assms(1) stack_ok_mono[OF inv(1)] by (auto simp: grp_ok_def plain_stack_def append_crossing_def nth_append)
  have "a_stack a \<noteq> []"
    if i: "i < length ?cs" "top_export (?cs ! i)" "\<forall>e\<in>set (a_groupEnds a). \<not> (i < e \<and> e \<le> length ?cs)" for i
  proof -
    have "\<not> i < a_groupStart a" using i(3) inv(3) ends_mem[OF inv(2)] by auto
    with r i show ?thesis by (auto simp: root_open_def)
  qed
  with o show "one_root (a_crossings (append_crossing a c)) (a_groupEnds a)"
    by (auto simp: one_root_def append_crossing_def nth_append less_Suc_eq)
qed

lemma append_import_grp: "grp_ok a \<Longrightarrow> c_Kind c = CrossingImport \<Longrightarrow> grp_ok (append_crossing a c)"
  using append_ok[of newAssembler a c] append_grp[of a c]
  by (auto simp: grp_ok_def append_crossing_def root_open_def nth_append less_Suc_eq top_export_def)

lemma open_grp:
  assumes g: "grp_ok a" and e: "entry_ok \<lparr>oc_idx = length (a_crossings a), oc_label = label\<rparr> c"
    and p: "c_Kind c = CrossingExport \<Longrightarrow> plain_name label"
  shows "grp_ok (open_crossing a c label)"
proof -
  have r: "root_open (a_crossings a) (a_groupStart a) (a_stack a)" using g by (simp add: grp_ok_def)
  have "asm_from newAssembler (open_crossing a c label)" using g e by (auto simp: grp_ok_def intro: open_ok)
  moreover have "plain_stack (a_crossings (append_crossing a c)) (a_stack (open_crossing a c label))"
    using append_grp(1)[OF g, of c] p
    by (auto simp: plain_stack_def open_crossing_def append_crossing_def)
  moreover have "root_open (a_crossings (append_crossing a c)) (a_groupStart a) (a_stack (open_crossing a c label))"
    using r by (auto simp: root_open_def open_crossing_def append_crossing_def nth_append less_Suc_eq top_export_def)
  ultimately show ?thesis
    using g append_grp(2)[OF g, of c] by (simp add: grp_ok_def open_crossing_def append_crossing_def)
qed

lemma update_grp:
  assumes g: "grp_ok a" and f: "\<And>c. frame_of (f c) = frame_of c"
  shows "grp_ok (update_top a f)"
proof (cases "a_stack a")
  case Nil
  with g show ?thesis by (simp add: update_top_def)
next
  case (Cons oc rest)
  define cs where "cs = a_crossings a"
  define cs' where "cs' = cs[oc_idx oc := f (cs ! oc_idx oc)]"
  have "frame_of (cs' ! i) = frame_of (cs ! i)" for i
    using f unfolding cs'_def
    by (cases "i = oc_idx oc"; cases "oc_idx oc < length cs") (auto simp: list_update_beyond)
  then have same: "top_export (cs' ! i) = top_export (cs ! i)" "c_Depth (cs' ! i) = c_Depth (cs ! i)"
    "c_Kind (cs' ! i) = c_Kind (cs ! i)" for i
    by (simp_all add: frame_of_def top_export_def)
  have up: "update_top a f = a\<lparr>a_crossings := cs'\<rparr>"
    using Cons by (simp add: update_top_def cs'_def cs_def)
  have "length cs' = length cs" by (simp add: cs'_def)
  then have "root_open cs' gs st = root_open cs gs st" "one_root cs' ends = one_root cs ends"
    "plain_stack cs' st = plain_stack cs st" for gs st ends
    by (simp_all add: root_open_def one_root_def plain_stack_def same)
  then show ?thesis using g update_ok[of newAssembler a f] f by (simp add: grp_ok_def up cs_def)
qed

lemma grp_ok_fields [simp]:
  "grp_ok (a\<lparr>a_sawImportMarker := b\<rparr>) = grp_ok a"
  "grp_ok (a\<lparr>a_hostState := h\<rparr>) = grp_ok a"
  "grp_ok (a\<lparr>a_varNames := vs\<rparr>) = grp_ok a"
  "grp_ok (a\<lparr>a_pending := p\<rparr>) = grp_ok a"
  by (simp_all add: grp_ok_def)

lemma top_update: "asm_from a0 a \<Longrightarrow> top_crossing (update_top a f) = map_option f (top_crossing a)"
  by (cases "a_stack a") (auto simp: top_crossing_def update_top_def asm_from_def asm_ok_def)

text \<open>A result run only pops an import: the label of an export does not read as an import.\<close>

lemma ret_top_import:
  assumes "grp_ok a" "top_label a = Some l" "parseImportLabel l \<noteq> None"
  shows "\<exists>c. top_crossing a = Some c \<and> c_Kind c = CrossingImport"
  using assms by (cases "a_stack a")
    (auto simp: top_label_def top_crossing_def grp_ok_def plain_stack_def plain_name_def intro: CrossingKind.exhaust)

lemma apply_run_grp: "grp_ok a \<Longrightarrow> res_ok grp_ok (apply_run a run)"
proof -
  assume g: "grp_ok a"
  define b where "b = closeDanglingImports a (if vn_role run = Ret then vn_label run else []) False"
  define u where "u = update_top b (\<lambda>c. c\<lparr>c_Results := vn_values run, c_hasResults := True\<rparr>)"
  have b: "grp_ok b" unfolding b_def using g by (rule closeDangling_grp)
  have u: "grp_ok u" unfolding u_def by (rule update_grp[OF b]) simp
  have "grp_ok (pop_top u)" if l: "top_label b = Some (vn_label run)" "parseImportLabel (vn_label run) \<noteq> None"
  proof -
    obtain c where "top_crossing b = Some c" "c_Kind c = CrossingImport"
      using ret_top_import[OF b l] by blast
    moreover have "asm_from newAssembler b" using b by (simp add: grp_ok_def)
    ultimately have "top_crossing u = Some (c\<lparr>c_Results := vn_values run, c_hasResults := True\<rparr>)"
      "c_Kind c = CrossingImport" unfolding u_def by (auto simp: top_update)
    then show ?thesis by (auto intro: pop_grp[OF u])
  qed
  with b u show ?thesis unfolding apply_run_def b_def[symmetric] u_def[symmetric] Let_def
    by (auto simp: entry_import intro!: open_grp update_grp append_import_grp split: role.split option.split)
qed

lemma closeRun_grp: "grp_ok a \<Longrightarrow> res_ok grp_ok (closeRun a)"
  by (auto simp: closeRun_def intro!: apply_run_grp split: option.split)

lemma openMarked_grp: "grp_ok a \<Longrightarrow> grp_ok (openMarkedImport a n)"
  by (auto simp: openMarkedImport_def entry_import intro!: open_grp update_grp split: option.split)

lemma closeMarked_grp: "grp_ok a \<Longrightarrow> res_ok grp_ok (closeMarkedImport a n)"
  by (auto simp: closeMarkedImport_def intro: pop_grp split: option.split)

lemma pushEvent_grp: "grp_ok a \<Longrightarrow> res_ok grp_ok (pushEvent fo js a ev)"
  unfolding pushEvent_def Let_def
  by (rule res_ok_bind[OF closeRun_grp], assumption)
    (auto intro!: openMarked_grp closeMarked_grp split: sum.split option.split)

lemma pushValue_grp: "grp_ok a \<Longrightarrow> res_ok grp_ok (pushValue a vr)"
  by (auto simp: pushValue_def extend_run_def Let_def intro!: closeRun_grp res_ok_bind[of grp_ok]
      split: sum.split option.split)

text \<open>Between the \<open>Return\<close> of a top-level export and the note of its group boundary.\<close>

definition grp_closing :: "assembler \<Rightarrow> bool" where
  "grp_closing a \<longleftrightarrow> grp_ok a \<or> a_stack a = [] \<and> a_pending a = None \<and> asm_from newAssembler a \<and>
     (\<forall>f\<in>set (a_functions a). plain_name (fr_Name f)) \<and> one_root (a_crossings a) (a_groupEnds a)"

lemma pending_ops [simp]:
  "a_pending (closeDanglingImports a k f) = a_pending a" "a_pending (pop_top a) = a_pending a"
  "a_pending (append_crossing a c) = a_pending a" "a_pending (open_crossing a c l) = a_pending a"
  "a_pending (update_top a g) = a_pending a"
  by (simp_all add: closeDanglingImports_def pop_top_def append_crossing_def open_crossing_def
      update_top_def split: list.split)

lemma closeRun_pending: "closeRun a = Inr a' \<Longrightarrow> a_pending a' = None"
  by (auto simp: closeRun_def apply_run_def Let_def split: option.splits role.splits if_splits)

lemma pop_closing:
  assumes "grp_ok a" "a_pending a = None" "a_stack a \<noteq> []"
  shows "grp_closing (pop_top a)"
proof (cases "tl (a_stack a) = []")
  case True
  with assms pop_ok[of newAssembler a] show ?thesis by (auto simp: grp_closing_def grp_ok_def pop_top_def)
next
  case False
  then have "last (tl (a_stack a)) = last (a_stack a)" by (simp add: last_tl)
  then have "root_open (a_crossings a) (a_groupStart a) (tl (a_stack a))"
    using False assms(1) by (simp add: grp_ok_def root_open_def)
  with assms pop_ok[of newAssembler a] have "grp_ok (pop_top a)"
    by (cases "a_stack a") (auto simp: grp_ok_def pop_top_def plain_stack_def)
  then show ?thesis by (simp add: grp_closing_def)
qed

definition plain_event :: "traceEvent \<Rightarrow> bool" where
  "plain_event ev \<longleftrightarrow> (case te_Function ev of None \<Rightarrow> True | Some f \<Rightarrow> plain_name (fr_Name f))"

lemma closeRun_grp_pending: "grp_ok a \<Longrightarrow> res_ok (\<lambda>a. grp_ok a \<and> a_pending a = None) (closeRun a)"
  using closeRun_grp[of a] closeRun_pending[of a] by (cases "closeRun a") auto

lemma push_return_grp:
  "grp_ok a \<Longrightarrow> a_pending a = None \<Longrightarrow> top_crossing (closeDanglingImports a k f) = Some c \<Longrightarrow>
   grp_closing (pop_top (closeDanglingImports a k f))"
  by (intro pop_closing closeDangling_grp) (auto simp: top_crossing_def split: list.splits)

lemma push_record_grp:
  assumes "grp_ok a" "plain_event ev"
  shows "res_ok grp_closing (push_record fo js a ev)"
proof -
  have w: "res_ok grp_ok r \<Longrightarrow> res_ok grp_closing r" for r :: "asm_error + assembler"
    by (erule res_ok_mono) (simp add: grp_closing_def)
  have f: "grp_closing (x\<lparr>a_functions := a_functions x @ [g]\<rparr>)" if "grp_ok x" "plain_name (fr_Name g)" for x g
    using that by (auto simp: grp_closing_def grp_ok_def)
  have v: "grp_closing (a\<lparr>a_varNames := vs\<rparr>)" for vs using assms by (simp add: grp_closing_def)
  have c: "grp_closing (open_crossing x (blank_crossing\<lparr>c_Kind := CrossingExport, c_Name := n\<rparr>) n)"
    if "grp_ok x" "plain_name n" for x n
    using open_grp[OF that(1)] that(2) by (auto simp: grp_closing_def entry_import)
  have nm: "plain_name (fr_Name (a_functions x ! i))" if "grp_ok x" "i < length (a_functions x)" for x i
    using that by (auto simp: grp_ok_def)
  show ?thesis using assms unfolding plain_event_def
    by (intro push_record_split) (auto intro!: w[OF pushValue_grp] w[OF pushEvent_grp] w[OF closeRun_grp] f v c nm
        push_return_grp res_ok_bind[OF closeRun_grp_pending] simp: grp_closing_def[of a] split: option.splits)
qed

lemma boundary_grp: "grp_closing a \<Longrightarrow> grp_ok (noteGroupBoundary a)"
proof -
  assume c: "grp_closing a"
  have inv: "asm_from newAssembler (noteGroupBoundary a)" "ends_ok (a_groupStart a) (a_groupEnds a)"
    using c boundary_ok[of newAssembler a] by (auto simp: grp_closing_def grp_ok_def asm_from_def asm_ok_def)
  have "one_root (a_crossings a) (a_groupEnds a @ [n])" if "one_root (a_crossings a) (a_groupEnds a)" for n
    using that by (auto simp: one_root_def)
  with c inv show ?thesis
    by (auto simp: grp_closing_def noteGroupBoundary_def grp_ok_def root_open_def plain_stack_def split: if_splits)
qed

lemma push_grp: "grp_ok a \<Longrightarrow> plain_event ev \<Longrightarrow> res_ok grp_ok (push fo js a ev)"
  unfolding push_def by (rule res_ok_bind[OF push_record_grp]) (auto intro: boundary_grp)


definition cut :: "nat list \<Rightarrow> nat \<Rightarrow> nat" where
  "cut ends i = (0 # ends) ! i"

lemma group_cut: "group a i = slice (cut (a_groupEnds a) i) (a_groupEnds a ! i - cut (a_groupEnds a) i) (a_crossings a)"
  by (cases i) (simp_all add: group_def cut_def Let_def)

lemma cut_less: "ends_ok gs ends \<Longrightarrow> i < length ends \<Longrightarrow> cut ends i < ends ! i"
  using sorted_wrt_nth_less[of "(<)" "0 # ends" i "Suc i"] by (simp add: ends_ok_def cut_def)

lemma cut_next: "i < length ends \<Longrightarrow> cut ends (Suc i) = ends ! i"
  by (simp add: cut_def)

lemma groups_concat:
  assumes "ends_ok gs (a_groupEnds a)" "i \<le> groups a"
  shows "concat (map (group a) [0..<i]) = take (cut (a_groupEnds a) i) (a_crossings a)"
  using assms(2)
proof (induction i)
  case (Suc i)
  then have "i < length (a_groupEnds a)" by (simp add: groups_def)
  with cut_less[OF assms(1) this] Suc show ?case
    by (simp add: group_cut cut_next slice_def) (metis le_add_diff_inverse less_imp_le take_add)
qed (simp add: cut_def)

lemma ends_bound: "asm_from a0 a \<Longrightarrow> i < groups a \<Longrightarrow> a_groupEnds a ! i \<le> length (a_crossings a)"
  using ends_le[of "a_groupStart a" "a_groupEnds a" "a_groupEnds a ! i"]
  by (auto simp: asm_from_def asm_ok_def groups_def)

lemma group_root:
  assumes "asm_from a0 a" "i < groups a"
  shows "group a i \<noteq> [] \<and> c_Depth (hd (group a i)) = 0"
proof -
  have e: "ends_ok (a_groupStart a) (a_groupEnds a)" "roots_ok (a_groupEnds a) (a_crossings a)"
    using assms by (auto simp: asm_from_def asm_ok_def)
  have lt: "cut (a_groupEnds a) i < a_groupEnds a ! i" and le: "a_groupEnds a ! i \<le> length (a_crossings a)"
    using cut_less[OF e(1)] ends_bound[OF assms] assms(2) by (auto simp: groups_def)
  have "cut (a_groupEnds a) i \<in> set (0 # a_groupEnds a)"
    using assms(2) unfolding cut_def groups_def by (intro nth_mem) simp
  then have "c_Depth (a_crossings a ! cut (a_groupEnds a) i) = 0" using e(2) lt le by (auto simp: roots_ok_def)
  with lt le show ?thesis by (auto simp: group_cut slice_def hd_drop_conv_nth)
qed

lemma one_top_filter:
  "(\<And>i j. i < j \<Longrightarrow> j < length xs \<Longrightarrow> P (xs ! i) \<Longrightarrow> \<not> P (xs ! j)) \<Longrightarrow> length (filter P xs) \<le> 1"
proof (induction xs)
  case (Cons x xs)
  have IH: "length (filter P xs) \<le> 1"
    by (rule Cons.IH) (use Cons.prems[of "Suc _" "Suc _"] in auto)
  have "filter P xs = []" if "P x"
    using Cons.prems[of 0 "Suc _"] that by (auto simp: filter_empty_conv in_set_conv_nth)
  with IH show ?case by auto
qed simp

lemma group_one_export:
  assumes g: "grp_ok a" and i: "i < groups a"
  shows "length (filter top_export (group a i)) \<le> 1"
proof (rule one_top_filter)
  fix p q assume pq: "p < q" "q < length (group a i)" "top_export (group a i ! p)"
  let ?s = "cut (a_groupEnds a) i"
  have e: "ends_ok (a_groupStart a) (a_groupEnds a)" and o: "one_root (a_crossings a) (a_groupEnds a)"
    using g by (auto simp: grp_ok_def asm_from_def asm_ok_def)
  have nth: "group a i ! k = a_crossings a ! (?s + k)" if "k \<le> q" for k
    using pq(2) that unfolding group_cut by (intro slice_nth) auto
  have q: "?s + q < a_groupEnds a ! i" "?s + q < length (a_crossings a)"
    using pq(2) by (auto simp: group_cut)
  have "\<not> (?s + p < b \<and> b \<le> ?s + q)" if b: "b \<in> set (a_groupEnds a)" for b
  proof
    assume lt: "?s + p < b \<and> b \<le> ?s + q"
    obtain k where k: "k < length (a_groupEnds a)" "b = a_groupEnds a ! k" using b by (auto simp: in_set_conv_nth)
    have mono: "sorted_wrt (<) (a_groupEnds a)" using e by (simp add: ends_ok_def)
    show False
    proof (cases "k < i")
      case True
      then have "b \<le> ?s"
        using k i mono unfolding cut_def groups_def
        by (cases i) (auto simp: le_less sorted_wrt_iff_nth_less less_Suc_eq)
      with lt show False by simp
    next
      case False
      then have "a_groupEnds a ! i \<le> b"
        using k mono by (cases "k = i") (auto simp: sorted_wrt_iff_nth_less intro: less_imp_le)
      with lt q show False by simp
    qed
  qed
  then have "c_Depth (a_crossings a ! (?s + q)) > 0"
    using o pq q nth[of p] unfolding one_root_def by (metis add_less_cancel_left less_imp_le)
  then show "\<not> top_export (group a i ! q)" using nth[of q] by (simp add: top_export_def)
qed

subsection \<open>The format witness\<close>

definition marked :: "assembler \<Rightarrow> bool" where
  "marked a \<longleftrightarrow> True \<in> set (map c_markerBracketed (a_crossings a))"

definition wit_ok :: "float_ops \<Rightarrow> assembler \<Rightarrow> bool" where
  "wit_ok fo a \<longleftrightarrow> asm_from newAssembler a \<and> a_sawImportMarker a = marked a \<and> valid_state fo (a_hostState a)"

lemma wit_fields [simp]:
  "wit_ok fo (a\<lparr>a_pending := p\<rparr>) = wit_ok fo a" "wit_ok fo (a\<lparr>a_functions := fs\<rparr>) = wit_ok fo a"
  "wit_ok fo (a\<lparr>a_varNames := vs\<rparr>) = wit_ok fo a"
  by (simp_all add: wit_ok_def marked_def)

lemma update_marked:
  assumes "asm_from a0 a"
  shows "(\<And>c. c_markerBracketed (f c) = c_markerBracketed c) \<Longrightarrow> marked (update_top a f) = marked a"
    and "a_stack a \<noteq> [] \<Longrightarrow> (\<And>c. c_markerBracketed (f c)) \<Longrightarrow> marked (update_top a f)"
proof -
  show "marked (update_top a f) = marked a" if f: "\<And>c. c_markerBracketed (f c) = c_markerBracketed c"
  proof (cases "a_stack a")
    case (Cons oc rest)
    then have "oc_idx oc < length (a_crossings a)" using assms by (simp add: asm_from_def asm_ok_def)
    then have "map c_markerBracketed (a_crossings (update_top a f)) = map c_markerBracketed (a_crossings a)"
      using Cons f by (simp add: update_top_def map_update list_update_same_conv)
    then show ?thesis by (simp only: marked_def)
  qed (simp add: update_top_def)
  show "marked (update_top a f)" if "a_stack a \<noteq> []" and f: "\<And>c. c_markerBracketed (f c)"
  proof -
    obtain oc rest where s: "a_stack a = oc # rest" using \<open>a_stack a \<noteq> []\<close> by (cases "a_stack a") auto
    then have "oc_idx oc < length (a_crossings a)" using assms by (simp add: asm_from_def asm_ok_def)
    then have "f (a_crossings a ! oc_idx oc) \<in> set (a_crossings (update_top a f))"
      using s by (simp add: update_top_def set_update_memI)
    then show ?thesis using f by (force simp: marked_def)
  qed
qed

lemma ops_fields [simp]:
  "a_sawImportMarker (noteGroupBoundary a) = a_sawImportMarker a" "a_hostState (noteGroupBoundary a) = a_hostState a"
  "a_crossings (noteGroupBoundary a) = a_crossings a"
  "a_sawImportMarker (closeDanglingImports a k f) = a_sawImportMarker a"
  "a_hostState (closeDanglingImports a k f) = a_hostState a" "a_crossings (closeDanglingImports a k f) = a_crossings a"
  "a_sawImportMarker (pop_top a) = a_sawImportMarker a" "a_hostState (pop_top a) = a_hostState a"
  "a_crossings (pop_top a) = a_crossings a"
  "a_sawImportMarker (append_crossing a c) = a_sawImportMarker a" "a_hostState (append_crossing a c) = a_hostState a"
  "a_sawImportMarker (open_crossing a c l) = a_sawImportMarker a" "a_hostState (open_crossing a c l) = a_hostState a"
  "a_sawImportMarker (update_top a g) = a_sawImportMarker a" "a_hostState (update_top a g) = a_hostState a"
  "marked (noteGroupBoundary a) = marked a" "marked (closeDanglingImports a k f) = marked a" "marked (pop_top a) = marked a"
  "marked (append_crossing a c) \<longleftrightarrow> marked a \<or> c_markerBracketed c"
  "marked (open_crossing a c l) \<longleftrightarrow> marked a \<or> c_markerBracketed c"
  by (auto simp: noteGroupBoundary_def closeDanglingImports_def pop_top_def append_crossing_def
      open_crossing_def update_top_def marked_def split: list.split)

lemma ops_wit:
  "wit_ok fo a \<Longrightarrow> wit_ok fo (closeDanglingImports a k f)"
  "wit_ok fo a \<Longrightarrow> wit_ok fo (pop_top a)"
  "wit_ok fo a \<Longrightarrow> \<not> c_markerBracketed c \<Longrightarrow> wit_ok fo (append_crossing a c)"
  "wit_ok fo a \<Longrightarrow> \<not> c_markerBracketed c \<Longrightarrow> entry_ok \<lparr>oc_idx = length (a_crossings a), oc_label = l\<rparr> c \<Longrightarrow>
     wit_ok fo (open_crossing a c l)"
  "wit_ok fo a \<Longrightarrow> wit_ok fo (noteGroupBoundary a)"
  by (simp_all add: wit_ok_def asm_pres)

lemma update_wit:
  "wit_ok fo a \<Longrightarrow> (\<And>c. c_markerBracketed (f c) = c_markerBracketed c) \<Longrightarrow>
   (\<And>c. frame_of (f c) = frame_of c) \<Longrightarrow> wit_ok fo (update_top a f)"
  using update_ok[of newAssembler a f] update_marked(1)[of newAssembler a f]
  by (auto simp: wit_ok_def)

lemma blank_unmarked [simp]: "\<not> c_markerBracketed blank_crossing"
  by (simp add: blank_crossing_def)

lemma closeRun_wit: "wit_ok fo a \<Longrightarrow> res_ok (wit_ok fo) (closeRun a)"
  by (auto simp: closeRun_def apply_run_def Let_def entry_import
      intro!: ops_wit update_wit split: role.split option.split)


lemma openMarked_wit:
  assumes "wit_ok fo a"
  shows "wit_ok fo (openMarkedImport (a\<lparr>a_sawImportMarker := True\<rparr>) n)"
proof -
  let ?a = "a\<lparr>a_sawImportMarker := True\<rparr>"
  have a: "asm_from newAssembler ?a" "valid_state fo (a_hostState a)" using assms by (auto simp: wit_ok_def)
  have "marked (openMarkedImport ?a n)"
  proof (cases "top_crossing ?a")
    case None
    then show ?thesis by (simp add: openMarkedImport_def marked_def open_crossing_def append_crossing_def)
  next
    case (Some c)
    then have "marked (update_top ?a (c_markerBracketed_update (\<lambda>_. True)))"
      by (intro update_marked(2)[OF a(1)]) (auto simp: top_crossing_def)
    then show ?thesis using Some by (simp add: openMarkedImport_def marked_def open_crossing_def append_crossing_def)
  qed
  moreover have "a_sawImportMarker (openMarkedImport ?a n)" "a_hostState (openMarkedImport ?a n) = a_hostState a"
    by (simp_all add: openMarkedImport_def open_crossing_def append_crossing_def update_top_def split: option.split list.split)
  ultimately show ?thesis using a openMarked_ok[OF a(1)] by (simp add: wit_ok_def)
qed

lemma closeMarked_wit:
  assumes "wit_ok fo a"
  shows "res_ok (wit_ok fo) (closeMarkedImport (a\<lparr>a_sawImportMarker := True\<rparr>) n)"
proof (cases "closeMarkedImport (a\<lparr>a_sawImportMarker := True\<rparr>) n")
  case (Inr b)
  then obtain oc rest where oc: "a_stack a = oc # rest" "c_markerBracketed (a_crossings a ! oc_idx oc)"
    and b: "b = pop_top (a\<lparr>a_sawImportMarker := True\<rparr>)"
    by (auto simp: closeMarkedImport_def top_crossing_def split: option.splits list.splits if_splits)
  have "oc_idx oc < length (a_crossings a)" using assms oc(1) by (simp add: wit_ok_def asm_from_def asm_ok_def)
  then have "a_crossings a ! oc_idx oc \<in> set (a_crossings a)" by simp
  with oc(2) have "marked a" by (force simp: marked_def)
  then have "wit_ok fo (a\<lparr>a_sawImportMarker := True\<rparr>)" using assms by (simp add: wit_ok_def marked_def)
  then show ?thesis unfolding Inr b by (simp add: ops_wit)
qed simp

lemma host_wit: "wit_ok fo a \<Longrightarrow> foldHostStateMarker fo (a_hostState a) m = Inr h \<Longrightarrow> wit_ok fo (a\<lparr>a_hostState := h\<rparr>)"
  by (auto simp: wit_ok_def marked_def dest: host_fold.step_inv)

lemma pushEvent_wit: "wit_ok fo a \<Longrightarrow> res_ok (wit_ok fo) (pushEvent fo js a ev)"
  unfolding pushEvent_def Let_def
  by (rule res_ok_bind[OF closeRun_wit], assumption)
    (auto intro!: openMarked_wit closeMarked_wit intro: host_wit split: sum.split option.split)

lemma pushValue_wit: "wit_ok fo a \<Longrightarrow> res_ok (wit_ok fo) (pushValue a vr)"
  by (auto simp: pushValue_def extend_run_def Let_def intro!: closeRun_wit res_ok_bind[of "wit_ok fo"]
      split: sum.split option.split)

lemma push_wit: "wit_ok fo a \<Longrightarrow> res_ok (wit_ok fo) (push fo js a ev)"
proof -
  assume a: "wit_ok fo a"
  have "res_ok (wit_ok fo) (push_record fo js a ev)"
    using a by (intro push_record_split)
      (auto simp: entry_import intro!: ops_wit(1,2,4) res_ok_bind[OF closeRun_wit] closeRun_wit pushValue_wit pushEvent_wit
        split: option.split)
  then show ?thesis unfolding push_def by (rule res_ok_bind) (auto intro: ops_wit)
qed

interpretation wit: step_invariant "push fo js" "wit_ok fo"
  by unfold_locales (rule res_okD[OF push_wit])

lemma finish_wit: "wit_ok fo a \<Longrightarrow> res_ok (wit_ok fo) (finish a)"
  unfolding finish_def Let_def by (rule res_ok_bind[OF closeRun_wit]) (auto intro!: ops_wit)

lemma new_ok: "asm_from newAssembler newAssembler" "grp_ok newAssembler" "wit_ok fo newAssembler"
  by (simp_all add: asm_from_def asm_ok_def newAssembler_def seqs_ok_def ends_ok_def roots_ok_def grp_ok_def
      plain_stack_def one_root_def root_open_def wit_ok_def marked_def valid_state_def)

interpretation grp: guarded_steps "push fo js" plain_event grp_ok
  by unfold_locales (rule res_okD[OF push_grp])

lemma finish_grp: "grp_ok a \<Longrightarrow> res_ok (\<lambda>b. grp_ok b \<and> a_groupStart b = length (a_crossings b)) (finish a)"
proof -
  assume "grp_ok a"
  then have "res_ok (\<lambda>a. grp_ok a \<and> a_pending a = None) (closeRun a)" by (rule closeRun_grp_pending)
  then show ?thesis unfolding finish_def Let_def
  proof (rule res_ok_bind)
    fix x assume x: "grp_ok x \<and> a_pending x = None"
    let ?b = "closeDanglingImports x [] True"
    have b: "grp_ok ?b" "a_pending ?b = None" using x by (auto intro: closeDangling_grp)
    then have n: "grp_ok (noteGroupBoundary ?b)" by (intro boundary_grp) (simp add: grp_closing_def)
    have "a_groupStart ?b \<le> length (a_crossings ?b)" using b(1) by (simp add: grp_ok_def asm_from_def asm_ok_def)
    then have "a_groupStart (noteGroupBoundary ?b) = length (a_crossings (noteGroupBoundary ?b))" if "a_stack ?b = []"
      using that b(2) by (simp add: noteGroupBoundary_def del: ops_fields)
    with n show "res_ok (\<lambda>b. grp_ok b \<and> a_groupStart b = length (a_crossings b))
        (if a_stack ?b \<noteq> [] then Inl (Unbalanced (length (a_stack ?b))) else Inr (noteGroupBoundary ?b))" by simp
  qed
qed

lemma groups_all:
  assumes "asm_from a0 a" "a_groupStart a = length (a_crossings a)"
  shows "concat (map (group a) [0..<groups a]) = a_crossings a"
proof -
  have e: "ends_ok (a_groupStart a) (a_groupEnds a)" using assms(1) by (simp add: asm_from_def asm_ok_def)
  then have "cut (a_groupEnds a) (groups a) = a_groupStart a"
    by (simp add: cut_def groups_def ends_ok_def last_conv_nth nth_Cons')
  with groups_concat[OF e order_refl] assms(2) show ?thesis by simp
qed

text \<open>The groups a state has completed stay.\<close>

lemma asm_from_refl: "asm_from a0 a \<Longrightarrow> asm_from a a"
  by (simp add: asm_from_def)

lemma groups_keep:
  assumes a: "asm_from a0 a" and b: "asm_from a b" and "i < groups a"
  shows "i < groups b \<and> group b i = group a i"
proof -
  obtain rest where r: "a_groupEnds b = a_groupEnds a @ rest" using b by (auto simp: asm_from_def prefix_def)
  have i: "i < length (a_groupEnds a)" using assms(3) by (simp add: groups_def)
  have "a_groupEnds a ! i \<le> a_groupStart a"
    using i a ends_le[of "a_groupStart a" "a_groupEnds a" "a_groupEnds a ! i"] by (simp add: asm_from_def asm_ok_def)
  then have "take (a_groupEnds a ! i) (a_crossings b) = take (a_groupEnds a ! i) (a_crossings a)"
    using b unfolding asm_from_def by (metis min.absorb1 take_take)
  moreover have "cut (a_groupEnds b) i = cut (a_groupEnds a) i"
    using r i by (cases i) (simp_all add: cut_def nth_append)
  moreover have "a_groupEnds b ! i = a_groupEnds a ! i" using r i by (simp add: nth_append)
  ultimately have "group b i = group a i" by (simp add: group_cut slice_def drop_take[symmetric])
  then show ?thesis using i r by (simp add: groups_def)
qed

lemma finish_ok: "asm_from a0 a \<Longrightarrow> res_ok (asm_from a0) (finish a)"
  unfolding finish_def Let_def
  by (rule res_ok_bind[OF closeRun_ok]) (auto intro!: boundary_ok closeDangling_ok)

end
