(* ===== verification/Rendering.thy ===== *)
theory Rendering
  imports Assembler
begin

text \<open>
  The properties of the reconstruction of crossings. The producer's rendering of a session, as
  the comment above \<open>reconstructCrossings\<close> in \<open>internal/boundarylog/recording.go\<close> documents it, is a
  function from call trees to records: the specification the assembler is proved against.
  Realm markers of exports are left out of the rendering, since the assembler treats them as
  run delimiters only.
\<close>

section \<open>Definitions\<close>

subsection \<open>The documented rendering\<close>

datatype call =
    ExportCall string "rawValue list" "rawValue list" "call list"
  | ImportCall u32 "rawValue list" "rawValue list" "call list"

definition role_text :: "role \<Rightarrow> string" where
  "role_text r = (case r of Arg \<Rightarrow> '':arg'' | Ret \<Rightarrow> '':ret'')"

definition encode_raw :: "rawValue \<Rightarrow> json" where
  "encode_raw v = JObj ((''kind'', JStr (rv_Kind v)) #
     (if rv_Kind v = ''Int'' then [(''i'', JStr (rv_Text v))]
      else if rv_Kind v = ''Float'' then [(''f'', JStr (rv_Text v))]
      else if rv_Kind v = ''Raw'' then [(''r'', JStr (rv_Text v))]
      else if rv_Kind v = ''String'' then [(''text'', JStr (rv_Text v))]
      else if rv_Kind v = ''Bool'' then [(''b'', JBool (rv_Text v = ''true''))]
      else []))"

definition on_disk :: "rawValue \<Rightarrow> bool" where
  "on_disk v \<longleftrightarrow> rv_Kind v \<in> {''Int'', ''Float'', ''Raw'', ''String''} \<or>
     rv_Kind v = ''Bool'' \<and> rv_Text v \<in> {''true'', ''false''} \<or>
     rv_Kind v \<noteq> ''Bool'' \<and> rv_Text v = []"

definition ev_Function :: "string \<Rightarrow> traceEvent" where
  "ev_Function n = traceEvent0\<lparr>te_Function := Some \<lparr>fr_Name = n, fr_PathID = 0, fr_Line = 0\<rparr>\<rparr>"
definition ev_Call :: "nat \<Rightarrow> traceEvent" where
  "ev_Call i = traceEvent0\<lparr>te_Call := Some \<lparr>cr_FunctionID = word_of_nat i, cr_Args = []\<rparr>\<rparr>"
definition ev_Return :: traceEvent where
  "ev_Return = traceEvent0\<lparr>te_Return := Some \<lparr>rr_ReturnValue = None\<rparr>\<rparr>"
definition ev_Step :: traceEvent where
  "ev_Step = traceEvent0\<lparr>te_Step := Some (JObj [])\<rparr>"
definition ev_VariableName :: "string \<Rightarrow> traceEvent" where
  "ev_VariableName n = traceEvent0\<lparr>te_VariableName := Some n\<rparr>"
definition ev_Value :: "nat \<Rightarrow> rawValue \<Rightarrow> traceEvent" where
  "ev_Value i v = traceEvent0\<lparr>te_Value := Some \<lparr>vr_VariableID = word_of_nat i, vr_Value = Some (encode_raw v)\<rparr>\<rparr>"

definition marker_tree :: "u32 \<Rightarrow> bool \<Rightarrow> json" where
  "marker_tree n enter = JObj [(''boundary_id'', JStr jsWasmRealmBoundary),
     (''direction'', JStr (if enter then markerEnterDirection else markerLeaveDirection)),
     (''show_value'', JStr (importMarkerPrefix @ FormatUint (unat n)))]"

definition ev_Marker :: "string \<Rightarrow> traceEvent" where
  "ev_Marker txt = traceEvent0\<lparr>te_Event := Some (JObj [(''kind'', JNum ''12''),
     (''metadata'', JStr txt), (''content'', JStr [])])\<rparr>"

fun run_events :: "string \<Rightarrow> role \<Rightarrow> nat \<Rightarrow> nat \<Rightarrow> rawValue list \<Rightarrow> traceEvent list" where
  "run_events l r slot nv [] = []"
| "run_events l r slot nv (v # vs) =
     ev_VariableName (l @ role_text r @ FormatUint slot) # ev_Value nv v # run_events l r (Suc slot) (Suc nv) vs"

definition flush :: "string \<Rightarrow> role \<Rightarrow> nat \<Rightarrow> rawValue list \<Rightarrow> traceEvent list" where
  "flush l r nv vs = (if vs = [] then [] else ev_Step # run_events l r 0 nv vs)"

fun vars :: "call list \<Rightarrow> nat" where
  "vars [] = 0"
| "vars (ExportCall n args res body # rest) = length args + vars body + length res + vars rest"
| "vars (ImportCall n args res body # rest) = length args + vars body + length res + vars rest"

text \<open>\<open>fid\<close> numbers the exported functions, \<open>mt n enter\<close> is the metadata text of a realm marker,
  and \<open>nv\<close> counts the variable names already written.\<close>

fun render :: "(string \<Rightarrow> nat) \<Rightarrow> (u32 \<Rightarrow> bool \<Rightarrow> string) \<Rightarrow> nat \<Rightarrow> call list \<Rightarrow> traceEvent list" where
  "render fid mt nv [] = []"
| "render fid mt nv (ExportCall n args res body # rest) =
     ev_Call (fid n) # flush n Arg nv args @ render fid mt (nv + length args) body @
     flush n Ret (nv + length args + vars body) res @ [ev_Return] @
     render fid mt (nv + length args + vars body + length res) rest"
| "render fid mt nv (ImportCall n args res body # rest) =
     flush (importLabel n) Arg nv args @ [ev_Marker (mt n True)] @ render fid mt (nv + length args) body @
     flush (importLabel n) Ret (nv + length args + vars body) res @ [ev_Marker (mt n False)] @
     render fid mt (nv + length args + vars body + length res) rest"

fun calls_ok :: "string list \<Rightarrow> (string \<Rightarrow> nat) \<Rightarrow> call list \<Rightarrow> bool" where
  "calls_ok names fid [] \<longleftrightarrow> True"
| "calls_ok names fid (ExportCall n args res body # rest) \<longleftrightarrow>
     n \<noteq> [] \<and> plain_name n \<and> fid n < length names \<and> names ! fid n = n \<and>
     list_all on_disk args \<and> list_all on_disk res \<and> calls_ok names fid body \<and> calls_ok names fid rest"
| "calls_ok names fid (ImportCall n args res body # rest) \<longleftrightarrow>
     list_all on_disk args \<and> list_all on_disk res \<and> calls_ok names fid body \<and> calls_ok names fid rest"

fun has_import :: "call list \<Rightarrow> bool" where
  "has_import [] \<longleftrightarrow> False"
| "has_import (ExportCall n args res body # rest) \<longleftrightarrow> has_import body \<or> has_import rest"
| "has_import (ImportCall n args res body # rest) \<longleftrightarrow> True"

definition call_crossing :: "nat \<Rightarrow> nat \<Rightarrow> CrossingKind \<Rightarrow> string \<Rightarrow> u32 \<Rightarrow> rawValue list \<Rightarrow> rawValue list \<Rightarrow> Crossing" where
  "call_crossing s d k n i args res = \<lparr>c_Seq = s, c_Depth = d, c_Kind = k, c_Name = n, c_Index = i,
     c_Args = args, c_Results = res, c_hasResults = (res \<noteq> []), c_markerBracketed = (k = CrossingImport)\<rparr>"

text \<open>The crossings a list of calls stands for, from sequence number \<open>s\<close> at depth \<open>d\<close>, one list
  for each call.\<close>

fun trees :: "nat \<Rightarrow> nat \<Rightarrow> call list \<Rightarrow> Crossing list list" where
  "trees s d [] = []"
| "trees s d (ExportCall n args res body # rest) =
     (let t = call_crossing s d CrossingExport n 0 args res # concat (trees (Suc s) (Suc d) body)
      in t # trees (s + length t) d rest)"
| "trees s d (ImportCall n args res body # rest) =
     (let t = call_crossing s d CrossingImport [] n args res # concat (trees (Suc s) (Suc d) body)
      in t # trees (s + length t) d rest)"

section \<open>Lemmas\<close>

lemma raw_encode: "on_disk v \<Longrightarrow>
  \<exists>odv. dec_onDiskValue (encode_raw v) onDiskValue0 = Inr odv \<and> onDiskValue_raw odv = v"
  apply (cases v)
  by (auto simp: on_disk_def encode_raw_def dec_onDiskValue_def dec_struct_def dec_field_def fld_def dec_string_def
     dec_ptr_def dec_bool_def
     onDiskValue0_def onDiskValue_raw_def Let_def)

lemma binding_parse: "l \<noteq> [] \<Longrightarrow> slot < 2 ^ 63 \<Longrightarrow> parseBindingName (l @ role_text r @ FormatUint slot) = Some (l, r, slot)"
  by (cases r) (use parseBindingName_label in \<open>simp_all add: role_text_def\<close>)

lemma dec_marker: "dec_eventRecord (JObj [(''kind'', JNum ''12''),
     (''metadata'', JStr txt), (''content'', JStr [])]) eventRecord0 =
   Inr \<lparr>er_Kind = 12, er_Metadata = txt, er_Content = []\<rparr>"
  by (simp add: dec_eventRecord_def dec_struct_def dec_field_def fld_def dec_string_def dec_int_def
    eventRecord0_def ParseInt_def ParseUint_def digit_val_def)

lemma parse_marker:
  assumes "js txt = Some (marker_tree n en)"
  shows "parseHostStateMarker js (JObj [(''kind'', JNum ''12''), (''metadata'', JStr txt), (''content'', JStr [])]) = Inr None"
    "parseRealmMarker js (JObj [(''kind'', JNum ''12''), (''metadata'', JStr txt), (''content'', JStr [])]) =
      Some \<lparr>rm_kind = CrossingImport, rm_index = n, rm_enter = en\<rparr>"
  using assms ParseUint_FormatUint[OF unat_lt32]
  by (auto simp: parseHostStateMarker_def parseRealmMarker_def dec_marker eventKindTraceLogEvent_def
     unmarshal_text_def dec_hostStateMarker_def dec_markerMetadata_def marker_tree_def dec_struct_def
     dec_field_def fld_def dec_string_def hostStateMarker0_def jsWasmRealmBoundary_def hostStateBoundary_def
     marker_edge_def marker_direction_def markerEnterDirection_def markerLeaveDirection_def)

subsection \<open>Reading the rendering\<close>

definition closing :: "traceEvent list \<Rightarrow> bool" where
  "closing evs = (case evs of [] \<Rightarrow> False | ev # _ \<Rightarrow>
     te_Function ev = None \<and> te_VariableName ev = None \<and> te_Value ev = None \<and>
     (te_Call ev \<noteq> None \<or> te_Event ev \<noteq> None \<or> te_Return ev \<noteq> None \<or> te_Step ev \<noteq> None))"

definition settled :: "assembler \<Rightarrow> bool" where
  "settled a \<longleftrightarrow> a_pending a = None \<and> (a_stack a = [] \<longrightarrow> a_groupStart a = length (a_crossings a))"

definition bracketed_top :: "assembler \<Rightarrow> bool" where
  "bracketed_top a \<longleftrightarrow> (case a_stack a of [] \<Rightarrow> True
     | oc # _ \<Rightarrow> oc_idx oc < length (a_crossings a) \<and>
         (let c = a_crossings a ! oc_idx oc in c_Kind c = CrossingImport \<longrightarrow> c_markerBracketed c))"

lemma closeRun_settled: "a_pending a = None \<Longrightarrow> closeRun a = Inr a"
  by (simp add: closeRun_def)

lemma note_settled: "settled a \<Longrightarrow> noteGroupBoundary a = a"
  by (simp add: settled_def noteGroupBoundary_def)

lemma note_pending: "a_pending a \<noteq> None \<Longrightarrow> noteGroupBoundary a = a"
  by (simp add: noteGroupBoundary_def)

lemma note_open: "a_stack a \<noteq> [] \<Longrightarrow> noteGroupBoundary a = a"
  by (simp add: noteGroupBoundary_def)

lemma closing_settle:
  assumes "closing evs" "closeRun a = Inr b"
  shows "run_steps (push fo js) a evs = run_steps (push fo js) b evs"
proof -
  have "closeRun b = Inr b" using closeRun_pending[OF assms(2)] by (rule closeRun_settled)
  then show ?thesis using assms
    by (cases evs) (auto simp: closing_def push_def push_record_def pushEvent_def split: option.splits)
qed

lemma closing_flush: "closing (flush l r nv vs @ T) \<longleftrightarrow> vs \<noteq> [] \<or> closing T"
  by (simp add: flush_def closing_def ev_Step_def traceEvent0_def)

lemma closing_events [simp]: "closing (ev_Call i # T)" "closing (ev_Return # T)" "closing (ev_Marker t # T)"
  by (simp_all add: closing_def ev_Call_def ev_Return_def ev_Marker_def traceEvent0_def)

lemma closing_render: "closing T \<Longrightarrow> closing (render fid mt nv calls @ T)"
  by (cases calls rule: vars.cases) (auto simp: closing_flush)

definition pend :: "string \<Rightarrow> role \<Rightarrow> rawValue list \<Rightarrow> valueRun option" where
  "pend l r us = (if us = [] then None else Some \<lparr>vn_label = l, vn_role = r, vn_values = us\<rparr>)"

lemma push_VariableName: "push fo js a (ev_VariableName n) = Inr (noteGroupBoundary (a\<lparr>a_varNames := a_varNames a @ [n]\<rparr>))"
  by (simp add: push_def push_record_def ev_VariableName_def traceEvent0_def)

lemma push_Value:
  assumes "a_pending a = pend l r us" "length us < 2 ^ 63" "l \<noteq> []" "on_disk v"
    and "nv < 2 ^ 32" "a_varNames a = vn @ [l @ role_text r @ FormatUint (length us)]" "length vn = nv"
  shows "push fo js a (ev_Value nv v) = Inr (a\<lparr>a_pending := pend l r (us @ [v])\<rparr>)"
proof -
  obtain odv where "dec_onDiskValue (encode_raw v) onDiskValue0 = Inr odv" "onDiskValue_raw odv = v"
    using raw_encode[OF assms(4)] by blast
  moreover have "unat (word_of_nat nv :: u32) = nv" using assms(5) by (simp add: unat_of_nat32)
  ultimately show ?thesis
    using assms binding_parse[OF assms(3,2), of r]
    by (auto simp: push_def push_record_def ev_Value_def traceEvent0_def pushValue_def unmarshal_raw_def
        pend_def extend_run_def note_pending)
qed

lemma run_events_run:
  assumes "settled a" "l \<noteq> []"
  shows "list_all on_disk vs \<Longrightarrow> length us + length vs < 2 ^ 63 \<Longrightarrow> length vn + length vs \<le> 2 ^ 32 \<Longrightarrow>
    \<exists>vn'. length vn' = length vn + length vs \<and>
      run_steps (push fo js) (a\<lparr>a_varNames := vn, a_pending := pend l r us\<rparr>) (run_events l r (length us) (length vn) vs) =
      Inr (a\<lparr>a_varNames := vn', a_pending := pend l r (us @ vs)\<rparr>)"
proof (induction vs arbitrary: us vn)
  case Nil
  then show ?case by (auto intro: exI[of _ vn])
next
  case (Cons v vs)
  let ?n = "l @ role_text r @ FormatUint (length us)"
  have 1: "push fo js (a\<lparr>a_varNames := vn, a_pending := pend l r us\<rparr>) (ev_VariableName ?n) =
      Inr (a\<lparr>a_varNames := vn @ [?n], a_pending := pend l r us\<rparr>)"
    using assms(1) by (simp add: push_VariableName noteGroupBoundary_def settled_def pend_def)
  have 2: "push fo js (a\<lparr>a_varNames := vn @ [?n], a_pending := pend l r us\<rparr>) (ev_Value (length vn) v) =
      Inr (a\<lparr>a_varNames := vn @ [?n], a_pending := pend l r (us @ [v])\<rparr>)"
    using Cons.prems assms(2) by (subst push_Value[of _ l r us]) auto
  have "\<exists>vn'. length vn' = length (vn @ [?n]) + length vs \<and>
      run_steps (push fo js) (a\<lparr>a_varNames := vn @ [?n], a_pending := pend l r (us @ [v])\<rparr>)
        (run_events l r (length (us @ [v])) (length (vn @ [?n])) vs) =
      Inr (a\<lparr>a_varNames := vn', a_pending := pend l r ((us @ [v]) @ vs)\<rparr>)"
    using Cons.prems by (intro Cons.IH) auto
  then show ?case by (simp add: 1 2)
qed

text \<open>A flushed run followed by a record that closes it applies the run.\<close>

lemma flush_then:
  assumes "settled a" "l \<noteq> []" "list_all on_disk vs" "length (a_varNames a) + length vs \<le> 2 ^ 32" "closing T"
    and run: "\<And>vn. vs \<noteq> [] \<Longrightarrow> apply_run (a\<lparr>a_varNames := vn\<rparr>) \<lparr>vn_label = l, vn_role = r, vn_values = vs\<rparr> =
        Inr (b\<lparr>a_varNames := vn\<rparr>)"
    and same: "vs = [] \<Longrightarrow> b = a"
  shows "\<exists>vn. length vn = length (a_varNames a) + length vs \<and>
    run_steps (push fo js) a (flush l r (length (a_varNames a)) vs @ T) =
    run_steps (push fo js) (b\<lparr>a_varNames := vn\<rparr>) T"
proof (cases "vs = []")
  case True
  then show ?thesis using same by (intro exI[of _ "a_varNames a"]) (simp add: flush_def)
next
  case False
  let ?nv = "length (a_varNames a)"
  have small: "length ([] :: rawValue list) + length vs < 2 ^ 63"
    using assms(4) by simp
  from run_events_run[OF assms(1,2,3) small, where vn = "a_varNames a" and fo = fo and js = js and r = r] assms(4)
  obtain vn where vn: "length vn = ?nv + length vs"
    "run_steps (push fo js) (a\<lparr>a_pending := pend l r []\<rparr>) (run_events l r 0 ?nv vs) =
      Inr (a\<lparr>a_varNames := vn, a_pending := pend l r vs\<rparr>)"
    by auto
  have p: "a\<lparr>a_pending := pend l r []\<rparr> = a" using assms(1) by (simp add: pend_def settled_def)
  have st: "push fo js a ev_Step = Inr a"
    using assms(1) note_settled[OF assms(1)]
    by (simp add: push_def push_record_def ev_Step_def traceEvent0_def closeRun_settled settled_def)
  have "a\<lparr>a_varNames := vn, a_pending := None\<rparr> = a\<lparr>a_varNames := vn\<rparr>"
    using assms(1) by (simp add: settled_def)
  then have "closeRun (a\<lparr>a_varNames := vn, a_pending := pend l r vs\<rparr>) = Inr (b\<lparr>a_varNames := vn\<rparr>)"
    using False run[of vn] by (simp add: closeRun_def pend_def)
  from closing_settle[OF assms(5) this] show ?thesis
    using False st vn unfolding p by (intro exI[of _ vn]) (simp add: flush_def run_steps_append)
qed


text \<open>The state inside a call that has recorded the crossings \<open>X\<close>, its own first.\<close>

definition inside :: "assembler \<Rightarrow> Crossing list \<Rightarrow> string \<Rightarrow> assembler" where
  "inside a X l = a\<lparr>a_crossings := a_crossings a @ X,
     a_stack := \<lparr>oc_idx = length (a_crossings a), oc_label = l\<rparr> # a_stack a\<rparr>"

lemma inside_simps [simp]:
  "update_top (inside a (c # X) l) f = inside a (f c # X) l"
  "pop_top (inside a X l) = a\<lparr>a_crossings := a_crossings a @ X\<rparr>"
  "top_crossing (inside a (c # X) l) = Some c"
  "top_label (inside a (c # X) l) = Some l"
  "a_pending (inside a X l) = a_pending a" "a_varNames (inside a X l) = a_varNames a"
  "a_stack (inside a X l) \<noteq> []" "a_functions (inside a X l) = a_functions a"
  "a_sawImportMarker (inside a X l) = a_sawImportMarker a"
  "(inside a X l)\<lparr>a_varNames := vn\<rparr> = inside (a\<lparr>a_varNames := vn\<rparr>) X l"
  "(inside a X l)\<lparr>a_sawImportMarker := b\<rparr> = inside (a\<lparr>a_sawImportMarker := b\<rparr>) X l"
  "settled (inside a X l) \<longleftrightarrow> a_pending a = None"
  by (simp_all add: inside_def update_top_def pop_top_def top_crossing_def top_label_def settled_def)

lemma open_inside: "open_crossing a c l =
    inside a [c\<lparr>c_Seq := length (a_crossings a), c_Depth := length (a_stack a)\<rparr>] l"
  by (simp add: open_crossing_def append_crossing_def inside_def)

definition cumul :: "nat \<Rightarrow> 'a list list \<Rightarrow> nat list" where
  "cumul s ts = map (\<lambda>i. s + length (concat (take (Suc i) ts))) [0..<length ts]"

lemma cumul_Nil [simp]: "cumul s [] = []"
  by (simp add: cumul_def)

lemma cumul_Cons [simp]: "cumul s (t # ts) = (s + length t) # cumul (s + length t) ts"
  unfolding cumul_def by (simp add: upt_conv_Cons map_Suc_upt[symmetric] add.assoc del: upt_Suc)

definition after :: "assembler \<Rightarrow> call list \<Rightarrow> string list \<Rightarrow> assembler" where
  "after a calls vn =
     (let ts = trees (length (a_crossings a)) (length (a_stack a)) calls; root = (a_stack a = []) in
      a\<lparr>a_crossings := a_crossings a @ concat ts, a_varNames := vn,
        a_sawImportMarker := (a_sawImportMarker a \<or> has_import calls),
        a_groupStart := (if root then length (a_crossings a @ concat ts) else a_groupStart a),
        a_groupEnds := a_groupEnds a @ (if root then cumul (length (a_crossings a)) ts else [])\<rparr>)"

lemma after_Nil: "settled a \<Longrightarrow> after a [] (a_varNames a) = a"
  by (rule assembler.equality) (simp_all add: after_def settled_def Let_def)

lemma after_Cons: "after (after a [c] vn) rest vn' = after a (c # rest) vn'"
  by (cases c) (simp_all add: after_def Let_def add.assoc)

lemma after_inside: "after (inside a [c] l) body vn =
    inside (a\<lparr>a_varNames := vn, a_sawImportMarker := (a_sawImportMarker a \<or> has_import body)\<rparr>)
      (c # concat (trees (Suc (length (a_crossings a))) (Suc (length (a_stack a))) body)) l"
  by (simp add: after_def inside_def Let_def)

lemma after_fields:
  "settled a \<Longrightarrow> settled (after a [c] vn)" "a_functions (after a calls vn) = a_functions a"
  "a_varNames (after a calls vn) = vn" "bracketed_top a \<Longrightarrow> bracketed_top (after a calls vn)"
  by (auto simp: after_def settled_def Let_def bracketed_top_def nth_append split: list.splits)

lemma bracketed_inside [simp]:
  "bracketed_top (inside a (c # X) l) \<longleftrightarrow> (c_Kind c = CrossingImport \<longrightarrow> c_markerBracketed c)"
  by (simp add: bracketed_top_def inside_def Let_def)

lemma bracketed_closeDangling: "bracketed_top a \<Longrightarrow> closeDanglingImports a k False = a"
  by (cases "a_stack a") (auto simp: bracketed_top_def closeDanglingImports_def top_crossing_def Let_def)

lemma bracketed_vars [simp]: "bracketed_top (a\<lparr>a_varNames := vn\<rparr>) = bracketed_top a"
  "bracketed_top (a\<lparr>a_sawImportMarker := b\<rparr>) = bracketed_top a"
  by (simp_all add: bracketed_top_def split: list.split)

lemma settled_vars [simp]: "settled (a\<lparr>a_varNames := vn\<rparr>) = settled a"
  "settled (a\<lparr>a_sawImportMarker := b\<rparr>) = settled a"
  by (simp_all add: settled_def)

lemma run_closing: "run_steps f a (x # xs) = bind_res (f a x) (\<lambda>b. run_steps f b xs)"
  by simp

lemma push_Call:
  assumes "settled a" "i < length (a_functions a)" "fr_Name (a_functions a ! i) = n" "i < 2 ^ 32"
  shows "push fo js a (ev_Call i) =
    Inr (inside a [call_crossing (length (a_crossings a)) (length (a_stack a)) CrossingExport n 0 [] []] n)"
  using assms by (simp add: push_def push_record_def ev_Call_def traceEvent0_def closeRun_settled settled_def
      unat_of_nat32 open_inside note_open call_crossing_def blank_crossing_def)

lemma call_crossing_simps [simp]:
  "(call_crossing s d k n i x y)\<lparr>c_Args := z\<rparr> = call_crossing s d k n i z y"
  "z \<noteq> [] \<Longrightarrow> (call_crossing s d k n i x y)\<lparr>c_Results := z, c_hasResults := True\<rparr> = call_crossing s d k n i x z"
  "(call_crossing s d CrossingImport n i x y)\<lparr>c_markerBracketed := True\<rparr> = call_crossing s d CrossingImport n i x y"
  "c_Kind (call_crossing s d k n i x y) = k" "c_Index (call_crossing s d k n i x y) = i"
  "c_markerBracketed (call_crossing s d k n i x y) = (k = CrossingImport)"
  by (simp_all add: call_crossing_def)

lemma arg_runs:
  shows "plain_name n \<Longrightarrow> c_Kind c = CrossingExport \<Longrightarrow>
      apply_run (inside a [c] n) \<lparr>vn_label = n, vn_role = Arg, vn_values = vs\<rparr> = Inr (inside a [c\<lparr>c_Args := vs\<rparr>] n)"
    and "bracketed_top a \<Longrightarrow> apply_run a \<lparr>vn_label = importLabel m, vn_role = Arg, vn_values = vs\<rparr> =
      Inr (inside a [(call_crossing (length (a_crossings a)) (length (a_stack a)) CrossingImport [] m vs [])\<lparr>c_markerBracketed := False\<rparr>]
        (importLabel m))"
  by (simp_all add: apply_run_def bracketed_closeDangling plain_name_def open_inside call_crossing_def blank_crossing_def)

lemma ret_run:
  assumes "plain_name l \<and> c_Kind c = CrossingExport \<or> c_markerBracketed c"
  shows "apply_run (inside a (c # X) l) \<lparr>vn_label = l, vn_role = Ret, vn_values = vs\<rparr> =
      Inr (inside a (c\<lparr>c_Results := vs, c_hasResults := True\<rparr> # X) l)"
  using assms by (auto simp: apply_run_def bracketed_closeDangling plain_name_def)

lemma push_Return:
  "c_Kind c = CrossingExport \<Longrightarrow> a_pending a = None \<Longrightarrow>
   push fo js (inside a (c # X) l) ev_Return = Inr (noteGroupBoundary (a\<lparr>a_crossings := a_crossings a @ c # X\<rparr>))"
  by (simp add: push_def push_record_def ev_Return_def traceEvent0_def closeRun_settled bracketed_closeDangling)

lemma push_Marker:
  assumes "js txt = Some (marker_tree n en)" "a_pending a = None"
  shows "push fo js a (ev_Marker txt) =
    (let a' = a\<lparr>a_sawImportMarker := True\<rparr> in
     bind_res (if en then Inr (openMarkedImport a' n) else closeMarkedImport a' n) (\<lambda>a. Inr (noteGroupBoundary a)))"
  using assms parse_marker[where n = n and en = en]
  by (simp add: push_def push_record_def ev_Marker_def traceEvent0_def pushEvent_def closeRun_settled Let_def)

lemma push_enter:
  assumes "js txt = Some (marker_tree n True)" "settled a" "bracketed_top a"
  shows "push fo js a (ev_Marker txt) = Inr (inside (a\<lparr>a_sawImportMarker := True\<rparr>)
     [call_crossing (length (a_crossings a)) (length (a_stack a)) CrossingImport [] n [] []] (importLabel n))"
proof -
  have "openMarkedImport (a\<lparr>a_sawImportMarker := True\<rparr>) n = inside (a\<lparr>a_sawImportMarker := True\<rparr>)
     [call_crossing (length (a_crossings a)) (length (a_stack a)) CrossingImport [] n [] []] (importLabel n)"
    using assms(3) by (auto simp: openMarkedImport_def top_crossing_def bracketed_top_def open_inside
       call_crossing_def blank_crossing_def Let_def split: list.splits)
  then show ?thesis using assms by (simp add: push_Marker settled_def note_open)
qed

lemma push_enter_adopt:
  assumes "js txt = Some (marker_tree n True)" "a_pending a = None"
    "c_Kind c = CrossingImport" "c_Index c = n" "\<not> c_markerBracketed c"
  shows "push fo js (inside a [c] l) (ev_Marker txt) =
    Inr (inside (a\<lparr>a_sawImportMarker := True\<rparr>) [c\<lparr>c_markerBracketed := True\<rparr>] l)"
  using assms by (simp add: push_Marker openMarkedImport_def note_open)

lemma push_leave:
  assumes "js txt = Some (marker_tree n False)" "a_pending a = None"
    "c_Kind c = CrossingImport" "c_Index c = n" "c_markerBracketed c"
  shows "push fo js (inside a (c # X) l) (ev_Marker txt) =
    Inr (noteGroupBoundary (a\<lparr>a_sawImportMarker := True, a_crossings := a_crossings a @ c # X\<rparr>))"
  using assms by (simp add: push_Marker closeMarkedImport_def)

lemma note_call:
  assumes "settled a" "X \<noteq> []"
  shows "noteGroupBoundary (a\<lparr>a_crossings := a_crossings a @ X\<rparr>) = a\<lparr>a_crossings := a_crossings a @ X,
     a_groupStart := (if a_stack a = [] then length (a_crossings a @ X) else a_groupStart a),
     a_groupEnds := a_groupEnds a @ (if a_stack a = [] then [length (a_crossings a @ X)] else [])\<rparr>"
  using assms by (simp add: noteGroupBoundary_def settled_def)


text \<open>The assembler on the rendering of a list of calls, and on what follows it.\<close>

definition reads :: "float_ops \<Rightarrow> (string \<Rightarrow> json option) \<Rightarrow> (string \<Rightarrow> nat) \<Rightarrow> (u32 \<Rightarrow> bool \<Rightarrow> string) \<Rightarrow>
    assembler \<Rightarrow> call list \<Rightarrow> bool" where
  "reads fo js fid mt a calls \<longleftrightarrow> (\<exists>vn. length vn = length (a_varNames a) + vars calls \<and>
     run_steps (push fo js) a (render fid mt (length (a_varNames a)) calls) = Inr (after a calls vn))"

definition ready :: "string list \<Rightarrow> nat \<Rightarrow> assembler \<Rightarrow> bool" where
  "ready names k a \<longleftrightarrow> settled a \<and> bracketed_top a \<and> map fr_Name (a_functions a) = names \<and>
     length names \<le> 2 ^ 32 \<and> length (a_varNames a) + k \<le> 2 ^ 32"

text \<open>From the first record of a call's body to the record that closes the call.\<close>

lemma read_middle:
  fixes a :: assembler and args res :: "rawValue list" and k :: CrossingKind and n l :: string and i :: u32 and body :: "call list"
  defines "cc \<equiv> call_crossing (length (a_crossings a)) (length (a_stack a)) k n i args"
    and "X \<equiv> concat (trees (Suc (length (a_crossings a))) (Suc (length (a_stack a))) body)"
  assumes rd: "ready names (vars body + length res) (inside a [cc []] l)"
    and l: "l \<noteq> []" "k = CrossingExport \<Longrightarrow> plain_name l" and disk: "list_all on_disk res"
    and IH: "\<And>b. ready names (vars body) b \<Longrightarrow> reads fo js fid mt b body" and T: "closing T"
  shows "\<exists>vn. length vn = length (a_varNames a) + vars body + length res \<and>
    run_steps (push fo js) (inside a [cc []] l)
      (render fid mt (length (a_varNames a)) body @ flush l Ret (length (a_varNames a) + vars body) res @ T) =
    run_steps (push fo js) (inside (a\<lparr>a_sawImportMarker := (a_sawImportMarker a \<or> has_import body), a_varNames := vn\<rparr>)
      (cc res # X) l) T"
proof -
  let ?a1 = "inside a [cc []] l" and ?nv = "length (a_varNames a)"
  have ret: "plain_name l \<and> c_Kind (cc x) = CrossingExport \<or> c_markerBracketed (cc x)" for x
    using l(2) by (cases k) (simp_all add: cc_def)
  from rd have "ready names (vars body) ?a1" by (simp add: ready_def)
  from IH[OF this] obtain v2 where v2: "length v2 = ?nv + vars body"
    "run_steps (push fo js) ?a1 (render fid mt ?nv body) = Inr (after ?a1 body v2)"
    by (auto simp: reads_def)
  define b where "b = a\<lparr>a_varNames := v2, a_sawImportMarker := (a_sawImportMarker a \<or> has_import body)\<rparr>"
  have a2: "after ?a1 body v2 = inside b (cc [] # X) l" by (simp add: after_inside X_def b_def)
  have st2: "settled (inside b (cc [] # X) l)" using rd by (simp add: ready_def b_def)
  have "\<exists>vn. length vn = length (a_varNames (inside b (cc [] # X) l)) + length res \<and>
    run_steps (push fo js) (inside b (cc [] # X) l) (flush l Ret (length (a_varNames (inside b (cc [] # X) l))) res @ T) =
    run_steps (push fo js) ((inside b (cc res # X) l)\<lparr>a_varNames := vn\<rparr>) T"
    using disk rd by (intro flush_then st2 l(1) T) (auto simp: ret_run[OF ret[unfolded cc_def]] cc_def v2(1) b_def ready_def)
  then show ?thesis using v2 a2 by (auto simp: run_steps_append b_def)
qed

lemma read_export:
  assumes ok: "calls_ok names fid [ExportCall n args res body]"
    and rd: "ready names (vars [ExportCall n args res body]) a"
    and IH: "\<And>b. ready names (vars body) b \<Longrightarrow> reads fo js fid mt b body"
  shows "reads fo js fid mt a [ExportCall n args res body]"
proof -
  let ?nv = "length (a_varNames a)"
  define cc where "cc = call_crossing (length (a_crossings a)) (length (a_stack a)) CrossingExport n 0"
  define T where "T = render fid mt (?nv + length args) body @ flush n Ret (?nv + length args + vars body) res @ [ev_Return]"
  have n: "n \<noteq> []" "plain_name n" and fid: "fid n < length (a_functions a)" "fr_Name (a_functions a ! fid n) = n" "fid n < 2 ^ 32"
    and disk: "list_all on_disk args" "list_all on_disk res"
    and small: "?nv + length args + vars body + length res \<le> 2 ^ 32" and st: "settled a" "a_pending a = None"
    using ok rd by (auto simp: ready_def settled_def dest: map_eq_imp_length_eq)
  have cT: "closing T" by (simp add: T_def closing_flush closing_render)
  have st1: "settled (inside a [cc [] []] n)" using st by simp
  have "\<exists>vn. length vn = length (a_varNames (inside a [cc [] []] n)) + length args \<and>
    run_steps (push fo js) (inside a [cc [] []] n) (flush n Arg (length (a_varNames (inside a [cc [] []] n))) args @ T) =
    run_steps (push fo js) ((inside a [cc args []] n)\<lparr>a_varNames := vn\<rparr>) T"
    using disk small by (intro flush_then st1 n(1) cT) (auto simp: cc_def arg_runs n(2))
  then obtain v1 where v1: "length v1 = ?nv + length args"
    "run_steps (push fo js) (inside a [cc [] []] n) (flush n Arg ?nv args @ T) =
     run_steps (push fo js) (inside (a\<lparr>a_varNames := v1\<rparr>) [cc args []] n) T" by auto
  let ?b = "a\<lparr>a_varNames := v1\<rparr>"
  have "ready names (vars body + length res) (inside ?b [call_crossing (length (a_crossings ?b)) (length (a_stack ?b))
      CrossingExport n 0 args []] n)"
    using rd st v1(1) by (simp add: ready_def)
  from read_middle[OF this n(1) n(2) disk(2) IH, where T = "[ev_Return]"]
  obtain v3 where v3: "length v3 = ?nv + length args + vars body + length res"
    "run_steps (push fo js) (inside ?b [cc args []] n) T =
     run_steps (push fo js) (inside (a\<lparr>a_sawImportMarker := (a_sawImportMarker a \<or> has_import body), a_varNames := v3\<rparr>)
      (cc args res # concat (trees (Suc (length (a_crossings a))) (Suc (length (a_stack a))) body)) n) [ev_Return]"
    by (auto simp: v1(1) T_def cc_def)
  have "run_steps (push fo js) a (render fid mt ?nv [ExportCall n args res body]) =
      Inr (after a [ExportCall n args res body] v3)"
    using push_Call[OF st(1) fid, of fo js] v1(2) v3(2) st
    by (simp add: T_def run_steps_append cc_def push_Return settled_def noteGroupBoundary_def after_def Let_def)
  with v3(1) show ?thesis unfolding reads_def by (intro exI[of _ v3]) (simp add: add.assoc)
qed

text \<open>The argument run and the \<open>ENTER\<close> marker of an import open one crossing.\<close>

lemma read_enter:
  assumes "settled a" "bracketed_top a" "list_all on_disk args" "length (a_varNames a) + length args \<le> 2 ^ 32"
    and m: "js (mt n True) = Some (marker_tree n True)"
  shows "\<exists>vn. length vn = length (a_varNames a) + length args \<and>
    run_steps (push fo js) a (flush (importLabel n) Arg (length (a_varNames a)) args @ [ev_Marker (mt n True)]) =
    Inr (inside (a\<lparr>a_varNames := vn, a_sawImportMarker := True\<rparr>)
      [call_crossing (length (a_crossings a)) (length (a_stack a)) CrossingImport [] n args []] (importLabel n))"
proof -
  let ?cc = "call_crossing (length (a_crossings a)) (length (a_stack a)) CrossingImport [] n args []"
  define b where "b = (if args = [] then a else inside a [?cc\<lparr>c_markerBracketed := False\<rparr>] (importLabel n))"
  have "\<exists>vn. length vn = length (a_varNames a) + length args \<and>
    run_steps (push fo js) a (flush (importLabel n) Arg (length (a_varNames a)) args @ [ev_Marker (mt n True)]) =
    run_steps (push fo js) (b\<lparr>a_varNames := vn\<rparr>) [ev_Marker (mt n True)]"
    using assms by (intro flush_then) (auto simp: b_def arg_runs)
  then obtain vn where vn: "length vn = length (a_varNames a) + length args"
    "run_steps (push fo js) a (flush (importLabel n) Arg (length (a_varNames a)) args @ [ev_Marker (mt n True)]) =
     run_steps (push fo js) (b\<lparr>a_varNames := vn\<rparr>) [ev_Marker (mt n True)]" by blast
  have "push fo js (b\<lparr>a_varNames := vn\<rparr>) (ev_Marker (mt n True)) =
      Inr (inside (a\<lparr>a_varNames := vn, a_sawImportMarker := True\<rparr>) [?cc] (importLabel n))"
    using assms push_enter[of js "mt n True" n "a\<lparr>a_varNames := vn\<rparr>" fo] push_enter_adopt[of js "mt n True" n "a\<lparr>a_varNames := vn\<rparr>"]
    by (auto simp: b_def settled_def)
  with vn show ?thesis by (intro exI[of _ vn]) simp
qed

lemma read_import:
  assumes ok: "calls_ok names fid [ImportCall n args res body]"
    and rd: "ready names (vars [ImportCall n args res body]) a"
    and IH: "\<And>b. ready names (vars body) b \<Longrightarrow> reads fo js fid mt b body"
    and m: "\<And>en. js (mt n en) = Some (marker_tree n en)"
  shows "reads fo js fid mt a [ImportCall n args res body]"
proof -
  let ?nv = "length (a_varNames a)" and ?l = "importLabel n"
  define cc where "cc = call_crossing (length (a_crossings a)) (length (a_stack a)) CrossingImport [] n"
  define T where "T = render fid mt (?nv + length args) body @ flush ?l Ret (?nv + length args + vars body) res @ [ev_Marker (mt n False)]"
  have disk: "list_all on_disk args" "list_all on_disk res"
    and small: "?nv + length args \<le> 2 ^ 32" and st: "settled a" "a_pending a = None" "bracketed_top a"
    using ok rd by (auto simp: ready_def settled_def)
  from read_enter[OF st(1,3) disk(1) small, of js mt n, OF m]
  obtain v1 where v1: "length v1 = ?nv + length args"
    "run_steps (push fo js) a (flush ?l Arg ?nv args @ [ev_Marker (mt n True)]) =
     Inr (inside (a\<lparr>a_varNames := v1, a_sawImportMarker := True\<rparr>) [cc args []] ?l)" by (auto simp: cc_def)
  let ?b = "a\<lparr>a_varNames := v1, a_sawImportMarker := True\<rparr>"
  have "ready names (vars body + length res) (inside ?b [call_crossing (length (a_crossings ?b)) (length (a_stack ?b))
      CrossingImport [] n args []] ?l)"
    using rd st v1(1) by (simp add: ready_def)
  from read_middle[OF this importLabel_nonempty _ disk(2) IH, where T = "[ev_Marker (mt n False)]"]
  obtain v3 where v3: "length v3 = ?nv + length args + vars body + length res"
    "run_steps (push fo js) (inside ?b [cc args []] ?l) T =
     run_steps (push fo js) (inside (a\<lparr>a_sawImportMarker := True, a_varNames := v3\<rparr>)
      (cc args res # concat (trees (Suc (length (a_crossings a))) (Suc (length (a_stack a))) body)) ?l) [ev_Marker (mt n False)]"
    by (auto simp: v1(1) T_def cc_def)
  have "run_steps (push fo js) a ((flush ?l Arg ?nv args @ [ev_Marker (mt n True)]) @ T) =
      Inr (after a [ImportCall n args res body] v3)"
    unfolding run_steps_append[of _ _ "flush ?l Arg ?nv args @ [ev_Marker (mt n True)]" T] v1(2) using v3(2) st
    by (simp add: cc_def push_leave[of js "mt n False" n] m settled_def noteGroupBoundary_def after_def Let_def)
  then have "run_steps (push fo js) a (render fid mt ?nv [ImportCall n args res body]) =
      Inr (after a [ImportCall n args res body] v3)" by (simp add: T_def)
  with v3(1) show ?thesis unfolding reads_def by (intro exI[of _ v3]) (simp add: add.assoc)
qed

lemma reads_Cons:
  assumes "reads fo js fid mt a [c]" "\<And>v. length v = length (a_varNames a) + vars [c] \<Longrightarrow>
      reads fo js fid mt (after a [c] v) rest"
  shows "reads fo js fid mt a (c # rest)"
proof -
  obtain v1 where v1: "length v1 = length (a_varNames a) + vars [c]"
    "run_steps (push fo js) a (render fid mt (length (a_varNames a)) [c]) = Inr (after a [c] v1)"
    using assms(1) by (auto simp: reads_def)
  obtain v2 where v2: "length v2 = length v1 + vars rest"
    "run_steps (push fo js) (after a [c] v1) (render fid mt (length v1) rest) = Inr (after (after a [c] v1) rest v2)"
    using assms(2)[of v1] v1(1) by (auto simp: reads_def after_fields)
  have "render fid mt k (c # rest) = render fid mt k [c] @ render fid mt (k + vars [c]) rest" for k
    by (cases c) (simp_all add: add.assoc)
  moreover have "vars (c # rest) = vars [c] + vars rest" by (cases c) simp_all
  ultimately show ?thesis using v1 v2 unfolding reads_def
    by (intro exI[of _ v2]) (simp add: run_steps_append after_Cons)
qed

lemma read_calls:
  assumes "\<And>n en. js (mt n en) = Some (marker_tree n en)"
  shows "calls_ok names fid calls \<Longrightarrow> ready names (vars calls) a \<Longrightarrow> reads fo js fid mt a calls"
proof (induction calls arbitrary: a rule: vars.induct)
  case 1
  then show ?case by (auto simp: reads_def ready_def after_Nil intro: exI[of _ "a_varNames a"])
next
  case (2 n args res body rest)
  show ?case
  proof (rule reads_Cons)
    show "reads fo js fid mt a [ExportCall n args res body]"
      using "2.prems" "2.IH"(1) by (intro read_export) (auto simp: ready_def)
    show "reads fo js fid mt (after a [ExportCall n args res body] v) rest"
      if "length v = length (a_varNames a) + vars [ExportCall n args res body]" for v
      using that "2.prems" by (intro "2.IH"(2)) (auto simp: ready_def after_fields)
  qed
next
  case (3 n args res body rest)
  show ?case
  proof (rule reads_Cons)
    show "reads fo js fid mt a [ImportCall n args res body]"
      using "3.prems" "3.IH"(1) assms by (intro read_import) (auto simp: ready_def)
    show "reads fo js fid mt (after a [ImportCall n args res body] v) rest"
      if "length v = length (a_varNames a) + vars [ImportCall n args res body]" for v
      using that "3.prems" by (intro "3.IH"(2)) (auto simp: ready_def after_fields)
  qed
qed

lemma functions_run: "settled a \<Longrightarrow> run_steps (push fo js) a (map ev_Function names) =
    Inr (a\<lparr>a_functions := a_functions a @ map (\<lambda>n. \<lparr>fr_Name = n, fr_PathID = 0, fr_Line = 0\<rparr>) names\<rparr>)"
proof (induction names arbitrary: a)
  case (Cons n names)
  let ?f = "\<lparr>fr_Name = n, fr_PathID = 0, fr_Line = 0\<rparr>"
  have "push fo js a (ev_Function n) = Inr (a\<lparr>a_functions := a_functions a @ [?f]\<rparr>)"
    using Cons.prems
    by (simp add: push_def push_record_def ev_Function_def traceEvent0_def closeRun_settled settled_def noteGroupBoundary_def)
  moreover have "settled (a\<lparr>a_functions := a_functions a @ [?f]\<rparr>)" using Cons.prems by (simp add: settled_def)
  ultimately show ?case using Cons.IH[of "a\<lparr>a_functions := a_functions a @ [?f]\<rparr>"] by simp
qed simp

lemma slice_concat: "i < length ts \<Longrightarrow>
  slice (length (concat (take i ts))) (length (ts ! i)) (concat ts) = ts ! i"
proof -
  assume i: "i < length ts"
  have "ts = take i ts @ ts ! i # drop (Suc i) ts" using i by (rule id_take_nth_drop)
  then have "concat ts = concat (take i ts) @ ts ! i @ concat (drop (Suc i) ts)" by (metis concat.simps(2) concat_append)
  then show ?thesis by (metis slice_exact)
qed

lemma groups_cumul:
  assumes "a_groupEnds a = cumul 0 ts" "a_crossings a = concat ts"
  shows "map (group a) [0..<groups a] = ts"
proof (rule nth_equalityI)
  show len: "length (map (group a) [0..<groups a]) = length ts" using assms by (simp add: groups_def cumul_def)
  fix i assume "i < length (map (group a) [0..<groups a])"
  then have i: "i < length ts" using len by simp
  have c: "cut (cumul 0 ts) i = length (concat (take i ts))"
    using i by (cases i) (simp_all add: cut_def cumul_def)
  have "cumul 0 ts ! i - cut (cumul 0 ts) i = length (ts ! i)"
    using i by (simp add: c) (simp add: cumul_def take_Suc_conv_app_nth)
  then show "map (group a) [0..<groups a] ! i = ts ! i"
    using i assms len slice_concat[OF i] by (simp add: group_cut c)
qed

lemma finish_settled: "settled a \<Longrightarrow> a_stack a = [] \<Longrightarrow> finish a = Inr a"
  by (simp add: finish_def closeRun_settled settled_def closeDanglingImports_def noteGroupBoundary_def)

lemma new_settled: "settled newAssembler"
  by (simp add: settled_def newAssembler_def)

subsection \<open>An example session\<close>

definition ex_calls :: "call list" where
  "ex_calls = [ExportCall ''f'' [\<lparr>rv_Kind = ''Int'', rv_Text = ''7''\<rparr>] [] [ImportCall 3 [] [] []]]"

definition ex_mt :: "u32 \<Rightarrow> bool \<Rightarrow> string" where
  "ex_mt n enter = (if enter then CHR ''+'' else CHR ''-'') # importLabel n"

definition ex_js :: "string \<Rightarrow> json option" where
  "ex_js t = map_option (\<lambda>n. marker_tree n (hd t = CHR ''+'')) (parseImportLabel (tl t))"

lemma ex_markers: "ex_js (ex_mt n en) = Some (marker_tree n en)"
  by (simp add: ex_js_def ex_mt_def)

definition ex_events :: "traceEvent list" where
  "ex_events = [ev_Function ''f'', ev_Call 0, ev_Return]"

definition ex_state :: assembler where
  "ex_state = newAssembler\<lparr>a_functions := [\<lparr>fr_Name = ''f'', fr_PathID = 0, fr_Line = 0\<rparr>],
     a_crossings := [call_crossing 0 0 CrossingExport ''f'' 0 [] []], a_groupStart := 1, a_groupEnds := [1]\<rparr>"

lemmas ex_eval = newAssembler_def ev_Function_def ev_Call_def ev_Return_def traceEvent0_def push_def push_record_def
  noteGroupBoundary_def closeRun_def closeDanglingImports_def open_crossing_def append_crossing_def
  top_crossing_def pop_top_def blank_crossing_def call_crossing_def Let_def

lemma ex_run: "run_steps (push fo js) newAssembler ex_events = Inr ex_state"
  by (simp add: ex_events_def ex_state_def ex_eval)

lemma ex_finish: "finish ex_state = Inr ex_state"
  by (rule finish_settled) (simp_all add: ex_state_def settled_def newAssembler_def)

section \<open>Properties\<close>

text \<open>C5: reading back the documented rendering of a session is exact. For any tree of exported calls
  and import calls (callbacks included) whose export names are not spelled like an import label,
  the assembler accepts the records, recovers exactly the crossings of the tree in call order with
  their depth, arguments and results, reports import markers iff the session called an import,
  and its call groups are the top-level calls, one group for each.\<close>

theorem rendering_round_trip:
  assumes "\<And>n en. js (mt n en) = Some (marker_tree n en)"
    and "calls_ok names fid calls" "length names \<le> 2 ^ 32" "vars calls \<le> 2 ^ 32"
  defines "evs \<equiv> map ev_Function names @ render fid mt 0 calls"
  shows "reconstructCrossings fo js evs = Inr (concat (trees 0 0 calls), has_import calls, None) \<and>
    (\<exists>a. run_steps (push fo js) newAssembler evs = Inr a \<and> map (group a) [0..<groups a] = trees 0 0 calls)"
proof -
  define a0 where "a0 = newAssembler\<lparr>a_functions := map (\<lambda>n. \<lparr>fr_Name = n, fr_PathID = 0, fr_Line = 0\<rparr>) names\<rparr>"
  have fs: "run_steps (push fo js) newAssembler (map ev_Function names) = Inr a0"
    using functions_run[OF new_settled, of fo js names] by (simp add: a0_def newAssembler_def)
  have "ready names (vars calls) a0"
    using assms by (simp add: ready_def a0_def newAssembler_def settled_def bracketed_top_def comp_def)
  from read_calls[OF assms(1) assms(2) this, of fo] obtain vn where
    "run_steps (push fo js) a0 (render fid mt 0 calls) = Inr (after a0 calls vn)"
    by (auto simp: reads_def a0_def newAssembler_def)
  with fs have run: "run_steps (push fo js) newAssembler evs = Inr (after a0 calls vn)"
    by (simp add: evs_def run_steps_append)
  let ?a = "after a0 calls vn"
  have a: "a_groupEnds ?a = cumul 0 (trees 0 0 calls)" "a_crossings ?a = concat (trees 0 0 calls)"
    "settled ?a" "a_stack ?a = []" "a_sawImportMarker ?a = has_import calls" "a_hostState ?a = None"
    by (simp_all add: after_def a0_def newAssembler_def settled_def Let_def)
  have "reconstructCrossings fo js evs = Inr (concat (trees 0 0 calls), has_import calls, None)"
    using run finish_settled[OF a(3,4)] a by (simp add: reconstructCrossings_def)
  then show ?thesis using run groups_cumul[OF a(1,2)] by blast
qed

theorem rendering_round_trip_witness:
  "calls_ok [''f''] (\<lambda>_. 0) ex_calls \<and>
   reconstructCrossings zero_floats ex_js (map ev_Function [''f''] @ render (\<lambda>_. 0) ex_mt 0 ex_calls) =
     Inr (concat (trees 0 0 ex_calls), True, None)"
proof -
  have "calls_ok [''f''] (\<lambda>_. 0) ex_calls" "vars ex_calls \<le> 2 ^ 32" "has_import ex_calls"
    by (simp_all add: ex_calls_def on_disk_def plain_name_def parseImportLabel_def HasPrefix_def importLabelPrefix_def)
  then show ?thesis
    using rendering_round_trip[of ex_js ex_mt "[''f'']" "\<lambda>_. 0" ex_calls zero_floats, OF ex_markers] by simp
qed

text \<open>C14: a call group is final when it is complete. Whatever records follow, the groups the
  assembler had completed keep their number, their place and every value in them, so a
  streaming reader may hand a group out before the recording ends.\<close>

theorem completed_groups_final:
  assumes "run_steps (push fo js) newAssembler evs = Inr a" "run_steps (push fo js) a evs2 = Inr b" "i < groups a"
  shows "i < groups b \<and> group b i = group a i"
proof -
  have a: "asm_from newAssembler a" using asm.run_inv[OF new_ok(1) assms(1)] .
  from asm.run_inv[OF asm_from_refl[OF a] assms(2)] show ?thesis by (rule groups_keep[OF a _ assms(3)])
qed

theorem completed_groups_final_witness:
  "\<exists>a b. run_steps (push zero_floats ex_js) newAssembler ex_events = Inr a \<and>
    run_steps (push zero_floats ex_js) a [ev_Call 0, ev_Return] = Inr b \<and> 0 < groups a \<and> group b 0 = group a 0"
proof -
  obtain b where "run_steps (push zero_floats ex_js) ex_state [ev_Call 0, ev_Return] = Inr b"
    by (simp add: ex_state_def ex_eval)
  moreover have "0 < groups ex_state" by (simp add: ex_state_def groups_def)
  ultimately show ?thesis using completed_groups_final[OF ex_run, where i = 0] ex_run by blast
qed

text \<open>C15: at the end of a recording whose function names are not spelled like import labels, the call
  groups partition the crossings in order; every group is non-empty, starts with a top-level
  crossing, and contains at most one top-level export.\<close>

theorem groups_partition:
  assumes "list_all plain_event evs" "run_steps (push fo js) newAssembler evs = Inr a" "finish a = Inr b"
  shows "concat (map (group b) [0..<groups b]) = a_crossings b \<and>
    (\<forall>i<groups b. group b i \<noteq> [] \<and> c_Depth (hd (group b i)) = 0 \<and> length (filter top_export (group b i)) \<le> 1)"
proof -
  have "grp_ok a" using grp.guarded_run[OF new_ok(2) assms(1,2)] .
  from res_okD[OF finish_grp[OF this] assms(3)]
  have b: "grp_ok b" "asm_from newAssembler b" "a_groupStart b = length (a_crossings b)" by (auto simp: grp_ok_def)
  then show ?thesis using groups_all[OF b(2,3)] group_root[OF b(2)] group_one_export[OF b(1)] by blast
qed

theorem groups_partition_witness:
  "list_all plain_event ex_events \<and> finish ex_state = Inr ex_state \<and>
   concat (map (group ex_state) [0..<groups ex_state]) = a_crossings ex_state"
proof -
  have plain: "list_all plain_event ex_events"
    by (simp add: ex_events_def plain_event_def ev_Function_def ev_Call_def ev_Return_def traceEvent0_def
        plain_name_def parseImportLabel_def HasPrefix_def importLabelPrefix_def)
  with groups_partition[OF plain ex_run ex_finish] ex_finish show ?thesis by blast
qed

text \<open>C30: in a reconstructed recording every crossing carries its own position as its sequence number,
  the flag that the markers identify imports is set exactly when some crossing is bracketed by
  markers, and the accumulated host state is valid.\<close>

theorem reconstruction_witnessed:
  assumes "reconstructCrossings fo js evs = Inr (cs, m, h)"
  shows "(\<forall>i<length cs. c_Seq (cs ! i) = i) \<and> (m \<longleftrightarrow> (\<exists>c\<in>set cs. c_markerBracketed c)) \<and> valid_state fo h"
proof -
  obtain a b where ab: "run_steps (push fo js) newAssembler evs = Inr a" "finish a = Inr b"
    "cs = a_crossings b" "m = a_sawImportMarker b" "h = a_hostState b"
    using assms by (auto simp: reconstructCrossings_def bind_res_eq_Inr)
  have "wit_ok fo a" using wit.run_inv[OF new_ok(3) ab(1)] .
  from res_okD[OF finish_wit[OF this] ab(2)] have "wit_ok fo b" .
  then show ?thesis using ab by (auto simp: wit_ok_def asm_from_def asm_ok_def seqs_ok_def marked_def)
qed

theorem reconstruction_witnessed_witness:
  "\<exists>cs. reconstructCrossings zero_floats ex_js ex_events = Inr (cs, False, None) \<and>
     (\<forall>i<length cs. c_Seq (cs ! i) = i) \<and> \<not> (\<exists>c\<in>set cs. c_markerBracketed c)"
proof -
  have "reconstructCrossings zero_floats ex_js ex_events = Inr (a_crossings ex_state, False, None)"
    using ex_run ex_finish by (simp add: reconstructCrossings_def) (simp add: ex_state_def newAssembler_def)
  with reconstruction_witnessed[OF this] show ?thesis by blast
qed


end
