(* ===== verification/JsonScan.thy ===== *)
theory JsonScan
  imports Rendering
begin

text \<open>
  Splitting a growing JSON array into its elements (\<open>jsonArrayScanner\<close> of
  \<open>internal/boundarylog/stream.go\<close>): the scanner with its buffer and cursor, the loop that drains
  it into a consumer, and a reference automaton that reads one byte at a time.
\<close>

section \<open>Definitions\<close>

record jsonArrayScanner =
  sc_buf :: string
  sc_i :: nat
  sc_started :: bool
  sc_done :: bool
  sc_elemStart :: "nat option"
  sc_depth :: int
  sc_inString :: bool
  sc_escaped :: bool

datatype scan_error = NotAnArray char | AfterEnd char | NotAnObject char

definition newJSONArrayScanner :: jsonArrayScanner where
  "newJSONArrayScanner = \<lparr>sc_buf = [], sc_i = 0, sc_started = False, sc_done = False,
     sc_elemStart = None, sc_depth = 0, sc_inString = False, sc_escaped = False\<rparr>"

definition feed :: "jsonArrayScanner \<Rightarrow> string \<Rightarrow> jsonArrayScanner" where
  "feed s b = s\<lparr>sc_buf := sc_buf s @ b\<rparr>"

definition pending :: "jsonArrayScanner \<Rightarrow> nat" where
  "pending s = (case sc_elemStart s of None \<Rightarrow> 0 | Some e \<Rightarrow> length (sc_buf s) - e)"

definition isJSONSpace :: "char \<Rightarrow> bool" where
  "isJSONSpace c \<longleftrightarrow> c = CHR '' '' \<or> c = CHR 0x09 \<or> c = CHR 0x0A \<or> c = CHR 0x0D"

definition is_separator :: "char \<Rightarrow> bool" where
  "is_separator c \<longleftrightarrow> isJSONSpace c \<or> c = CHR '',''"

definition unread :: "jsonArrayScanner \<Rightarrow> string" where
  "unread s = drop (sc_i s) (sc_buf s)"

definition skip :: "(char \<Rightarrow> bool) \<Rightarrow> jsonArrayScanner \<Rightarrow> jsonArrayScanner" where
  "skip P s = s\<lparr>sc_i := sc_i s + length (takeWhile P (unread s))\<rparr>"

definition compact :: "jsonArrayScanner \<Rightarrow> jsonArrayScanner" where
  "compact s = (if sc_elemStart s \<noteq> None \<or> sc_i s = 0 then s
     else s\<lparr>sc_buf := drop (sc_i s) (sc_buf s), sc_i := 0\<rparr>)"

text \<open>One byte inside an element, and the loop over the bytes at hand; the flag tells that the
  closing brace was seen.\<close>

definition object_byte :: "jsonArrayScanner \<Rightarrow> char \<Rightarrow> jsonArrayScanner" where
  "object_byte s0 c = (let s = s0\<lparr>sc_i := sc_i s0 + 1\<rparr> in
     if sc_inString s then
       if sc_escaped s then s\<lparr>sc_escaped := False\<rparr>
       else if c = CHR 0x5C then s\<lparr>sc_escaped := True\<rparr>
       else if c = CHR 0x22 then s\<lparr>sc_inString := False\<rparr>
       else s
     else if c = CHR 0x22 then s\<lparr>sc_inString := True\<rparr>
     else if c = CHR ''{'' then s\<lparr>sc_depth := sc_depth s + 1\<rparr>
     else if c = CHR ''}'' then s\<lparr>sc_depth := sc_depth s - 1\<rparr>
     else s)"

definition object_ends :: "jsonArrayScanner \<Rightarrow> char \<Rightarrow> bool" where
  "object_ends s c \<longleftrightarrow> \<not> sc_inString s \<and> c = CHR ''}'' \<and> sc_depth s - 1 = 0"

fun scan_object :: "string \<Rightarrow> jsonArrayScanner \<Rightarrow> jsonArrayScanner \<times> bool" where
  "scan_object [] s = (s, False)"
| "scan_object (c # rest) s =
     (if object_ends s c then (object_byte s c, True) else scan_object rest (object_byte s c))"

definition next_object :: "jsonArrayScanner \<Rightarrow> jsonArrayScanner \<times> string option" where
  "next_object s = (case scan_object (unread s) s of (s', complete) \<Rightarrow>
     if complete then
       let e = the (sc_elemStart s') in
       (s'\<lparr>sc_elemStart := None\<rparr>, Some (slice e (sc_i s' - e) (sc_buf s')))
     else (s', None))"

definition next_between :: "jsonArrayScanner \<Rightarrow> scan_error + jsonArrayScanner \<times> string option" where
  "next_between s0 = (case sc_elemStart s0 of
     Some _ \<Rightarrow> Inr (next_object s0)
   | None \<Rightarrow>
       let s = compact (skip is_separator s0) in
       (case unread s of
          [] \<Rightarrow> Inr (s, None)
        | c # _ \<Rightarrow>
            if sc_done s then Inl (AfterEnd c)
            else if c = CHR '']'' then Inr (s\<lparr>sc_done := True, sc_i := sc_i s + 1\<rparr>, None)
            else if c \<noteq> CHR ''{'' then Inl (NotAnObject c)
            else Inr (next_object (s\<lparr>sc_elemStart := Some (sc_i s), sc_depth := 0, sc_inString := False,
                                     sc_escaped := False\<rparr>))))"

definition next_elem :: "jsonArrayScanner \<Rightarrow> scan_error + jsonArrayScanner \<times> string option" where
  "next_elem s0 =
     (if \<not> sc_started s0 then
        let s = skip isJSONSpace s0 in
        (case unread s of
           [] \<Rightarrow> Inr (s, None)
         | c # _ \<Rightarrow>
             if c \<noteq> CHR ''['' then Inl (NotAnArray c)
             else next_between (s\<lparr>sc_started := True, sc_i := sc_i s + 1\<rparr>))
      else next_between s0)"

text \<open>The reference automaton: what has been read determines the mode, and an element comes out
  with its closing brace.\<close>

datatype mode = MStart | MBetween | MElem string int bool bool | MDone

definition byte_mode :: "mode \<Rightarrow> char \<Rightarrow> scan_error + mode \<times> string option" where
  "byte_mode m c = (case m of
     MStart \<Rightarrow> if isJSONSpace c then Inr (MStart, None)
               else if c = CHR ''['' then Inr (MBetween, None) else Inl (NotAnArray c)
   | MBetween \<Rightarrow> if is_separator c then Inr (MBetween, None)
               else if c = CHR '']'' then Inr (MDone, None)
               else if c = CHR ''{'' then Inr (MElem [c] 1 False False, None) else Inl (NotAnObject c)
   | MElem acc d str esc \<Rightarrow>
       if str then
         if esc then Inr (MElem (acc @ [c]) d str False, None)
         else if c = CHR 0x5C then Inr (MElem (acc @ [c]) d str True, None)
         else Inr (MElem (acc @ [c]) d (c \<noteq> CHR 0x22) esc, None)
       else if c = CHR 0x22 then Inr (MElem (acc @ [c]) d True esc, None)
       else if c = CHR ''{'' then Inr (MElem (acc @ [c]) (d + 1) str esc, None)
       else if c = CHR ''}'' then
         if d - 1 = 0 then Inr (MBetween, Some (acc @ [c])) else Inr (MElem (acc @ [c]) (d - 1) str esc, None)
       else Inr (MElem (acc @ [c]) d str esc, None)
   | MDone \<Rightarrow> if is_separator c then Inr (MDone, None) else Inl (AfterEnd c))"

text \<open>Elements go to a consumer \<open>f\<close> with a state of its own; \<open>err\<close> wraps a scanner error.\<close>

definition byte_step ::
  "(scan_error \<Rightarrow> 'e) \<Rightarrow> ('a \<Rightarrow> string \<Rightarrow> 'e + 'a) \<Rightarrow> mode \<times> 'a \<Rightarrow> char \<Rightarrow> 'e + mode \<times> 'a" where
  "byte_step err f ma c = (case byte_mode (fst ma) c of
     Inl e \<Rightarrow> Inl (err e)
   | Inr (m, None) \<Rightarrow> Inr (m, snd ma)
   | Inr (m, Some t) \<Rightarrow> bind_res (f (snd ma) t) (\<lambda>a. Inr (m, a)))"

definition mode_of :: "jsonArrayScanner \<Rightarrow> mode" where
  "mode_of s = (if \<not> sc_started s then MStart
     else case sc_elemStart s of
       Some e \<Rightarrow> MElem (slice e (sc_i s - e) (sc_buf s)) (sc_depth s) (sc_inString s) (sc_escaped s)
     | None \<Rightarrow> if sc_done s then MDone else MBetween)"

definition scan_ok :: "jsonArrayScanner \<Rightarrow> bool" where
  "scan_ok s \<longleftrightarrow> sc_i s \<le> length (sc_buf s) \<and> (\<not> sc_started s \<longrightarrow> sc_elemStart s = None \<and> \<not> sc_done s) \<and>
     (case sc_elemStart s of None \<Rightarrow> True | Some e \<Rightarrow> e < sc_i s \<and> \<not> sc_done s)"

section \<open>Lemmas\<close>

lemma drop_Cons_less: "drop i xs = c # cs \<Longrightarrow> i < length xs \<and> drop (Suc i) xs = cs"
  by (metis drop_Suc drop_eq_Nil linorder_not_le list.distinct(1) list.sel(3) tl_drop)

lemma unread_skip: "unread (skip P s) = dropWhile P (unread s)"
  by (simp add: unread_def skip_def dropWhile_eq_drop add.commute)

lemma unread_compact: "unread (compact s) = unread s"
  by (simp add: unread_def compact_def)

lemma scan_object_unread:
  "scan_object bs s = (s', b) \<Longrightarrow> unread s = bs \<Longrightarrow> sc_i s \<le> length (sc_buf s) \<Longrightarrow>
   sc_buf s' = sc_buf s \<and> sc_elemStart s' = sc_elemStart s \<and> sc_i s \<le> sc_i s' \<and> sc_i s' \<le> length (sc_buf s) \<and>
   (b \<longrightarrow> sc_i s < sc_i s') \<and> (\<not> b \<longrightarrow> unread s' = []) \<and> sc_started s' = sc_started s \<and> sc_done s' = sc_done s"
proof (induction bs arbitrary: s)
  case (Cons c bs)
  have c: "drop (sc_i s) (sc_buf s) = c # bs" using Cons.prems(2) by (simp add: unread_def)
  then have lt: "sc_i s < length (sc_buf s)" and bs: "drop (Suc (sc_i s)) (sc_buf s) = bs"
    by (auto dest: drop_Cons_less)
  have ob: "sc_buf (object_byte s c) = sc_buf s" "sc_elemStart (object_byte s c) = sc_elemStart s"
    "sc_i (object_byte s c) = Suc (sc_i s)" "sc_started (object_byte s c) = sc_started s"
    "sc_done (object_byte s c) = sc_done s"
    by (simp_all add: object_byte_def Let_def)
  show ?case
  proof (cases "object_ends s c")
    case True
    then show ?thesis using Cons.prems(1) lt ob by auto
  next
    case False
    then have "scan_object bs (object_byte s c) = (s', b)" using Cons.prems(1) by simp
    from Cons.IH[OF this] show ?thesis using lt ob bs by (auto simp: unread_def)
  qed
qed auto


lemma slice_snoc: "e \<le> i \<Longrightarrow> drop i buf = c # bs \<Longrightarrow> slice e (Suc i - e) buf = slice e (i - e) buf @ [c]"
proof -
  assume "e \<le> i" and d: "drop i buf = c # bs"
  then have i: "i < length buf" by (auto dest: drop_Cons_less)
  have "c = buf ! i" using d i by (metis hd_drop_conv_nth list.sel(1))
  with i \<open>e \<le> i\<close> show ?thesis by (simp add: slice_def Suc_diff_le take_Suc_conv_app_nth)
qed

lemma object_byte_fields [simp]:
  "sc_buf (object_byte s c) = sc_buf s" "sc_elemStart (object_byte s c) = sc_elemStart s"
  "sc_i (object_byte s c) = Suc (sc_i s)" "sc_started (object_byte s c) = sc_started s"
  "sc_done (object_byte s c) = sc_done s"
  by (simp_all add: object_byte_def Let_def)

lemma object_byte_mode:
  assumes "sc_started s" "sc_elemStart s = Some e" "e \<le> sc_i s" "unread s = c # bs"
  shows "byte_mode (mode_of s) c =
    (if object_ends s c then Inr (MBetween, Some (slice e (Suc (sc_i s) - e) (sc_buf s)))
     else Inr (mode_of (object_byte s c), None))"
  using assms slice_snoc[of e "sc_i s" "sc_buf s" c bs]
  by (simp add: mode_of_def byte_mode_def unread_def object_ends_def) (simp add: object_byte_def Let_def)

lemma byte_step_simps [simp]:
  "byte_mode m c = Inr (m', None) \<Longrightarrow> byte_step err f (m, a) c = Inr (m', a)"
  "byte_mode m c = Inr (m', Some t) \<Longrightarrow> byte_step err f (m, a) c = bind_res (f a t) (\<lambda>a'. Inr (m', a'))"
  "byte_mode m c = Inl e \<Longrightarrow> byte_step err f (m, a) c = Inl (err e)"
  by (simp_all add: byte_step_def)

lemma scan_mode:
  assumes "sc_started s" "sc_elemStart s = Some e" "e \<le> sc_i s" "sc_i s \<le> length (sc_buf s)" "unread s = bs"
    "scan_object bs s = (s', b)"
  shows "\<exists>p. bs = p @ unread s' \<and> (b \<longrightarrow> p \<noteq> []) \<and> (\<forall>a. run_steps (byte_step err f) (mode_of s, a) p =
    (if b then bind_res (f a (slice e (sc_i s' - e) (sc_buf s'))) (\<lambda>a'. Inr (MBetween, a'))
     else Inr (mode_of s', a)))"
  using assms
proof (induction bs arbitrary: s)
  case Nil
  then show ?case by (auto simp: unread_def)
next
  case (Cons c bs)
  have c: "drop (sc_i s) (sc_buf s) = c # bs" using Cons.prems(5) by (simp add: unread_def)
  then have lt: "sc_i s < length (sc_buf s)" and bs: "drop (Suc (sc_i s)) (sc_buf s) = bs"
    by (auto dest: drop_Cons_less)
  note step = object_byte_mode[OF Cons.prems(1-3,5)]
  show ?case
  proof (cases "object_ends s c")
    case True
    then have "s' = object_byte s c" "b" using Cons.prems(6) by auto
    with True step bs show ?thesis by (intro exI[of _ "[c]"]) (simp add: unread_def bind_res_assoc)
  next
    case False
    then obtain p where "bs = p @ unread s'" "\<forall>a. run_steps (byte_step err f) (mode_of (object_byte s c), a) p =
      (if b then bind_res (f a (slice e (sc_i s' - e) (sc_buf s'))) (\<lambda>a'. Inr (MBetween, a')) else Inr (mode_of s', a))"
      using Cons.IH[of "object_byte s c"] Cons.prems lt bs by (auto simp: unread_def)
    with False step show ?thesis by (intro exI[of _ "c # p"]) simp
  qed
qed

lemma skip_run:
  assumes "\<And>c. P c \<Longrightarrow> byte_mode m c = Inr (m, None)"
  shows "run_steps (byte_step err f) (m, a) (takeWhile P bs) = Inr (m, a)"
  by (induction bs) (simp_all add: assms)

text \<open>How one call of \<open>next\<close> relates to the automaton.\<close>

definition follows :: "(scan_error \<Rightarrow> 'e) \<Rightarrow> ('a \<Rightarrow> string \<Rightarrow> 'e + 'a) \<Rightarrow> mode \<Rightarrow> string \<Rightarrow>
    scan_error + jsonArrayScanner \<times> string option \<Rightarrow> bool" where
  "follows err f m bs r = (case r of
     Inl e \<Rightarrow> \<exists>p q. bs = p @ q \<and> (\<forall>a. run_steps (byte_step err f) (m, a) p = Inl (err e))
   | Inr (s', None) \<Rightarrow> scan_ok s' \<and> (unread s' = [] \<or> mode_of s' = MDone \<and> m \<noteq> MDone) \<and>
       (\<exists>p. bs = p @ unread s' \<and> (\<forall>a. run_steps (byte_step err f) (m, a) p = Inr (mode_of s', a)))
   | Inr (s', Some t) \<Rightarrow> scan_ok s' \<and> mode_of s' = MBetween \<and>
       (\<exists>p. bs = p @ unread s' \<and> p \<noteq> [] \<and>
         (\<forall>a. run_steps (byte_step err f) (m, a) p = bind_res (f a t) (\<lambda>a'. Inr (mode_of s', a')))))"

lemma follows_error: "byte_mode m c = Inl e \<Longrightarrow> follows err f m (c # cs) (Inl e)"
  unfolding follows_def by simp (rule exI[of _ "[c]"], simp)

lemma follows_prepend:
  assumes "follows err f m' bs r" "\<And>a. run_steps (byte_step err f) (m, a) p = Inr (m', a)" "m = MDone \<Longrightarrow> m' = MDone"
  shows "follows err f m (p @ bs) r"
proof -
  have run: "run_steps (byte_step err f) (m, a) (p @ q) = run_steps (byte_step err f) (m', a) q" for a q
    by (simp add: run_steps_append assms(2))
  show ?thesis
  proof (cases r)
    case (Inl e)
    with assms(1) obtain q q' where "bs = q @ q'" "\<forall>a. run_steps (byte_step err f) (m', a) q = Inl (err e)"
      by (auto simp: follows_def)
    with Inl run show ?thesis by (simp add: follows_def) (metis append_assoc)
  next
    case (Inr x)
    obtain s' t where x: "x = (s', t)" by (cases x)
    then obtain q where "bs = q @ unread s'" "t \<noteq> None \<longrightarrow> q \<noteq> []" "\<forall>a. run_steps (byte_step err f) (m', a) q =
        (case t of None \<Rightarrow> Inr (mode_of s', a) | Some u \<Rightarrow> bind_res (f a u) (\<lambda>a'. Inr (mode_of s', a')))"
      using assms(1) Inr by (cases t) (auto simp: follows_def)
    with x Inr assms(1,3) run show ?thesis
      by (cases t) (auto simp: follows_def intro!: exI[of _ "p @ q"])
  qed
qed

lemma object_follows:
  assumes "sc_started s" "sc_elemStart s = Some e" "e \<le> sc_i s" "sc_i s \<le> length (sc_buf s)" "\<not> sc_done s"
    "e = sc_i s \<Longrightarrow> unread s \<noteq> []"
  shows "follows err f (mode_of s) (unread s) (Inr (next_object s))"
proof -
  obtain s' b where sb: "scan_object (unread s) s = (s', b)" by (cases "scan_object (unread s) s")
  note u = scan_object_unread[OF sb refl assms(4)]
  note m = scan_mode[OF assms(1-4) refl sb]
  show ?thesis
  proof (cases b)
    case True
    have "mode_of (s'\<lparr>sc_elemStart := None\<rparr>) = MBetween" "unread (s'\<lparr>sc_elemStart := None\<rparr>) = unread s'"
      "scan_ok (s'\<lparr>sc_elemStart := None\<rparr>)"
      using u assms by (auto simp: mode_of_def unread_def scan_ok_def)
    with True m[of err f] u assms(2) show ?thesis by (simp add: follows_def next_object_def sb)
  next
    case False
    then have "scan_ok s'" using u assms by (cases "e = sc_i s") (auto simp: scan_ok_def unread_def)
    with False m[of err f] u show ?thesis by (simp add: follows_def next_object_def sb)
  qed
qed

lemma skip_fields [simp]:
  "sc_started (skip P s) = sc_started s" "sc_done (skip P s) = sc_done s" "sc_elemStart (skip P s) = sc_elemStart s"
  "sc_buf (skip P s) = sc_buf s" "sc_started (compact s) = sc_started s" "sc_done (compact s) = sc_done s"
  "sc_elemStart (compact s) = sc_elemStart s"
  by (simp_all add: skip_def compact_def)

lemma skip_le: "sc_i s \<le> length (sc_buf s) \<Longrightarrow> sc_i (skip P s) \<le> length (sc_buf s)"
  using length_takeWhile_le[of P "unread s"] by (simp add: skip_def unread_def)

lemma compact_le: "sc_i s \<le> length (sc_buf s) \<Longrightarrow> sc_i (compact s) \<le> length (sc_buf (compact s))"
  by (simp add: compact_def)

lemma dropWhile_Cons: "dropWhile P xs = c # cs \<Longrightarrow> \<not> P c"
  by (metis dropWhile_eq_Nil_conv hd_dropWhile list.sel(1) list.distinct(1))

lemma separators_run: "m = MBetween \<or> m = MDone \<Longrightarrow>
    run_steps (byte_step err f) (m, a) (takeWhile is_separator bs) = Inr (m, a)"
  by (rule skip_run) (auto simp: byte_mode_def)

lemma between_follows:
  assumes "scan_ok s" "sc_started s"
  shows "follows err f (mode_of s) (unread s) (next_between s)"
proof (cases "sc_elemStart s")
  case (Some e)
  then show ?thesis using assms by (auto simp: next_between_def scan_ok_def intro!: object_follows)
next
  case None
  define t where "t = compact (skip is_separator s)"
  have le: "sc_i t \<le> length (sc_buf t)" unfolding t_def
    using assms skip_le[of s is_separator] by (intro compact_le) (simp add: scan_ok_def)
  have t: "sc_started t" "sc_elemStart t = None" "sc_done t = sc_done s" using None assms by (auto simp: t_def)
  have m: "mode_of t = mode_of s" "mode_of s = MBetween \<or> mode_of s = MDone" "mode_of s = MDone \<longleftrightarrow> sc_done s"
    using None assms t by (auto simp: mode_of_def)
  have ok: "scan_ok t" using t le by (simp add: scan_ok_def)
  have u: "unread s = takeWhile is_separator (unread s) @ unread t" "unread t = dropWhile is_separator (unread s)"
    by (simp_all add: t_def unread_compact unread_skip)
  have "follows err f (mode_of s) (unread t) (next_between s)"
  proof (cases "unread t")
    case Nil
    then have "next_between s = Inr (t, None)" using None by (simp add: next_between_def t_def Let_def)
    then show ?thesis using Nil m ok by (simp add: follows_def)
  next
    case (Cons c cs)
    have sep: "\<not> is_separator c" using u(2) Cons by (metis dropWhile_Cons)
    have lt: "sc_i t < length (sc_buf t)" and cs: "drop (Suc (sc_i t)) (sc_buf t) = cs"
      using Cons by (auto simp: unread_def dest: drop_Cons_less)
    have nb: "next_between s = (if sc_done s then Inl (AfterEnd c)
        else if c = CHR '']'' then Inr (t\<lparr>sc_done := True, sc_i := sc_i t + 1\<rparr>, None)
        else if c \<noteq> CHR ''{'' then Inl (NotAnObject c)
        else Inr (next_object (t\<lparr>sc_elemStart := Some (sc_i t), sc_depth := 0, sc_inString := False, sc_escaped := False\<rparr>)))"
      using None Cons t(3) by (simp add: next_between_def t_def[symmetric] Let_def)
    consider (ended) "sc_done s" | (close) "\<not> sc_done s" "c = CHR '']''" | (bad) "\<not> sc_done s" "c \<noteq> CHR '']''" "c \<noteq> CHR ''{''"
      | (opens) "\<not> sc_done s" "c = CHR ''{''" by blast
    then show ?thesis
    proof cases
      case ended
      then show ?thesis using m sep nb Cons by (auto simp: byte_mode_def intro!: follows_error)
    next
      case close
      then show ?thesis using m sep nb Cons t lt cs
        by (auto simp: follows_def byte_mode_def scan_ok_def unread_def mode_of_def intro!: exI[of _ "[c]"])
    next
      case bad
      then show ?thesis using m sep nb Cons by (auto simp: byte_mode_def intro!: follows_error)
    next
      case opens
      define v where "v = t\<lparr>sc_elemStart := Some (sc_i t), sc_depth := 0, sc_inString := False, sc_escaped := False\<rparr>"
      define w where "w = object_byte v c"
      have w: "sc_started w" "sc_elemStart w = Some (sc_i t)" "sc_i w = Suc (sc_i t)" "sc_buf w = sc_buf t" "\<not> sc_done w"
        using t opens by (auto simp: w_def v_def)
      then have uw: "unread w = cs" using cs by (simp add: unread_def)
      have "unread v = c # cs" "\<not> object_ends v c" using Cons by (simp_all add: v_def unread_def object_ends_def)
      then have "next_object v = next_object w" using uw by (simp add: next_object_def w_def)
      then have "follows err f (mode_of w) cs (next_between s)"
        using object_follows[OF w(1,2)] w lt nb opens uw by (auto simp: v_def)
      moreover have "slice (sc_i t) (Suc (sc_i t) - sc_i t) (sc_buf t) = [c]"
        using Cons slice_snoc[of "sc_i t" "sc_i t" "sc_buf t" c cs] by (simp add: unread_def)
      then have "mode_of w = MElem [c] 1 False False"
        using w opens by (simp add: mode_of_def) (simp add: w_def v_def object_byte_def)
      then have "byte_mode (mode_of s) c = Inr (mode_of w, None)"
        using m sep opens by (auto simp: byte_mode_def)
      ultimately show ?thesis using follows_prepend[of err f "mode_of w" cs _ "mode_of s" "[c]"] m opens Cons by simp
    qed
  qed
  then show ?thesis using u(1) separators_run[OF m(2)] by (metis follows_prepend)
qed

lemma next_follows:
  assumes "scan_ok s"
  shows "follows err f (mode_of s) (unread s) (next_elem s)"
proof (cases "sc_started s")
  case True
  then show ?thesis using between_follows[OF assms] by (simp add: next_elem_def)
next
  case False
  define t where "t = skip isJSONSpace s"
  have u: "unread s = takeWhile isJSONSpace (unread s) @ unread t" "unread t = dropWhile isJSONSpace (unread s)"
    by (simp_all add: t_def unread_skip)
  have m: "mode_of s = MStart" "mode_of t = MStart" using False by (simp_all add: mode_of_def t_def)
  have ok: "scan_ok t" using assms False skip_le[of s isJSONSpace] by (simp add: scan_ok_def t_def)
  have "follows err f MStart (unread t) (next_elem s)"
  proof (cases "unread t")
    case Nil
    then have "next_elem s = Inr (t, None)" using False by (simp add: next_elem_def t_def[symmetric] Let_def)
    then show ?thesis using Nil m ok by (simp add: follows_def)
  next
    case (Cons c cs)
    have sp: "\<not> isJSONSpace c" using u(2) Cons by (metis dropWhile_Cons)
    define v where "v = t\<lparr>sc_started := True, sc_i := sc_i t + 1\<rparr>"
    have ne: "next_elem s = (if c \<noteq> CHR ''['' then Inl (NotAnArray c) else next_between v)"
      using False Cons by (simp add: next_elem_def t_def[symmetric] v_def Let_def)
    have v: "scan_ok v" "sc_started v" "unread v = cs" "mode_of v = MBetween"
      using ok False Cons by (auto simp: scan_ok_def v_def t_def unread_def mode_of_def dest: drop_Cons_less split: option.splits)
    show ?thesis
    proof (cases "c = CHR ''[''")
      case True
      then have "byte_mode MStart c = Inr (MBetween, None)" by (simp add: byte_mode_def isJSONSpace_def)
      then have "follows err f MStart ([c] @ cs) (next_between v)"
        using between_follows[OF v(1,2), of err f] v by (intro follows_prepend) auto
      then show ?thesis using True Cons ne by simp
    next
      case notarr: False
      then show ?thesis using sp ne Cons by (auto simp: byte_mode_def intro!: follows_error)
    qed
  qed
  moreover have "run_steps (byte_step err f) (MStart, a) (takeWhile isJSONSpace (unread s)) = Inr (MStart, a)" for a
    by (rule skip_run) (simp add: byte_mode_def)
  ultimately show ?thesis using u(1) m follows_prepend by metis
qed

subsection \<open>Draining into a consumer\<close>

lemma object_progress:
  assumes "next_object s = (s', Some t)"
  shows "length (unread s') < length (unread s)"
proof -
  obtain u where u: "scan_object (unread s) s = (u, True)" "unread s' = unread u"
    using assms by (auto simp: next_object_def Let_def unread_def split: prod.splits if_splits)
  then have "unread s \<noteq> []" by (auto intro: ccontr)
  then have "sc_i s \<le> length (sc_buf s)" by (simp add: unread_def)
  from scan_object_unread[OF u(1) refl this] show ?thesis using u(2) by (auto simp: unread_def)
qed

lemma between_progress: "next_between s = Inr (s', Some t) \<Longrightarrow> length (unread s') < length (unread s)"
proof -
  assume a: "next_between s = Inr (s', Some t)"
  show ?thesis
  proof (cases "sc_elemStart s")
    case (Some e)
    with a show ?thesis by (auto simp: next_between_def dest!: object_progress)
  next
    case None
    define v where "v = compact (skip is_separator s)"
    have "next_object (v\<lparr>sc_elemStart := Some (sc_i v), sc_depth := 0, sc_inString := False, sc_escaped := False\<rparr>) = (s', Some t)"
      using a None by (auto simp: next_between_def Let_def v_def[symmetric] split: list.splits if_splits)
    from object_progress[OF this] have "length (unread s') < length (unread v)" by (simp add: unread_def)
    also have "\<dots> \<le> length (unread s)" by (simp add: v_def unread_compact unread_skip length_dropWhile_le)
    finally show ?thesis .
  qed
qed

lemma next_progress: "next_elem s = Inr (s', Some t) \<Longrightarrow> length (unread s') < length (unread s)"
proof -
  assume a: "next_elem s = Inr (s', Some t)"
  define v where "v = (skip isJSONSpace s)\<lparr>sc_started := True, sc_i := sc_i (skip isJSONSpace s) + 1\<rparr>"
  have "length (unread v) \<le> length (unread (skip isJSONSpace s))" by (simp add: unread_def v_def)
  also have "\<dots> \<le> length (unread s)" by (simp add: unread_skip length_dropWhile_le)
  finally have v: "length (unread v) \<le> length (unread s)" .
  have "next_between s = Inr (s', Some t) \<or> next_between v = Inr (s', Some t)"
    using a by (auto simp: next_elem_def Let_def v_def[simplified] split: list.splits if_splits)
  then show ?thesis using v between_progress by fastforce
qed

function drain :: "(scan_error \<Rightarrow> 'e) \<Rightarrow> ('a \<Rightarrow> string \<Rightarrow> 'e + 'a) \<Rightarrow> jsonArrayScanner \<Rightarrow> 'a \<Rightarrow>
    'e + jsonArrayScanner \<times> 'a" where
  "drain err f s a = (case next_elem s of
     Inl e \<Rightarrow> Inl (err e)
   | Inr (s', None) \<Rightarrow> Inr (s', a)
   | Inr (s', Some t) \<Rightarrow> (case f a t of Inl e \<Rightarrow> Inl e | Inr a' \<Rightarrow> drain err f s' a'))"
  by pat_completeness auto
termination
  by (relation "measure (\<lambda>(err, f, s, a). length (unread s))") (auto dest: next_progress)

declare drain.simps [simp del]

text \<open>Draining reads a prefix of what is buffered the way the automaton does, and leaves bytes
  behind only when it has just seen the end of the array.\<close>

lemma drain_follows:
  assumes "scan_ok s"
  shows "case drain err f s a of
      Inl e \<Rightarrow> \<exists>p q. unread s = p @ q \<and> run_steps (byte_step err f) (mode_of s, a) p = Inl e
    | Inr (s', a') \<Rightarrow> scan_ok s' \<and> (unread s' = [] \<or> mode_of s' = MDone \<and> mode_of s \<noteq> MDone) \<and>
        (\<exists>p. unread s = p @ unread s' \<and> run_steps (byte_step err f) (mode_of s, a) p = Inr (mode_of s', a'))"
  using assms
proof (induction err f s a rule: drain.induct)
  case (1 err f s a)
  note fol = next_follows[OF "1.prems", of err f]
  consider (error) e where "next_elem s = Inl e" | (none) s' where "next_elem s = Inr (s', None)"
    | (some) s' t where "next_elem s = Inr (s', Some t)" by (metis sumE prod.exhaust option.exhaust)
  then show ?case
  proof cases
    case error
    with fol show ?thesis by (subst drain.simps) (auto simp: follows_def)
  next
    case none
    with fol show ?thesis by (subst drain.simps) (auto simp: follows_def)
  next
    case some
    with fol obtain p where p: "scan_ok s'" "mode_of s' = MBetween" "unread s = p @ unread s'"
      "\<And>a. run_steps (byte_step err f) (mode_of s, a) p = bind_res (f a t) (\<lambda>a'. Inr (mode_of s', a'))"
      by (auto simp: follows_def)
    have m: "mode_of s \<noteq> MDone"
      using some by (auto simp: mode_of_def next_elem_def next_between_def Let_def split: if_splits option.splits list.splits)
    show ?thesis
    proof (cases "f a t")
      case (Inl e)
      then have "drain err f s a = Inl e" using some by (subst drain.simps) simp
      moreover have "run_steps (byte_step err f) (mode_of s, a) p = Inl e" using Inl p(4)[of a] by simp
      ultimately show ?thesis using p(3) by auto
    next
      case (Inr a')
      have run: "run_steps (byte_step err f) (mode_of s, a) (p @ q) = run_steps (byte_step err f) (mode_of s', a') q" for q
        using p(4) Inr by (simp add: run_steps_append)
      have d: "drain err f s a = drain err f s' a'" using some Inr by (subst drain.simps) simp
      have IH: "case drain err f s' a' of
          Inl e \<Rightarrow> \<exists>p q. unread s' = p @ q \<and> run_steps (byte_step err f) (mode_of s', a') p = Inl e
        | Inr (s'', a'') \<Rightarrow> scan_ok s'' \<and> (unread s'' = [] \<or> mode_of s'' = MDone \<and> mode_of s' \<noteq> MDone) \<and>
            (\<exists>p. unread s' = p @ unread s'' \<and> run_steps (byte_step err f) (mode_of s', a') p = Inr (mode_of s'', a''))"
        using "1.IH"[OF some refl refl Inr p(1)] .
      show ?thesis
      proof (cases "drain err f s' a'")
        case (Inl e)
        with IH obtain q r where "unread s' = q @ r" "run_steps (byte_step err f) (mode_of s', a') q = Inl e" by auto
        with p(3) run[of q] d Inl show ?thesis by auto (metis append_assoc)
      next
        case (Inr x)
        obtain s2 a2 where x: "x = (s2, a2)" by (cases x)
        with IH Inr obtain q where "scan_ok s2" "unread s2 = [] \<or> mode_of s2 = MDone" "unread s' = q @ unread s2"
          "run_steps (byte_step err f) (mode_of s', a') q = Inr (mode_of s2, a2)" by auto
        with p(3) run[of q] d Inr x m show ?thesis by auto
      qed
    qed
  qed
qed

end
