(* ===== verification/Streams.thy ===== *)
theory Streams
  imports JsonScan
begin

text \<open>
  Reading a recording while it is produced (\<open>StreamReader\<close> and \<open>followReader\<close> of
  \<open>internal/boundarylog/stream.go\<close>). A source is the sequence of results its \<open>Read\<close> calls give,
  and answers end of file once they are used up.
\<close>

section \<open>Definitions\<close>

datatype TruncationKind = TruncatedMidRecord | TruncatedMidCrossing | TruncatedUnterminated

record TruncationError =
  tr_Kind :: TruncationKind
  tr_Groups :: nat
  tr_OpenCrossings :: nat
  tr_PendingBytes :: nat

datatype stream_error =
    StreamScan scan_error | StreamDecode json_error | StreamAsm asm_error | StreamRead
  | Truncation TruncationError

definition IsTruncation :: "stream_error \<Rightarrow> TruncationError option" where
  "IsTruncation e = (case e of Truncation t \<Rightarrow> Some t | _ \<Rightarrow> None)"

datatype read_status = ReadMore | ReadEOF | ReadFailed

record StreamReader =
  sr_src :: "(string \<times> read_status) list"
  sr_sc :: jsonArrayScanner
  sr_asm :: assembler
  sr_next :: nat
  sr_eof :: bool
  sr_closed :: bool
  sr_failed :: "stream_error option"

definition NewStreamReader :: "(string \<times> read_status) list \<Rightarrow> StreamReader" where
  "NewStreamReader r = \<lparr>sr_src = r, sr_sc = newJSONArrayScanner, sr_asm = newAssembler, sr_next = 0,
     sr_eof = False, sr_closed = False, sr_failed = None\<rparr>"

definition GroupsRead :: "StreamReader \<Rightarrow> nat" where "GroupsRead s = sr_next s"

definition StreamReader_HostState :: "StreamReader \<Rightarrow> HostState option" where
  "StreamReader_HostState s = a_hostState (sr_asm s)"

definition push_text :: "float_ops \<Rightarrow> (string \<Rightarrow> json option) \<Rightarrow> assembler \<Rightarrow> string \<Rightarrow> stream_error + assembler" where
  "push_text fo js a raw = (case unmarshal_text js dec_traceEvent raw traceEvent0 of
     Inl e \<Rightarrow> Inl (StreamDecode e)
   | Inr ev \<Rightarrow> (case push fo js a ev of Inl e \<Rightarrow> Inl (StreamAsm e) | Inr a' \<Rightarrow> Inr a'))"

definition drain_reader :: "float_ops \<Rightarrow> (string \<Rightarrow> json option) \<Rightarrow> StreamReader \<Rightarrow> stream_error + StreamReader" where
  "drain_reader fo js s = (case drain StreamScan (push_text fo js) (sr_sc s) (sr_asm s) of
     Inl e \<Rightarrow> Inl e
   | Inr (sc, a) \<Rightarrow> Inr (s\<lparr>sr_sc := sc, sr_asm := a\<rparr>))"

definition pump :: "float_ops \<Rightarrow> (string \<Rightarrow> json option) \<Rightarrow> StreamReader \<Rightarrow> stream_error + StreamReader" where
  "pump fo js s = (case sr_src s of
     [] \<Rightarrow> Inr (s\<lparr>sr_eof := True\<rparr>)
   | (b, st) # rest \<Rightarrow>
       bind_res
         (if b \<noteq> [] then drain_reader fo js (s\<lparr>sr_src := rest, sr_sc := feed (sr_sc s) b\<rparr>)
          else Inr (s\<lparr>sr_src := rest\<rparr>))
         (\<lambda>s'. case st of
            ReadMore \<Rightarrow> Inr s'
          | ReadEOF \<Rightarrow> Inr (s'\<lparr>sr_eof := True\<rparr>)
          | ReadFailed \<Rightarrow> Inl StreamRead))"

definition finishStream :: "StreamReader \<Rightarrow> stream_error + StreamReader" where
  "finishStream s =
     (let pend = pending (sr_sc s); opened = openCrossings (sr_asm s) in
      if pend > 0 then
        Inl (Truncation \<lparr>tr_Kind = TruncatedMidRecord, tr_Groups = sr_next s,
               tr_OpenCrossings = opened, tr_PendingBytes = pend\<rparr>)
      else case finish (sr_asm s) of
        Inl e \<Rightarrow>
          if opened > 0 then
            Inl (Truncation \<lparr>tr_Kind = TruncatedMidCrossing, tr_Groups = sr_next s,
                   tr_OpenCrossings = opened, tr_PendingBytes = 0\<rparr>)
          else Inl (StreamAsm e)
      | Inr a \<Rightarrow>
          if \<not> sc_done (sr_sc s) then
            Inl (Truncation \<lparr>tr_Kind = TruncatedUnterminated, tr_Groups = sr_next s,
                   tr_OpenCrossings = 0, tr_PendingBytes = 0\<rparr>)
          else Inr (s\<lparr>sr_asm := a\<rparr>))"

definition reader_measure :: "StreamReader \<Rightarrow> nat" where
  "reader_measure s = (if sr_eof s then 0 else Suc (length (sr_src s))) + (if sr_closed s then 0 else 1)"

lemma drain_reader_fields: "drain_reader fo js s = Inr s' \<Longrightarrow> sr_src s' = sr_src s \<and> sr_eof s' = sr_eof s \<and>
    sr_closed s' = sr_closed s \<and> sr_next s' = sr_next s \<and> sr_failed s' = sr_failed s"
  by (auto simp: drain_reader_def split: sum.splits)

lemma pump_fields:
  assumes "pump fo js s = Inr s'"
  shows "sr_closed s' = sr_closed s \<and> sr_next s' = sr_next s \<and> sr_failed s' = sr_failed s \<and>
    (sr_src s = [] \<and> sr_eof s' \<or> length (sr_src s') < length (sr_src s))"
proof (cases "sr_src s")
  case Nil
  with assms show ?thesis by (auto simp: pump_def)
next
  case (Cons bt rest)
  then show ?thesis using assms
    by (cases bt; cases "snd bt") (auto simp: pump_def bind_res_eq_Inr split: if_splits dest!: drain_reader_fields)
qed

lemma pump_measure: "\<not> sr_eof s \<Longrightarrow> pump fo js s = Inr s' \<Longrightarrow> reader_measure s' < reader_measure s"
  by (auto simp: reader_measure_def dest!: pump_fields)

lemma finishStream_measure: "finishStream (s\<lparr>sr_closed := True\<rparr>) = Inr s' \<Longrightarrow> sr_eof s \<Longrightarrow> \<not> sr_closed s \<Longrightarrow>
    reader_measure s' < reader_measure s"
  by (auto simp: finishStream_def reader_measure_def Let_def split: sum.splits if_splits)

function next_loop :: "float_ops \<Rightarrow> (string \<Rightarrow> json option) \<Rightarrow> StreamReader \<Rightarrow>
    StreamReader \<times> (stream_error + Crossing list option)" where
  "next_loop fo js s =
     (if groups (sr_asm s) > sr_next s then
        (s\<lparr>sr_next := sr_next s + 1\<rparr>, Inr (Some (group (sr_asm s) (sr_next s))))
      else if sr_eof s then
        if \<not> sr_closed s then
          (case finishStream (s\<lparr>sr_closed := True\<rparr>) of
             Inl e \<Rightarrow> (s\<lparr>sr_closed := True, sr_failed := Some e\<rparr>, Inl e)
           | Inr s' \<Rightarrow> next_loop fo js s')
        else (s, Inr None)
      else
        (case pump fo js s of
           Inl e \<Rightarrow> (s\<lparr>sr_failed := Some e\<rparr>, Inl e)
         | Inr s' \<Rightarrow> next_loop fo js s'))"
  by pat_completeness auto
termination
  by (relation "measure (\<lambda>(fo, js, s). reader_measure s)") (auto dest: pump_measure finishStream_measure)

declare next_loop.simps [simp del]

text \<open>\<open>Inr None\<close> is \<open>io.EOF\<close>.\<close>

definition NextGroup :: "float_ops \<Rightarrow> (string \<Rightarrow> json option) \<Rightarrow> StreamReader \<Rightarrow>
    StreamReader \<times> (stream_error + Crossing list option)" where
  "NextGroup fo js s = (case sr_failed s of Some e \<Rightarrow> (s, Inl e) | None \<Rightarrow> next_loop fo js s)"

text \<open>Calling \<open>NextGroup\<close> a number of times.\<close>

fun take_groups :: "float_ops \<Rightarrow> (string \<Rightarrow> json option) \<Rightarrow> nat \<Rightarrow> StreamReader \<Rightarrow>
    StreamReader \<times> (stream_error + Crossing list option) list" where
  "take_groups fo js 0 s = (s, [])"
| "take_groups fo js (Suc n) s =
     (case NextGroup fo js s of (s1, r) \<Rightarrow> case take_groups fo js n s1 of (s2, rs) \<Rightarrow> (s2, r # rs))"

subsection \<open>Following a growing file\<close>

text \<open>One turn of the polling loop: what the file had and whether that read failed, whether the producer
  had stopped by then, and the same of the last read made after that.\<close>

record poll =
  po_first :: string
  po_first_err :: bool
  po_stopped :: bool
  po_last :: string
  po_last_err :: bool

record followReader =
  fo_drained :: bool
  fo_polls :: "poll list"

text \<open>\<open>None\<close>: still waiting when the turns given are used up.\<close>

fun follow_loop :: "poll list \<Rightarrow> (followReader \<times> string \<times> read_status) option" where
  "follow_loop [] = None"
| "follow_loop (p # ps) =
     (if po_first p \<noteq> [] then Some (\<lparr>fo_drained = False, fo_polls = ps\<rparr>, po_first p, ReadMore)
      else if po_first_err p then Some (\<lparr>fo_drained = False, fo_polls = ps\<rparr>, [], ReadFailed)
      else if po_stopped p then
        if po_last p \<noteq> [] then Some (\<lparr>fo_drained = False, fo_polls = ps\<rparr>, po_last p, ReadMore)
        else if po_last_err p then Some (\<lparr>fo_drained = False, fo_polls = ps\<rparr>, [], ReadFailed)
        else Some (\<lparr>fo_drained = True, fo_polls = ps\<rparr>, [], ReadEOF)
      else follow_loop ps)"

definition followReader_Read :: "followReader \<Rightarrow> (followReader \<times> string \<times> read_status) option" where
  "followReader_Read r = (if fo_drained r then Some (r, [], ReadEOF) else follow_loop (fo_polls r))"

section \<open>Lemmas\<close>

abbreviation bytes_run :: "float_ops \<Rightarrow> (string \<Rightarrow> json option) \<Rightarrow> mode \<times> assembler \<Rightarrow> string \<Rightarrow> stream_error + mode \<times> assembler" where
  "bytes_run fo js \<equiv> run_steps (byte_step StreamScan (push_text fo js))"

lemma push_text_ok: "asm_from a0 a \<Longrightarrow> res_ok (asm_from a0) (push_text fo js a t)"
  by (auto simp: push_text_def split: sum.split intro: res_okD[OF push_ok])

interpretation bytes: step_invariant "byte_step StreamScan (push_text fo js)" "\<lambda>(m, a). asm_from a0 a"
  by unfold_locales (auto simp: byte_step_def bind_res_eq_Inr split: sum.splits option.splits prod.splits
      intro: res_okD[OF push_text_ok])

lemma bytes_from: "bytes_run fo js (MStart, newAssembler) p = Inr (m, a) \<Longrightarrow> asm_from newAssembler a"
  using bytes.run_inv[of newAssembler "(MStart, newAssembler)" fo js p "(m, a)"] new_ok(1) by simp

lemma bytes_more:
  assumes "bytes_run fo js (MStart, newAssembler) p = Inr (m, a)" "bytes_run fo js (m, a) q = Inr (m', a')"
  shows "asm_from a a'"
  using bytes.run_inv[of a "(m, a)" fo js q "(m', a')"] asm_from_refl[OF bytes_from[OF assms(1)]] assms(2) by simp

lemma from_groups: "asm_from a0 a \<Longrightarrow> asm_from a b \<Longrightarrow> groups a \<le> groups b"
  using groups_keep[of a0 a b "groups a - 1"] by (cases "groups a") auto

lemma groups_mono:
  "bytes_run fo js (MStart, newAssembler) p = Inr (m, a) \<Longrightarrow> bytes_run fo js (m, a) q = Inr (m', a') \<Longrightarrow>
   groups a \<le> groups a'"
  using from_groups bytes_from bytes_more by metis

lemma unread_feed: "scan_ok sc \<Longrightarrow> unread (feed sc b) = unread sc @ b"
  by (simp add: unread_def feed_def scan_ok_def)

lemma mode_feed: "scan_ok sc \<Longrightarrow> mode_of (feed sc b) = mode_of sc \<and> scan_ok (feed sc b)"
  by (auto simp: mode_of_def feed_def scan_ok_def slice_append_left split: option.splits)

text \<open>The state of a reader part of the way through the bytes \<open>B\<close>.\<close>

definition midway :: "float_ops \<Rightarrow> (string \<Rightarrow> json option) \<Rightarrow> string \<Rightarrow> StreamReader \<Rightarrow> bool" where
  "midway fo js B s \<longleftrightarrow> scan_ok (sr_sc s) \<and> sr_failed s = None \<and> \<not> sr_closed s \<and> sr_next s \<le> groups (sr_asm s) \<and>
     (\<forall>x\<in>set (sr_src s). snd x = ReadMore) \<and> (unread (sr_sc s) = [] \<or> mode_of (sr_sc s) = MDone) \<and>
     (sr_eof s \<longrightarrow> sr_src s = []) \<and>
     (\<exists>p. B = p @ unread (sr_sc s) @ concat (map fst (sr_src s)) \<and>
        bytes_run fo js (MStart, newAssembler) p = Inr (mode_of (sr_sc s), sr_asm s))"

lemma drain_midway:
  assumes ok: "bytes_run fo js (MStart, newAssembler) B = Inr ma" and B: "B = p @ unread sc @ rest"
    and p: "bytes_run fo js (MStart, newAssembler) p = Inr (mode_of sc, a)" and sc: "scan_ok sc"
  shows "\<exists>sc' a' q. drain StreamScan (push_text fo js) sc a = Inr (sc', a') \<and> scan_ok sc' \<and>
    (unread sc' = [] \<or> mode_of sc' = MDone) \<and> B = q @ unread sc' @ rest \<and>
    bytes_run fo js (MStart, newAssembler) q = Inr (mode_of sc', a') \<and> groups a \<le> groups a'"
proof (cases "drain StreamScan (push_text fo js) sc a")
  case (Inl e)
  with drain_follows[OF sc, of StreamScan "push_text fo js" a] obtain q q' where
    "unread sc = q @ q'" "bytes_run fo js (mode_of sc, a) q = Inl e" by auto
  then have "bytes_run fo js (MStart, newAssembler) B = Inl e" using B p by (simp add: run_steps_append)
  with ok show ?thesis by simp
next
  case (Inr x)
  obtain sc' a' where x: "x = (sc', a')" by (cases x)
  with Inr drain_follows[OF sc, of StreamScan "push_text fo js" a] obtain q where
    "scan_ok sc'" "unread sc' = [] \<or> mode_of sc' = MDone" "unread sc = q @ unread sc'"
    "bytes_run fo js (mode_of sc, a) q = Inr (mode_of sc', a')" by auto
  moreover have "groups a \<le> groups a'"
    using groups_mono[OF p] calculation(4) by blast
  ultimately show ?thesis using Inr x B p by (auto simp: run_steps_append intro!: exI[of _ "p @ q"])
qed

lemma pump_midway:
  assumes ok: "bytes_run fo js (MStart, newAssembler) B = Inr ma" and s: "midway fo js B s"
  shows "\<exists>s'. pump fo js s = Inr s' \<and> midway fo js B s'"
proof (cases "sr_src s")
  case Nil
  then show ?thesis using s by (auto simp: pump_def midway_def)
next
  case (Cons bt rest)
  then obtain b where bt: "bt = (b, ReadMore)" using s by (cases bt) (simp add: midway_def)
  obtain p where sc: "scan_ok (sr_sc s)" and p: "B = p @ unread (sr_sc s) @ b @ concat (map fst rest)"
    "bytes_run fo js (MStart, newAssembler) p = Inr (mode_of (sr_sc s), sr_asm s)"
    using s Cons bt by (auto simp: midway_def)
  show ?thesis
  proof (cases "b = []")
    case True
    then have "pump fo js s = Inr (s\<lparr>sr_src := rest\<rparr>)" using Cons bt by (simp add: pump_def)
    moreover have "midway fo js B (s\<lparr>sr_src := rest\<rparr>)" using s Cons True bt by (auto simp: midway_def)
    ultimately show ?thesis by blast
  next
    case False
    have "B = p @ unread (feed (sr_sc s) (b)) @ concat (map fst rest)" using p(1) unread_feed[OF sc] by simp
    moreover have "bytes_run fo js (MStart, newAssembler) p = Inr (mode_of (feed (sr_sc s) (b)), sr_asm s)"
      "scan_ok (feed (sr_sc s) (b))" using p(2) mode_feed[OF sc] by auto
    ultimately obtain sc' a' q where d: "drain StreamScan (push_text fo js) (feed (sr_sc s) (b)) (sr_asm s) = Inr (sc', a')"
      "scan_ok sc'" "unread sc' = [] \<or> mode_of sc' = MDone" "B = q @ unread sc' @ concat (map fst rest)"
      "bytes_run fo js (MStart, newAssembler) q = Inr (mode_of sc', a')" "groups (sr_asm s) \<le> groups a'"
      using drain_midway[OF ok] by metis
    have "pump fo js s = Inr (s\<lparr>sr_src := rest, sr_sc := sc', sr_asm := a'\<rparr>)"
      using Cons bt False d(1) by (simp add: pump_def drain_reader_def)
    then show ?thesis using s d Cons bt by (auto simp: midway_def)
  qed
qed


lemma done_run: "bytes_run fo js (MDone, b) q = Inr (m', b') \<Longrightarrow> m' = MDone \<and> b' = b"
  by (induction q) (auto simp: byte_step_def byte_mode_def bind_res_eq_Inr split: if_splits)

lemma end_midway:
  assumes ok: "bytes_run fo js (MStart, newAssembler) B = Inr (m, a)" and s: "midway fo js B s" "sr_eof s"
  shows "mode_of (sr_sc s) = m \<and> sr_asm s = a"
proof -
  obtain p where p: "B = p @ unread (sr_sc s)" "bytes_run fo js (MStart, newAssembler) p = Inr (mode_of (sr_sc s), sr_asm s)"
    using s by (auto simp: midway_def)
  then have "bytes_run fo js (mode_of (sr_sc s), sr_asm s) (unread (sr_sc s)) = Inr (m, a)"
    using ok by (simp add: run_steps_append)
  then show ?thesis using s by (auto simp: midway_def dest: done_run)
qed

lemma midway_from:
  assumes ok: "bytes_run fo js (MStart, newAssembler) B = Inr (m, a)" and s: "midway fo js B s"
  shows "asm_from newAssembler (sr_asm s) \<and> asm_from (sr_asm s) a"
proof -
  obtain p r where B: "B = p @ r" and p: "bytes_run fo js (MStart, newAssembler) p = Inr (mode_of (sr_sc s), sr_asm s)"
    using s unfolding midway_def by blast
  have "bytes_run fo js (mode_of (sr_sc s), sr_asm s) r = Inr (m, a)" using ok p by (simp add: B run_steps_append)
  then show ?thesis using bytes_from[OF p] bytes_more[OF p] by blast
qed

lemma next_midway:
  assumes ok: "bytes_run fo js (MStart, newAssembler) B = Inr (m, a)"
  shows "midway fo js B s \<Longrightarrow> sr_next s < groups a \<Longrightarrow>
    \<exists>s'. next_loop fo js s = (s', Inr (Some (group a (sr_next s)))) \<and> midway fo js B s' \<and> sr_next s' = sr_next s + 1"
proof (induction "reader_measure s" arbitrary: s rule: less_induct)
  case less
  show ?case
  proof (cases "groups (sr_asm s) > sr_next s")
    case True
    then have "group a (sr_next s) = group (sr_asm s) (sr_next s)"
      using groups_keep midway_from[OF ok less.prems(1)] by blast
    moreover have "midway fo js B (s\<lparr>sr_next := sr_next s + 1\<rparr>)" using less.prems True by (auto simp: midway_def)
    ultimately show ?thesis using True by (subst next_loop.simps) simp
  next
    case False
    then have ne: "\<not> sr_eof s" using end_midway[OF ok less.prems(1)] less.prems(2) by auto
    obtain s' where s': "pump fo js s = Inr s'" "midway fo js B s'" using pump_midway[OF ok less.prems(1)] by blast
    then have "sr_next s' = sr_next s" using pump_fields by blast
    with less.hyps[OF pump_measure[OF ne s'(1)] s'(2)] less.prems(2) s'(1) False ne
    show ?thesis by (subst next_loop.simps) simp
  qed
qed

text \<open>What the reader reports when the bytes end.\<close>

definition end_of_bytes :: "mode \<Rightarrow> assembler \<Rightarrow> stream_error + assembler" where
  "end_of_bytes m a = (case m of
     MElem t d str esc \<Rightarrow> Inl (Truncation \<lparr>tr_Kind = TruncatedMidRecord, tr_Groups = groups a,
       tr_OpenCrossings = openCrossings a, tr_PendingBytes = length t\<rparr>)
   | _ \<Rightarrow> (case finish a of
       Inl e \<Rightarrow> if openCrossings a > 0 then Inl (Truncation \<lparr>tr_Kind = TruncatedMidCrossing, tr_Groups = groups a,
           tr_OpenCrossings = openCrossings a, tr_PendingBytes = 0\<rparr>) else Inl (StreamAsm e)
     | Inr b \<Rightarrow> if m = MDone then Inr b else Inl (Truncation \<lparr>tr_Kind = TruncatedUnterminated,
         tr_Groups = groups a, tr_OpenCrossings = 0, tr_PendingBytes = 0\<rparr>)))"

lemma finishStream_end:
  assumes "scan_ok (sr_sc s)" "sr_next s = groups (sr_asm s)" "unread (sr_sc s) = [] \<or> mode_of (sr_sc s) = MDone"
  shows "finishStream s = (case end_of_bytes (mode_of (sr_sc s)) (sr_asm s) of Inl e \<Rightarrow> Inl e | Inr b \<Rightarrow> Inr (s\<lparr>sr_asm := b\<rparr>))"
proof (cases "sc_elemStart (sr_sc s)")
  case None
  then have "pending (sr_sc s) = 0" "mode_of (sr_sc s) = MDone \<longleftrightarrow> sc_done (sr_sc s)"
    "mode_of (sr_sc s) \<in> {MStart, MBetween, MDone}"
    using assms(1) by (auto simp: pending_def mode_of_def scan_ok_def)
  then show ?thesis using assms(2)
    by (auto simp: finishStream_def end_of_bytes_def split: sum.split)
next
  case (Some e)
  then have st: "sc_started (sr_sc s)" "e < sc_i (sr_sc s)" "sc_i (sr_sc s) \<le> length (sc_buf (sr_sc s))"
    using assms(1) by (auto simp: scan_ok_def)
  then have "sc_i (sr_sc s) = length (sc_buf (sr_sc s))" using assms(3) Some by (simp add: mode_of_def unread_def)
  with st Some assms(2) show ?thesis by (simp add: finishStream_def end_of_bytes_def mode_of_def pending_def)
qed

definition finished :: "assembler \<Rightarrow> StreamReader \<Rightarrow> bool" where
  "finished b s \<longleftrightarrow> sr_failed s = None \<and> sr_eof s \<and> sr_closed s \<and> sr_asm s = b"

lemma next_end:
  assumes ok: "bytes_run fo js (MStart, newAssembler) B = Inr (m, a)"
  shows "midway fo js B s \<Longrightarrow> sr_next s = groups a \<Longrightarrow> case end_of_bytes m a of
      Inl e \<Rightarrow> \<exists>s'. next_loop fo js s = (s', Inl e) \<and> sr_failed s' = Some e
    | Inr b \<Rightarrow> \<exists>s'. next_loop fo js s = next_loop fo js s' \<and> finished b s' \<and> sr_next s' = sr_next s"
proof (induction "reader_measure s" arbitrary: s rule: less_induct)
  case less
  have le: "groups (sr_asm s) \<le> groups a" using midway_from[OF ok less.prems(1)] from_groups by blast
  show ?case
  proof (cases "sr_eof s")
    case True
    with end_midway[OF ok less.prems(1)] have e: "mode_of (sr_sc s) = m" "sr_asm s = a" by auto
    let ?s = "s\<lparr>sr_closed := True\<rparr>"
    have f: "finishStream ?s = (case end_of_bytes m a of Inl e \<Rightarrow> Inl e | Inr b \<Rightarrow> Inr (?s\<lparr>sr_asm := b\<rparr>))"
      using finishStream_end[of ?s] less.prems e by (simp add: midway_def)
    have n: "next_loop fo js s = (case finishStream ?s of Inl e \<Rightarrow> (s\<lparr>sr_closed := True, sr_failed := Some e\<rparr>, Inl e)
        | Inr s' \<Rightarrow> next_loop fo js s')"
      using True less.prems e by (subst next_loop.simps) (simp add: midway_def)
    show ?thesis
    proof (cases "end_of_bytes m a")
      case (Inl e)
      then show ?thesis using n f by simp
    next
      case (Inr b)
      then show ?thesis using n f True less.prems
        by (auto simp: finished_def midway_def intro!: exI[of _ "?s\<lparr>sr_asm := b\<rparr>"])
    qed
  next
    case False
    obtain s' where s': "pump fo js s = Inr s'" "midway fo js B s'" using pump_midway[OF ok less.prems(1)] by blast
    have "sr_next s' = groups a" using pump_fields[OF s'(1)] less.prems(2) by simp
    moreover have "next_loop fo js s = next_loop fo js s'"
      using False s'(1) le less.prems(2) by (subst next_loop.simps) simp
    ultimately show ?thesis using less.hyps[OF pump_measure[OF False s'(1)] s'(2)] less.prems(2)
      by (cases "end_of_bytes m a") auto
  qed
qed

lemma next_finished:
  "finished b s \<Longrightarrow> NextGroup fo js s = (if groups b > sr_next s
     then (s\<lparr>sr_next := sr_next s + 1\<rparr>, Inr (Some (group b (sr_next s)))) else (s, Inr None))"
  unfolding NextGroup_def by (subst next_loop.simps) (simp add: finished_def)

lemma take_midway:
  assumes ok: "bytes_run fo js (MStart, newAssembler) B = Inr (m, a)"
  shows "midway fo js B s \<Longrightarrow> sr_next s + n \<le> groups a \<Longrightarrow>
    \<exists>s'. take_groups fo js n s = (s', map (\<lambda>i. Inr (Some (group a i))) [sr_next s..<sr_next s + n]) \<and>
      midway fo js B s' \<and> sr_next s' = sr_next s + n"
proof (induction n arbitrary: s)
  case (Suc n)
  obtain s1 where s1: "next_loop fo js s = (s1, Inr (Some (group a (sr_next s))))" "midway fo js B s1"
    "sr_next s1 = sr_next s + 1" using next_midway[OF ok Suc.prems(1)] Suc.prems(2) by auto
  then have "NextGroup fo js s = (s1, Inr (Some (group a (sr_next s))))"
    using Suc.prems(1) by (simp add: NextGroup_def midway_def)
  then show ?case using Suc.IH[OF s1(2)] Suc.prems(2) s1(3) by (auto simp: upt_conv_Cons simp del: upt_Suc)
qed simp

lemma take_Suc: "snd (take_groups fo js (Suc k) s) =
    snd (NextGroup fo js s) # snd (take_groups fo js k (fst (NextGroup fo js s)))"
  by (simp split: prod.split)

lemma take_finished:
  "finished b s \<Longrightarrow> sr_next s \<le> groups b \<Longrightarrow>
   snd (take_groups fo js (groups b - sr_next s + 1) s) =
     map (\<lambda>i. Inr (Some (group b i))) [sr_next s..<groups b] @ [Inr None]"
proof (induction "groups b - sr_next s" arbitrary: s)
  case 0
  then show ?case by (simp add: next_finished)
next
  case (Suc n)
  let ?s = "s\<lparr>sr_next := sr_next s + 1\<rparr>"
  have "NextGroup fo js s = (?s, Inr (Some (group b (sr_next s))))"
    using Suc.prems Suc.hyps(2) by (simp add: next_finished)
  moreover have "finished b ?s" using Suc.prems(1) by (simp add: finished_def)
  moreover have "groups b - sr_next s + 1 = Suc (groups b - sr_next ?s + 1)" "n = groups b - sr_next ?s"
    "sr_next ?s \<le> groups b" "sr_next s < groups b" using Suc.hyps(2) by auto
  ultimately show ?case
    using Suc.hyps(1)[of ?s] by (simp only: take_Suc) (simp add: upt_conv_Cons)
qed


lemma new_midway:
  assumes "\<forall>x\<in>set src. snd x = ReadMore"
  shows "midway fo js (concat (map fst src)) (NewStreamReader src)"
  using assms by (simp add: midway_def NewStreamReader_def newJSONArrayScanner_def scan_ok_def unread_def mode_of_def)

lemma take_append: "snd (take_groups fo js (n + k) s) =
    snd (take_groups fo js n s) @ snd (take_groups fo js k (fst (take_groups fo js n s)))"
proof (induction n arbitrary: s)
  case (Suc n)
  have "fst (take_groups fo js (Suc n) s) = fst (take_groups fo js n (fst (NextGroup fo js s)))"
    by (simp split: prod.split)
  then show ?case using Suc.IH[of "fst (NextGroup fo js s)"] by (simp add: take_Suc del: take_groups.simps)
qed simp

lemma finish_all:
  assumes "asm_from a0 a" "finish a = Inr b"
  shows "concat (map (group b) [0..<groups b]) = a_crossings b"
proof (rule groups_all)
  show b: "asm_from a0 b" by (rule res_okD[OF finish_ok[OF assms(1)] assms(2)])
  obtain a1 where a1: "closeRun a = Inr a1" "b = noteGroupBoundary (closeDanglingImports a1 [] True)"
    "a_stack (closeDanglingImports a1 [] True) = []"
    using assms(2) by (auto simp: finish_def Let_def bind_res_eq_Inr split: if_splits)
  have "a_groupStart b \<le> length (a_crossings b)" using b by (simp add: asm_from_def asm_ok_def)
  then show "a_groupStart b = length (a_crossings b)"
    using a1 closeRun_pending[OF a1(1)] by (auto simp: noteGroupBoundary_def split: if_splits)
qed

subsection \<open>Texts of recordings\<close>

text \<open>A text that is one complete object for the automaton, and the array the producer writes.\<close>

definition collect :: "string list \<Rightarrow> string \<Rightarrow> scan_error + string list" where
  "collect out t = Inr (out @ [t])"

definition object_text :: "string \<Rightarrow> bool" where
  "object_text e \<longleftrightarrow> run_steps (byte_step (\<lambda>e. e) collect) (MBetween, []) e = Inr (MBetween, [e])"

fun comma_list :: "string list \<Rightarrow> string" where
  "comma_list [] = []"
| "comma_list [e] = e"
| "comma_list (e # es) = e @ '','' @ comma_list es"

definition array_text :: "string list \<Rightarrow> string" where
  "array_text es = ''['' @ comma_list es @ '']''"

lemma run_collect:
  "run_steps (byte_step (\<lambda>e. e) collect) (m, out) bs = Inr (m', out') \<Longrightarrow>
   \<exists>ts. out' = out @ ts \<and> (\<forall>a. run_steps (byte_step err f) (m, a) bs = bind_res (run_steps f a ts) (\<lambda>a'. Inr (m', a')))"
proof (induction bs arbitrary: m out)
  case Nil
  then show ?case by auto
next
  case (Cons c bs)
  then obtain m1 o1 where 1: "byte_step (\<lambda>e. e) collect (m, out) c = Inr (m1, o1)"
    "run_steps (byte_step (\<lambda>e. e) collect) (m1, o1) bs = Inr (m', out')" by (auto simp: bind_res_eq_Inr)
  obtain ts where ts: "out' = o1 @ ts"
    "\<And>a. run_steps (byte_step err f) (m1, a) bs = bind_res (run_steps f a ts) (\<lambda>a'. Inr (m', a'))"
    using Cons.IH[OF 1(2)] by blast
  obtain t where t: "byte_mode m c = Inr (m1, t)" "o1 = out @ (case t of None \<Rightarrow> [] | Some x \<Rightarrow> [x])"
    using 1(1) by (auto simp: byte_step_def collect_def split: sum.splits option.splits prod.splits)
  show ?case
  proof (cases t)
    case None
    then show ?thesis using ts t by (intro exI[of _ ts]) simp
  next
    case (Some x)
    then show ?thesis using ts t by (intro exI[of _ "x # ts"]) (simp add: bind_res_assoc)
  qed
qed

lemma object_run:
  assumes "object_text e"
  shows "run_steps (byte_step err f) (MBetween, a) e = bind_res (f a e) (\<lambda>a'. Inr (MBetween, a'))"
  using run_collect[OF assms[unfolded object_text_def], of err f] by (auto simp: bind_res_assoc)

lemma comma_run:
  "list_all object_text es \<Longrightarrow> run_steps (byte_step err f) (MBetween, a) (comma_list es) =
    bind_res (run_steps f a es) (\<lambda>a'. Inr (MBetween, a'))"
proof (induction es arbitrary: a rule: comma_list.induct)
  case (2 e)
  then show ?case by (simp add: object_run bind_res_assoc)
next
  case (3 e e' es)
  have "byte_mode MBetween CHR '','' = Inr (MBetween, None)" by (simp add: byte_mode_def is_separator_def)
  with 3 show ?case by (cases "f a e") (simp_all add: run_steps_append object_run)
qed simp

lemma array_run:
  assumes "list_all object_text es"
  shows "run_steps (byte_step err f) (MStart, a) (array_text es) = bind_res (run_steps f a es) (\<lambda>a'. Inr (MDone, a'))"
proof -
  have "byte_mode MStart CHR ''['' = Inr (MBetween, None)" "byte_mode MBetween CHR '']'' = Inr (MDone, None)"
    by (simp_all add: byte_mode_def isJSONSpace_def is_separator_def)
  then show ?thesis by (simp add: array_text_def run_steps_append bind_res_assoc comma_run[OF assms])
qed

lemma push_texts:
  assumes "map_res (\<lambda>t. unmarshal_text js dec_traceEvent t traceEvent0) es = Inr evs"
    and "run_steps (push fo js) a evs = Inr b"
  shows "run_steps (push_text fo js) a es = Inr b"
  using assms
proof (induction es arbitrary: a evs)
  case (Cons e es)
  then show ?case by (auto simp: bind_res_eq_Inr push_text_def)
qed simp

lemma load_run:
  assumes "LoadRecording fo js dir = Inr rec" "f_trace dir = Some (array_text es)"
    and "js (array_text es) = Some (JArr ts)" "list_all2 (\<lambda>e t. js e = Some t) es ts"
  shows "\<exists>a b. run_steps (push_text fo js) newAssembler es = Inr a \<and> finish a = Inr b \<and> a_crossings b = r_Crossings rec"
proof -
  have m: "map_res (\<lambda>t. unmarshal_text js dec_traceEvent t traceEvent0) es = map_res (\<lambda>j. dec_traceEvent j traceEvent0) ts"
    using assms(4) by (induction rule: list_all2_induct) (simp_all add: unmarshal_text_def)
  obtain evs a b where e: "map_res (\<lambda>j. dec_traceEvent j traceEvent0) ts = Inr evs"
    "run_steps (push fo js) newAssembler evs = Inr a" "finish a = Inr b" "a_crossings b = r_Crossings rec"
    using assms(1-3)
    by (auto simp: LoadRecording_def unmarshal_text_def dec_list_def reconstructCrossings_def bind_res_eq_Inr
        split: sum.splits)
  then show ?thesis using push_texts[of js es evs fo newAssembler a] m by auto
qed

lemma reader_results:
  assumes src: "\<forall>x\<in>set src. snd x = ReadMore"
    and run: "bytes_run fo js (MStart, newAssembler) (concat (map fst src)) = Inr (m, a)"
  shows "case end_of_bytes m a of
      Inl e \<Rightarrow> snd (take_groups fo js (groups a + 1) (NewStreamReader src)) =
        map (\<lambda>i. Inr (Some (group a i))) [0..<groups a] @ [Inl e]
    | Inr b \<Rightarrow> snd (take_groups fo js (groups b + 1) (NewStreamReader src)) =
        map (\<lambda>i. Inr (Some (group b i))) [0..<groups b] @ [Inr None]"
proof -
  let ?r = "NewStreamReader src"
  have r: "midway fo js (concat (map fst src)) ?r" "sr_next ?r = 0" using new_midway[OF src] by (simp_all add: NewStreamReader_def)
  obtain s where s: "take_groups fo js (groups a) ?r = (s, map (\<lambda>i. Inr (Some (group a i))) [0..<groups a])"
    "midway fo js (concat (map fst src)) s" "sr_next s = groups a"
    using take_midway[OF run r(1), of "groups a"] r(2) by auto
  have ng: "NextGroup fo js s = next_loop fo js s" using s(2) by (simp add: NextGroup_def midway_def)
  show ?thesis
  proof (cases "end_of_bytes m a")
    case (Inl e)
    then obtain s' where "next_loop fo js s = (s', Inl e)" using next_end[OF run s(2,3)] by auto
    then show ?thesis using Inl s(1) ng take_append[of fo js "groups a" 1 ?r] by simp
  next
    case (Inr b)
    then obtain s' where s': "next_loop fo js s = next_loop fo js s'" "finished b s'" "sr_next s' = groups a"
      using next_end[OF run s(2,3)] s(3) by auto
    have b: "finish a = Inr b" using Inr by (auto simp: end_of_bytes_def split: mode.splits sum.splits if_splits)
    have fr: "asm_from newAssembler a" using bytes_from[OF run] .
    then have ab: "asm_from a b" using res_okD[OF finish_ok[OF asm_from_refl] b] by blast
    have g: "groups a \<le> groups b" "\<And>i. i < groups a \<Longrightarrow> group a i = group b i"
      using from_groups[OF fr ab] groups_keep[OF fr ab] by auto
    define k where "k = groups b - groups a"
    have "NextGroup fo js s = NextGroup fo js s'" using ng s'(1,2) by (simp add: NextGroup_def finished_def)
    then have "snd (take_groups fo js (k + 1) s) = snd (take_groups fo js (k + 1) s')" using take_Suc[of fo js k] by simp
    also have "\<dots> = map (\<lambda>i. Inr (Some (group b i))) [groups a..<groups b] @ [Inr None]"
      using take_finished[OF s'(2), of fo js] s'(3) g(1) by (simp add: k_def)
    finally have "snd (take_groups fo js (groups a + (k + 1)) ?r) = map (\<lambda>i. Inr (Some (group a i))) [0..<groups a] @
        map (\<lambda>i. Inr (Some (group b i))) [groups a..<groups b] @ [Inr None]"
      using s(1) by (simp only: take_append) simp
    moreover have "groups a + (k + 1) = groups b + 1" using g(1) by (simp add: k_def)
    moreover have "map (\<lambda>i. Inr (Some (group a i))) [0..<groups a] = map (\<lambda>i. Inr (Some (group b i))) [0..<groups a]"
      using g(2) by simp
    moreover have "[0..<groups b] = [0..<groups a] @ [groups a..<groups b]" 
      using upt_add_eq_append[of 0 "groups a" k] g(1) by (simp add: k_def)
    ultimately show ?thesis using Inr by simp
  qed
qed

subsection \<open>An example recording\<close>

definition ex_texts :: "string list" where
  "ex_texts = [''{f}'', ''{c}'', ''{r}'']"

definition ex_trees :: "json list" where
  "ex_trees = [JObj [(''Function'', JObj [(''name'', JStr ''f'')])],
     JObj [(''Call'', JObj [(''function_id'', JNum ''0'')])], JObj [(''Return'', JObj [])]]"

definition ex_parse :: "string \<Rightarrow> json option" where
  "ex_parse t = (if t = array_text ex_texts then Some (JArr ex_trees) else map_of (zip ex_texts ex_trees) t)"

definition ex_dir :: ct_dir where
  "ex_dir = \<lparr>f_metadata = None, f_paths = None, f_state = None, f_trace = Some (array_text ex_texts)\<rparr>"

definition ex_chunks :: "(string \<times> read_status) list" where
  "ex_chunks = [(''[{f},{'', ReadMore), (''c},{r}]'', ReadMore)]"

lemma ex_parse_simps: "ex_parse (array_text ex_texts) = Some (JArr ex_trees)"
  "list_all2 (\<lambda>e t. ex_parse e = Some t) ex_texts ex_trees" "list_all object_text ex_texts"
  "concat (map fst ex_chunks) = array_text ex_texts" "\<forall>x\<in>set ex_chunks. snd x = ReadMore"
  by (simp_all add: ex_parse_def ex_texts_def ex_trees_def array_text_def object_text_def byte_step_def byte_mode_def
      is_separator_def isJSONSpace_def collect_def ex_chunks_def)

lemma ex_decode: "map_res (\<lambda>j. dec_traceEvent j traceEvent0) ex_trees = Inr ex_events"
  by (simp add: ex_trees_def ex_events_def dec_traceEvent_def dec_struct_def dec_field_def fld_def dec_ptr_def
      dec_functionRecord_def dec_callRecord_def dec_returnRecord_def dec_string_def dec_uint32_def
      ParseUint_def digit_val_def traceEvent0_def ev_Function_def ev_Call_def ev_Return_def)

lemma ex_push_texts: "run_steps (push_text fo ex_parse) newAssembler ex_texts = Inr ex_state"
proof (rule push_texts[OF _ ex_run])
  show "map_res (\<lambda>t. unmarshal_text ex_parse dec_traceEvent t traceEvent0) ex_texts = Inr ex_events"
    using ex_decode by (simp add: ex_texts_def ex_trees_def unmarshal_text_def ex_parse_def array_text_def)
qed

lemma ex_load: "LoadRecording fo ex_parse ex_dir = Inr
    \<lparr>r_Program = [], r_Workdir = [], r_Recorder = [], r_Paths = [], r_Crossings = a_crossings ex_state,
     r_HostState = None, r_MarkersIdentifyImports = False\<rparr>"
proof -
  have "reconstructCrossings fo ex_parse ex_events = Inr (a_crossings ex_state, False, None)"
    using ex_run ex_finish by (simp add: reconstructCrossings_def) (simp add: ex_state_def newAssembler_def)
  then show ?thesis
    by (simp add: LoadRecording_def LoadRecordingMetadata_def ex_dir_def optional_json_def loadHostState_def
        traceMetadata0_def unmarshal_text_def ex_parse_simps dec_list_def ex_decode reconcileHostState_def)
qed

section \<open>Properties\<close>








text \<open>C29: the follower of a growing file reports end of file only when the producer has stopped and a
  read made after that found nothing: every earlier turn found no bytes and a running producer. And
  it does not wait for ever: once there are bytes, a read error or a stopped producer, the read
  returns.\<close>

theorem follow_eof_is_final:
  "(followReader_Read r = Some (r', b, ReadEOF) \<longrightarrow>
      b = [] \<and> fo_drained r' \<and> (fo_drained r \<or> (\<exists>qs p ps. fo_polls r = qs @ p # ps \<and> po_stopped p \<and>
        po_first p = [] \<and> po_last p = [] \<and> (\<forall>q\<in>set qs. po_first q = [] \<and> \<not> po_stopped q)))) \<and>
   (followReader_Read r \<noteq> None \<longleftrightarrow>
      fo_drained r \<or> (\<exists>p\<in>set (fo_polls r). po_first p \<noteq> [] \<or> po_first_err p \<or> po_stopped p))"
proof -
  have "follow_loop polls = Some (r', b, ReadEOF) \<Longrightarrow> b = [] \<and> fo_drained r' \<and> (\<exists>qs p ps. polls = qs @ p # ps \<and>
      po_stopped p \<and> po_first p = [] \<and> po_last p = [] \<and> (\<forall>q\<in>set qs. po_first q = [] \<and> \<not> po_stopped q))" for polls
  proof (induction polls)
    case (Cons p ps)
    show ?case
    proof (cases "po_first p = [] \<and> \<not> po_stopped p")
      case True
      then obtain qs q rest where "b = []" "fo_drained r'" "ps = qs @ q # rest" "po_stopped q" "po_first q = []" "po_last q = []"
        "\<forall>q\<in>set qs. po_first q = [] \<and> \<not> po_stopped q" using Cons by (auto split: if_splits)
      with True show ?thesis by (intro conjI exI[of _ "p # qs"] exI[of _ q] exI[of _ rest]) auto
    next
      case False
      then show ?thesis using Cons.prems by (intro conjI exI[of _ "[]"] exI[of _ p] exI[of _ ps]) (auto split: if_splits)
    qed
  qed simp
  moreover have "follow_loop polls \<noteq> None \<longleftrightarrow> (\<exists>p\<in>set polls. po_first p \<noteq> [] \<or> po_first_err p \<or> po_stopped p)" for polls
    by (induction polls) auto
  ultimately show ?thesis by (auto simp: followReader_Read_def split: if_splits)
qed

theorem follow_eof_is_final_witness:
  "\<exists>r'. followReader_Read \<lparr>fo_drained = False, fo_polls =
        [\<lparr>po_first = [], po_first_err = False, po_stopped = True, po_last = [], po_last_err = False\<rparr>]\<rparr> =
      Some (r', [], ReadEOF) \<and> fo_drained r'"
proof -
  let ?r = "\<lparr>fo_drained = False, fo_polls =
        [\<lparr>po_first = [], po_first_err = False, po_stopped = True, po_last = [], po_last_err = False\<rparr>]\<rparr>"
  have "followReader_Read ?r = Some (\<lparr>fo_drained = True, fo_polls = []\<rparr>, [], ReadEOF)" by (simp add: followReader_Read_def)
  with follow_eof_is_final[of ?r "\<lparr>fo_drained = True, fo_polls = []\<rparr>" "[]"] show ?thesis by blast
qed

end
