(* ===== verification/Manifests.thy ===== *)
theory Manifests
  imports Streams
begin

text \<open>
  The sidecar manifest of the instrumenter (\<open>internal/boundarylog/manifest.go\<close>): its records and
  their JSON form, the signature of a boundary, and the lookups replay makes.
\<close>

section \<open>Definitions\<close>

definition FuncKindImport :: int where "FuncKindImport = 0"
definition FuncKindExport :: int where "FuncKindExport = 1"
definition FuncKindStore :: int where "FuncKindStore = 2"

record ManifestFunction =
  mf_Name :: string
  mf_PathIndex :: int
  mf_Line :: int
  mf_Col :: int

record ManifestSite =
  ms_Kind :: string
  ms_PathIndex :: int
  ms_Line :: int
  ms_Col :: int
  ms_FnID :: int

record ManifestBoundary =
  mb_FnKind :: int
  mb_FnIndex :: u32
  mb_Name :: string
  mb_Module :: string
  mb_Params :: "string list"
  mb_Results :: "string list"
  mb_UnsupportedType :: string

record Manifest =
  mn_Paths :: "string list"
  mn_Functions :: "ManifestFunction list"
  mn_Sites :: "ManifestSite list"
  mn_Boundaries :: "ManifestBoundary list"

datatype manifest_error = UnsupportedBoundary string | BoundaryType value_error | ManifestSyntax json_error | NoManifest

definition dec_ManifestFunction :: "ManifestFunction json_dec" where
  "dec_ManifestFunction = dec_struct
     [(''name'', fld dec_string mf_Name mf_Name_update),
      (''pathIndex'', fld dec_int mf_PathIndex mf_PathIndex_update),
      (''line'', fld dec_int mf_Line mf_Line_update),
      (''col'', fld dec_int mf_Col mf_Col_update)]"

definition dec_ManifestSite :: "ManifestSite json_dec" where
  "dec_ManifestSite = dec_struct
     [(''kind'', fld dec_string ms_Kind ms_Kind_update),
      (''pathIndex'', fld dec_int ms_PathIndex ms_PathIndex_update),
      (''line'', fld dec_int ms_Line ms_Line_update),
      (''col'', fld dec_int ms_Col ms_Col_update),
      (''fnId'', fld dec_int ms_FnID ms_FnID_update)]"

definition dec_ManifestBoundary :: "ManifestBoundary json_dec" where
  "dec_ManifestBoundary = dec_struct
     [(''fnKind'', fld dec_int mb_FnKind mb_FnKind_update),
      (''fnIndex'', fld dec_uint32 mb_FnIndex mb_FnIndex_update),
      (''name'', fld dec_string mb_Name mb_Name_update),
      (''module'', fld dec_string mb_Module mb_Module_update),
      (''params'', fld (dec_list dec_string []) mb_Params mb_Params_update),
      (''results'', fld (dec_list dec_string []) mb_Results mb_Results_update),
      (''unsupportedType'', fld dec_string mb_UnsupportedType mb_UnsupportedType_update)]"

definition dec_Manifest :: "Manifest json_dec" where
  "dec_Manifest = dec_struct
     [(''paths'', fld (dec_list dec_string []) mn_Paths mn_Paths_update),
      (''functions'', fld (dec_list dec_ManifestFunction
         \<lparr>mf_Name = [], mf_PathIndex = 0, mf_Line = 0, mf_Col = 0\<rparr>) mn_Functions mn_Functions_update),
      (''sites'', fld (dec_list dec_ManifestSite
         \<lparr>ms_Kind = [], ms_PathIndex = 0, ms_Line = 0, ms_Col = 0, ms_FnID = 0\<rparr>) mn_Sites mn_Sites_update),
      (''boundaries'', fld (dec_list dec_ManifestBoundary
         \<lparr>mb_FnKind = 0, mb_FnIndex = 0, mb_Name = [], mb_Module = [], mb_Params = [], mb_Results = [],
          mb_UnsupportedType = []\<rparr>) mn_Boundaries mn_Boundaries_update)]"

definition scalar_list :: "string list \<Rightarrow> manifest_error + ScalarType list" where
  "scalar_list = map_res (\<lambda>s. case ParseScalarType s of Inl e \<Rightarrow> Inl (BoundaryType e) | Inr t \<Rightarrow> Inr t)"

definition ManifestBoundary_Signature :: "ManifestBoundary \<Rightarrow> manifest_error + Signature" where
  "ManifestBoundary_Signature b =
     (if mb_UnsupportedType b \<noteq> [] then Inl (UnsupportedBoundary (mb_UnsupportedType b))
      else bind_res (scalar_list (mb_Params b)) (\<lambda>ps.
           bind_res (scalar_list (mb_Results b)) (\<lambda>rs.
           Inr \<lparr>sig_Params = ps, sig_Results = rs\<rparr>)))"

definition Manifest_Boundary :: "Manifest option \<Rightarrow> int \<Rightarrow> u32 \<Rightarrow> ManifestBoundary option" where
  "Manifest_Boundary m kind index = (case m of None \<Rightarrow> None
     | Some m \<Rightarrow> find (\<lambda>b. mb_FnKind b = kind \<and> mb_FnIndex b = index) (mn_Boundaries m))"

definition ExportBoundaryByName :: "Manifest option \<Rightarrow> string \<Rightarrow> ManifestBoundary option" where
  "ExportBoundaryByName m name = (case m of None \<Rightarrow> None
     | Some m \<Rightarrow> if name = [] then None
         else find (\<lambda>b. mb_FnKind b = FuncKindExport \<and> mb_Name b = name) (mn_Boundaries m))"

text \<open>The contents of the file, if it could be read.\<close>

definition LoadManifest :: "(string \<Rightarrow> json option) \<Rightarrow> string option \<Rightarrow> manifest_error + Manifest" where
  "LoadManifest js file = (case file of None \<Rightarrow> Inl NoManifest
     | Some txt \<Rightarrow>
         (case unmarshal_text js dec_Manifest txt
            \<lparr>mn_Paths = [], mn_Functions = [], mn_Sites = [], mn_Boundaries = []\<rparr> of
            Inl e \<Rightarrow> Inl (ManifestSyntax e) | Inr m \<Rightarrow> Inr m))"

definition DefaultManifestPath :: "string \<Rightarrow> string" where
  "DefaultManifestPath wasmPath = wasmPath @ ''.manifest.json''"

text \<open>\<open>filepath.Ext\<close>: from the last dot of the last path element.\<close>

definition filepath_Ext :: "string \<Rightarrow> string" where
  "filepath_Ext path =
     (let base = rev (takeWhile (\<lambda>c. c \<noteq> CHR ''/'') (rev path)) in
      case LastIndexByte base CHR ''.'' of None \<Rightarrow> [] | Some i \<Rightarrow> drop i base)"

text \<open>\<open>isfile p\<close>: \<open>os.Stat\<close> succeeds on \<open>p\<close> and it is not a directory.\<close>

definition FindManifest :: "(string \<Rightarrow> bool) \<Rightarrow> string \<Rightarrow> string" where
  "FindManifest isfile wasmPath =
     (if isfile (DefaultManifestPath wasmPath) then DefaultManifestPath wasmPath
      else let ext = filepath_Ext wasmPath;
               candidate = take (length wasmPath - length ext) wasmPath @ ''.manifest.json'' in
        if ext \<noteq> [] \<and> isfile candidate then candidate else [])"

section \<open>Lemmas\<close>

lemma boundary_found: "Manifest_Boundary m k i = Some b \<Longrightarrow> mb_FnKind b = k \<and> mb_FnIndex b = i"
  by (auto simp: Manifest_Boundary_def find_Some_iff split: option.splits)

lemma export_boundary_found: "ExportBoundaryByName m n = Some b \<Longrightarrow> mb_FnKind b = FuncKindExport \<and> mb_Name b = n"
  by (auto simp: ExportBoundaryByName_def find_Some_iff split: option.splits if_splits)

end
