(* ===== verification/Leb128.thy ===== *)
theory Leb128
  imports Prelude
begin

text \<open>
  LEB128 integers: the encoders and decoders of \<open>internal/leb128/leb128.go\<close> and the second
  pair of encoders in \<open>internal/boundarylog/provider.go\<close>. A byte reader is the list of bytes
  it has left, and running out is \<open>LebEOF\<close>; signed Go integers are words read with
  \<^const>\<open>sint\<close>, and Go's arithmetic shift is \<^const>\<open>signed_drop_bit\<close>.
\<close>

section \<open>Bits of the masks\<close>

lemma bit_7f: "bit (0x7f::int) k \<longleftrightarrow> k < 7" "bit (0x7f::nat) k \<longleftrightarrow> k < 7"
  using bit_mask_iff[where 'a=int, of 7 k] bit_mask_iff[where 'a=nat, of 7 k]
  by (simp_all add: mask_eq_exp_minus_1)

lemma bit_40: "bit (0x40::int) k \<longleftrightarrow> k = 6" "bit (0x40::nat) k \<longleftrightarrow> k = 6"
  using bit_exp_iff[where 'a=int, of 6 k] bit_exp_iff[where 'a=nat, of 6 k] by auto

lemma bit_80: "bit (0x80::int) k \<longleftrightarrow> k = 7" "bit (0x80::nat) k \<longleftrightarrow> k = 7"
  using bit_exp_iff[where 'a=int, of 7 k] bit_exp_iff[where 'a=nat, of 7 k] by auto

lemmas leb_bits = bit_simps bit_7f bit_40 bit_80

lemma unat_drop7: "unat (drop_bit 7 (v::u64)) = unat v div 128"
  by (subst unat_drop_bit_eq) (simp add: drop_bit_eq_div)

lemma unat_drop7_less: "drop_bit 7 v \<noteq> 0 \<Longrightarrow> unat (drop_bit 7 (v::u64)) < unat v"
  by (metis unat_drop7 unat_eq_0 div_less_dividend div_by_0 div_0 bot_nat_0.not_eq_extremum
      numeral_One numeral_less_iff semiring_norm(76) one_less_numeral_iff)

lemma sint_sdrop7: "sint (signed_drop_bit 7 (v::u64)) = sint v div 128"
  by (simp add: sint_signed_drop_bit_eq drop_bit_eq_div)

lemma byte_hi_0: "(b AND 0x80 = 0) \<longleftrightarrow> \<not> bit (b::byte) 7"
  by (rule iffI) (auto simp: bit_eq_iff[where 'a=byte] leb_bits dest: spec[of _ 7])

lemma low7_hi [simp]:
  "\<not> bit (ucast (v AND 0x7f :: u64) :: byte) 7"
  "bit ((ucast (v AND 0x7f :: u64) :: byte) OR 0x80) 7"
  by (auto simp: leb_bits)

lemma sign_bit_0: "((ucast (v AND 0x40 :: u64) :: byte) = 0) \<longleftrightarrow> \<not> bit v 6"
  by (rule iffI) (auto simp: bit_eq_iff[where 'a=byte] leb_bits dest: spec[of _ 6])

section \<open>Definitions\<close>

datatype leb_error = LebEOF | Overflow32 | Overflow33 | Overflow64

definition maxVarintLen32 :: nat where "maxVarintLen32 = 5"
definition maxVarintLen33 :: nat where "maxVarintLen33 = maxVarintLen32"
definition maxVarintLen64 :: nat where "maxVarintLen64 = 10"

subsection \<open>Encoders\<close>

function EncodeUint64 :: "u64 \<Rightarrow> byte list" where
  "EncodeUint64 v =
     (let b = ucast (v AND 0x7f) :: byte;
          v' = drop_bit 7 v;
          b' = (if v' \<noteq> 0 then b OR 0x80 else b)
      in if b' AND 0x80 = 0 then [b'] else b' # EncodeUint64 v')"
  by pat_completeness auto
termination
proof (relation "measure unat")
  fix v b v' b'
  assume "b = (ucast (v AND 0x7f :: u64) :: byte)" and v': "v' = drop_bit 7 v"
    and "b' = (if v' \<noteq> 0 then b OR 0x80 else b)" "b' AND 0x80 \<noteq> 0"
  then have "v' \<noteq> 0" by (auto simp: byte_hi_0 split: if_splits)
  then show "(v', v) \<in> measure unat" using v' unat_drop7_less by simp
qed simp

definition EncodeUint32 :: "u32 \<Rightarrow> byte list" where
  "EncodeUint32 v = EncodeUint64 (ucast v)"

text \<open>The distance of a signed value from the two fixed points of the arithmetic shift.\<close>

definition sleb_size :: "u64 \<Rightarrow> nat" where
  "sleb_size v = nat (if sint v < 0 then - sint v - 1 else sint v)"

lemma sleb_size_sdrop7:
  "v \<noteq> 0 \<Longrightarrow> v \<noteq> - 1 \<Longrightarrow> sleb_size (signed_drop_bit 7 v) < sleb_size v"
proof -
  assume "v \<noteq> 0" "v \<noteq> - 1"
  then have "sint v \<noteq> 0" "sint v \<noteq> - 1"
    using signed_word_eqI[of v 0] signed_word_eqI[of v "- 1"] by auto
  then show ?thesis by (auto simp: sleb_size_def sint_sdrop7)
qed

function EncodeInt64 :: "u64 \<Rightarrow> byte list" where
  "EncodeInt64 v =
     (let b = ucast (v AND 0x7f) :: byte;
          s = ucast (v AND 0x40) :: byte;
          v' = signed_drop_bit 7 v;
          b' = (if (v' \<noteq> - 1 \<or> s = 0) \<and> (v' \<noteq> 0 \<or> s \<noteq> 0) then b OR 0x80 else b)
      in if b' AND 0x80 = 0 then [b'] else b' # EncodeInt64 v')"
  by pat_completeness auto
termination
proof (relation "measure sleb_size")
  fix v b s v' b'
  assume "b = (ucast (v AND 0x7f :: u64) :: byte)" and s: "s = (ucast (v AND 0x40) :: byte)"
    and v': "v' = signed_drop_bit 7 v" "b' AND 0x80 \<noteq> 0"
    and "b' = (if (v' \<noteq> - 1 \<or> s = 0) \<and> (v' \<noteq> 0 \<or> s \<noteq> 0) then b OR 0x80 else b)"
  then have c: "(v' \<noteq> - 1 \<or> \<not> bit v 6) \<and> (v' \<noteq> 0 \<or> bit v 6)"
    by (auto simp: byte_hi_0 sign_bit_0 split: if_splits)
  have "v \<noteq> 0" "v \<noteq> - 1" using c v' by auto
  then show "(v', v) \<in> measure sleb_size" using v' sleb_size_sdrop7 by simp
qed simp

definition EncodeInt32 :: "u32 \<Rightarrow> byte list" where
  "EncodeInt32 v = EncodeInt64 (scast v)"

function appendULEB128 :: "byte list \<Rightarrow> u64 \<Rightarrow> byte list" where
  "appendULEB128 dst v =
     (let b = ucast (v AND 0x7f) :: byte;
          v' = drop_bit 7 v;
          b' = (if v' \<noteq> 0 then b OR 0x80 else b);
          dst' = dst @ [b']
      in if v' = 0 then dst' else appendULEB128 dst' v')"
  by pat_completeness auto
termination
  by (relation "measure (unat \<circ> snd)") (simp_all add: unat_drop7_less)

function appendSLEB128 :: "byte list \<Rightarrow> u64 \<Rightarrow> byte list" where
  "appendSLEB128 dst v =
     (let b = ucast (v AND 0x7f) :: byte;
          v' = signed_drop_bit 7 v;
          signBitSet = (b AND 0x40 \<noteq> 0)
      in if (v' = 0 \<and> \<not> signBitSet) \<or> (v' = - 1 \<and> signBitSet) then dst @ [b]
         else appendSLEB128 (dst @ [b OR 0x80]) v')"
  by pat_completeness auto
termination
proof (relation "measure (sleb_size \<circ> snd)")
  fix v v' :: u64 and dst and b :: byte and signBitSet
  assume b: "b = ucast (v AND 0x7f)" "signBitSet = (b AND 0x40 \<noteq> 0)"
    and v': "v' = signed_drop_bit 7 v"
    and c: "\<not> (v' = 0 \<and> \<not> signBitSet \<or> v' = - 1 \<and> signBitSet)"
  have "v \<noteq> 0" "v \<noteq> - 1" using c v' b by auto
  then show "((dst @ [b OR 0x80], v'), dst, v) \<in> measure (sleb_size \<circ> snd)"
    using v' sleb_size_sdrop7 by simp
qed simp

subsection \<open>Decoders\<close>

fun decodeUint32_loop :: "byte list \<Rightarrow> nat \<Rightarrow> nat \<Rightarrow> u32 \<Rightarrow> leb_error + u32 \<times> nat" where
  "decodeUint32_loop [] i s ret =
     (if i < maxVarintLen32 then Inl LebEOF else Inl Overflow32)"
| "decodeUint32_loop (b # bs) i s ret =
     (if i < maxVarintLen32 then
        if b < 0x80 then
          if i = maxVarintLen32 - 1 \<and> b AND 0xf0 > 0 then Inl Overflow32
          else Inr (ret OR push_bit s (ucast b), i + 1)
        else decodeUint32_loop bs (i + 1) (s + 7) (ret OR push_bit s (ucast b AND 0x7f))
      else Inl Overflow32)"

definition LoadUint32 :: "byte list \<Rightarrow> leb_error + u32 \<times> nat" where
  "LoadUint32 buf = decodeUint32_loop buf 0 0 0"

fun LoadUint64_loop :: "byte list \<Rightarrow> nat \<Rightarrow> nat \<Rightarrow> u64 \<Rightarrow> leb_error + u64 \<times> nat" where
  "LoadUint64_loop [] i s ret =
     (if i < maxVarintLen64 then Inl LebEOF else Inl Overflow64)"
| "LoadUint64_loop (b # bs) i s ret =
     (if i < maxVarintLen64 then
        if b < 0x80 then
          if i = maxVarintLen64 - 1 \<and> b > 1 then Inl Overflow64
          else Inr (ret OR push_bit s (ucast b), i + 1)
        else LoadUint64_loop bs (i + 1) (s + 7) (ret OR push_bit s (ucast b AND 0x7f))
      else Inl Overflow64)"

definition LoadUint64 :: "byte list \<Rightarrow> leb_error + u64 \<times> nat" where
  "LoadUint64 buf = (if length buf = 0 then Inl LebEOF else LoadUint64_loop buf 0 0 0)"

fun decodeInt32_loop :: "byte list \<Rightarrow> u32 \<Rightarrow> nat \<Rightarrow> nat \<Rightarrow> leb_error + u32 \<times> nat" where
  "decodeInt32_loop [] ret shift bytesRead = Inl LebEOF"
| "decodeInt32_loop (b # bs) ret shift bytesRead =
     (let ret1 = ret OR push_bit shift (ucast b AND 0x7f);
          shift' = shift + 7;
          bytesRead' = bytesRead + 1
      in if b AND 0x80 = 0 then
           let ret2 = (if shift' < 32 \<and> b AND 0x40 \<noteq> 0 then ret1 OR push_bit shift' (- 1) else ret1);
               unused = b AND 0x30
           in if bytesRead' > maxVarintLen32 then Inl Overflow32
              else if bytesRead' = maxVarintLen32 \<and> sint ret2 < 0 \<and> unused \<noteq> 0x30 then Inl Overflow32
              else if bytesRead' = maxVarintLen32 \<and> sint ret2 \<ge> 0 \<and> unused \<noteq> 0 then Inl Overflow32
              else Inr (ret2, bytesRead')
         else decodeInt32_loop bs ret1 shift' bytesRead')"

definition LoadInt32 :: "byte list \<Rightarrow> leb_error + u32 \<times> nat" where
  "LoadInt32 buf = decodeInt32_loop buf 0 0 0"

fun decodeInt64_loop :: "byte list \<Rightarrow> u64 \<Rightarrow> nat \<Rightarrow> nat \<Rightarrow> leb_error + u64 \<times> nat" where
  "decodeInt64_loop [] ret shift bytesRead = Inl LebEOF"
| "decodeInt64_loop (b # bs) ret shift bytesRead =
     (let ret1 = ret OR push_bit shift (ucast b AND 0x7f);
          shift' = shift + 7;
          bytesRead' = bytesRead + 1
      in if b AND 0x80 = 0 then
           let ret2 = (if shift' < 64 \<and> b AND 0x40 = 0x40 then ret1 OR push_bit shift' (- 1) else ret1);
               unused = b AND 0x3e
           in if bytesRead' > maxVarintLen64 then Inl Overflow64
              else if bytesRead' = maxVarintLen64 \<and> sint ret2 < 0 \<and> unused \<noteq> 0x3e then Inl Overflow64
              else if bytesRead' = maxVarintLen64 \<and> sint ret2 \<ge> 0 \<and> unused \<noteq> 0 then Inl Overflow64
              else Inr (ret2, bytesRead')
         else decodeInt64_loop bs ret1 shift' bytesRead')"

definition LoadInt64 :: "byte list \<Rightarrow> leb_error + u64 \<times> nat" where
  "LoadInt64 buf = decodeInt64_loop buf 0 0 0"

fun DecodeInt33_loop ::
  "byte list \<Rightarrow> u64 \<Rightarrow> u64 \<Rightarrow> nat \<Rightarrow> nat \<Rightarrow> leb_error + u64 \<times> u64 \<times> nat \<times> nat" where
  "DecodeInt33_loop [] ret b shift bytesRead =
     (if shift < 35 then Inl LebEOF else Inr (ret, b, shift, bytesRead))"
| "DecodeInt33_loop (rb # bs) ret b shift bytesRead =
     (if shift < 35 then
        let b' = ucast rb;
            ret' = ret OR push_bit shift (b' AND NOT 0x80)
        in if b' AND 0x80 = 0 then Inr (ret', b', shift + 7, bytesRead + 1)
           else DecodeInt33_loop bs ret' b' (shift + 7) (bytesRead + 1)
      else Inr (ret, b, shift, bytesRead))"

definition DecodeInt33AsInt64 :: "byte list \<Rightarrow> leb_error + u64 \<times> nat" where
  "DecodeInt33AsInt64 r =
     bind_res (DecodeInt33_loop r 0 0 0 0) (\<lambda>(ret, b, shift, bytesRead).
       let ret1 = (if shift < 33 \<and> b AND 0x40 = 0x40 then ret OR push_bit shift 0x1ffffffff else ret);
           ret2 = ret1 AND 0x1ffffffff;
           ret3 = (if sint (ret2 AND 0x100000000) > 0 then ret2 - 0x200000000 else ret2);
           unused = b AND 0x20
       in if bytesRead > maxVarintLen33 then Inl Overflow33
          else if bytesRead = maxVarintLen33 \<and> sint ret3 < 0 \<and> unused \<noteq> 0x20 then Inl Overflow33
          else if bytesRead = maxVarintLen33 \<and> sint ret3 \<ge> 0 \<and> unused \<noteq> 0 then Inl Overflow33
          else Inr (ret3, bytesRead))"

section \<open>The encoders, unfolded once\<close>

declare EncodeUint64.simps [simp del] EncodeInt64.simps [simp del]
  appendULEB128.simps [simp del] appendSLEB128.simps [simp del]

abbreviation low7 :: "u64 \<Rightarrow> byte" where "low7 v \<equiv> ucast (v AND 0x7f)"

abbreviation sleb_last :: "u64 \<Rightarrow> bool" where
  "sleb_last v \<equiv> (if bit v 6 then signed_drop_bit 7 v = - 1 else signed_drop_bit 7 v = 0)"

lemma low7_sign: "(low7 v AND 0x40 = 0) \<longleftrightarrow> \<not> bit v 6" "(low7 v AND 0x40 = 0x40) \<longleftrightarrow> bit v 6"
  by (rule iffI, auto simp: bit_eq_iff[where 'a=byte] leb_bits dest: spec[of _ 6])+

lemma EncodeUint64_rec:
  "EncodeUint64 v = (if drop_bit 7 v = 0 then [low7 v]
     else (low7 v OR 0x80) # EncodeUint64 (drop_bit 7 v))"
  by (subst EncodeUint64.simps) (simp add: Let_def byte_hi_0)

lemma EncodeInt64_rec:
  "EncodeInt64 v = (if sleb_last v then [low7 v]
     else (low7 v OR 0x80) # EncodeInt64 (signed_drop_bit 7 v))"
  by (subst EncodeInt64.simps) (simp add: Let_def byte_hi_0 sign_bit_0)

lemmas leb_unfold = if_True if_False append_assoc append_Cons append_Nil simp_thms low7_sign

lemma appendULEB128_eq: "appendULEB128 dst v = dst @ EncodeUint64 v"
proof (induction dst v rule: appendULEB128.induct)
  case (1 dst v)
  show ?case
    using 1[OF refl refl refl refl]
    unfolding appendULEB128.simps[of dst v] EncodeUint64_rec[of v] Let_def
    by (cases "drop_bit 7 v = 0") (simp_all only: leb_unfold)
qed

lemma appendSLEB128_eq: "appendSLEB128 dst v = dst @ EncodeInt64 v"
proof (induction dst v rule: appendSLEB128.induct)
  case (1 dst v)
  show ?case
    using 1[OF refl refl refl]
    unfolding appendSLEB128.simps[of dst v] EncodeInt64_rec[of v] Let_def
    by (cases "bit v 6"; cases "sleb_last v") (simp_all only: leb_unfold)
qed

section \<open>Decoding what was encoded\<close>

lemma low7_ucast: "(ucast (low7 v) :: 'a::len word) AND 0x7f = ucast v AND 0x7f"
  "(ucast (low7 v OR 0x80) :: 'a::len word) AND 0x7f = ucast v AND 0x7f"
  by (rule bit_word_eqI, auto simp: leb_bits)+

lemma byte_less_80: "(b::byte) < 0x80 \<longleftrightarrow> \<not> bit b 7"
proof -
  have "unat b < 256" using unsigned_less[of b] by simp
  moreover have "bit b 7 \<longleftrightarrow> odd (unat b div 128)"
    using bit_unsigned_iff[where 'a=nat, of b 7] by (simp add: bit_iff_odd)
  moreover have "odd (unat b div 128) \<longleftrightarrow> unat b div 128 = 1" if "unat b < 256"
    using that by (cases "unat b div 128") auto
  ultimately show ?thesis by (auto simp: word_less_nat_alt)
qed

lemma low7_less: "low7 v < 0x80" "\<not> low7 v OR 0x80 < 0x80"
  by (simp_all add: byte_less_80)

lemma push_split:
  "push_bit s (ucast v AND 0x7f) OR push_bit (s + 7) (ucast (drop_bit 7 v)) =
   push_bit s (ucast (v::u64) :: 'a::len word)"
proof (rule bit_word_eqI)
  fix n assume "n < LENGTH('a)"
  moreover have "7 + (n - (s + 7)) = n - s" if "s + 7 \<le> n" using that by simp
  ultimately show "bit (push_bit s (ucast v AND 0x7f :: 'a word) OR push_bit (s + 7) (ucast (drop_bit 7 v))) n =
      bit (push_bit s (ucast v :: 'a word)) n"
    by (cases "s + 7 \<le> n") (auto simp: leb_bits)
qed

lemma push_split_s:
  assumes "LENGTH('a) \<le> 64"
  shows "push_bit s (ucast v AND 0x7f) OR push_bit (s + 7) (ucast (signed_drop_bit 7 v)) =
    push_bit s (ucast (v::u64) :: 'a::len word)"
proof (rule bit_word_eqI)
  fix n assume "n < LENGTH('a)"
  moreover have "7 + (n - (s + 7)) = n - s" if "s + 7 \<le> n" using that by simp
  ultimately show "bit (push_bit s (ucast v AND 0x7f :: 'a word) OR
      push_bit (s + 7) (ucast (signed_drop_bit 7 v))) n = bit (push_bit s (ucast v :: 'a word)) n"
    using assms by (cases "s + 7 \<le> n") (auto simp: leb_bits)
qed



lemma ucast_low7: "(ucast (low7 v) :: 'a::len word) = ucast v AND 0x7f"
  by (rule bit_word_eqI) (auto simp: leb_bits)

lemma unat_low7: "unat (low7 v) = unat v mod 128"
proof -
  have "v AND 0x7f = take_bit 7 v" by (simp add: take_bit_eq_mask mask_eq_exp_minus_1)
  then have "unat (low7 v) = take_bit 8 (take_bit 7 (unat v))"
    by (simp add: unsigned_ucast_eq unsigned_take_bit_eq)
  then show ?thesis by (simp add: take_bit_eq_mod)
qed

lemma byte_less_16: "unat (b::byte) < 16 \<Longrightarrow> b AND 0xf0 = 0"
proof -
  assume "unat b < 16"
  then have "unat b < 2 ^ 4" by simp
  then have "take_bit 4 b = b"
    by (intro unsigned_word_eqI[where 'a=nat]) (simp only: unsigned_take_bit_eq take_bit_nat_eq_self)
  then have "b AND 0xf0 = b AND (mask 4 AND 0xf0)"
    by (metis take_bit_eq_mask and.assoc)
  then show "b AND 0xf0 = 0" by (simp add: mask_eq_exp_minus_1)
qed

lemma drop7_bound:
  assumes "drop_bit 7 v \<noteq> 0" "unat (v::u64) < 2 ^ (w - 7 * i)" 
  shows "7 < w - 7 * i" "unat (drop_bit 7 v) < 2 ^ (w - 7 * (i + 1))"
proof -
  have "128 \<le> unat v" using assms(1) unat_drop7[of v] by (metis div_less not_less unat_eq_0)
  with assms(2) have "2 ^ 7 < (2::nat) ^ (w - 7 * i)" by simp
  then show l: "7 < w - 7 * i" by (rule power_less_imp_less_exp[rotated]) simp
  then have "(2::nat) ^ (w - 7 * i) = 2 ^ (w - 7 * (i + 1)) * 128"
    using power_add[of "2::nat" "w - 7 * (i + 1)" 7] by simp
  then show "unat (drop_bit 7 v) < 2 ^ (w - 7 * (i + 1))"
    using assms(2) by (simp add: unat_drop7 less_mult_imp_div_less)
qed

lemma LoadUint64_loop_Encode:
  "i \<le> 9 \<Longrightarrow> unat v < 2 ^ (64 - 7 * i) \<Longrightarrow>
   LoadUint64_loop (EncodeUint64 v @ rest) i (7 * i) ret =
     Inr (ret OR push_bit (7 * i) v, i + length (EncodeUint64 v))"
proof (induction v arbitrary: i ret rule: EncodeUint64.induct)
  case (1 v)
  note split = push_split[of "7 * i" v, where 'a=64, unfolded ucast_id]
  show ?case
  proof (cases "drop_bit 7 v = 0")
    case True
    have "low7 v \<le> 1" if "i = 9"
      using 1(3) that by (simp add: word_le_nat_alt unat_low7)
    with True 1(2) split show ?thesis
      by (auto simp: EncodeUint64_rec[of v] maxVarintLen64_def low7_less ucast_low7)
  next
    case False
    note b = drop7_bound[OF False 1(3)]
    have "LoadUint64_loop (EncodeUint64 (drop_bit 7 v) @ rest) (i + 1) (7 * (i + 1)) r =
        Inr (r OR push_bit (7 * (i + 1)) (drop_bit 7 v), i + 1 + length (EncodeUint64 (drop_bit 7 v)))" for r
      using False b by (intro 1(1)[OF refl refl refl]) (auto simp: byte_hi_0)
    with False 1(2) b(1) split show ?thesis
      by (simp add: EncodeUint64_rec[of v] maxVarintLen64_def low7_less low7_ucast[where 'a=64, simplified] or.assoc add.commute)
  qed
qed

lemma decodeUint32_loop_Encode:
  "i \<le> 4 \<Longrightarrow> unat v < 2 ^ (32 - 7 * i) \<Longrightarrow>
   decodeUint32_loop (EncodeUint64 v @ rest) i (7 * i) ret =
     Inr (ret OR push_bit (7 * i) (ucast v), i + length (EncodeUint64 v))"
proof (induction v arbitrary: i ret rule: EncodeUint64.induct)
  case (1 v)
  note split = push_split[of "7 * i" v, where 'a=32]
  show ?case
  proof (cases "drop_bit 7 v = 0")
    case True
    have "low7 v AND 0xf0 = 0" if "i = 4"
    proof -
      have "unat v < 16" using 1(3) that by simp
      then have "unat (low7 v) < 16" by (simp add: unat_low7)
      then show ?thesis by (rule byte_less_16)
    qed
    with True 1(2) split show ?thesis
      by (auto simp: EncodeUint64_rec[of v] maxVarintLen32_def low7_less ucast_low7)
  next
    case False
    note b = drop7_bound[OF False 1(3)]
    have "decodeUint32_loop (EncodeUint64 (drop_bit 7 v) @ rest) (i + 1) (7 * (i + 1)) r =
        Inr (r OR push_bit (7 * (i + 1)) (ucast (drop_bit 7 v)), i + 1 + length (EncodeUint64 (drop_bit 7 v)))" for r
      using False b by (intro 1(1)[OF refl refl refl]) (auto simp: byte_hi_0)
    with False 1(2) b(1) split show ?thesis
      by (simp add: EncodeUint64_rec[of v] maxVarintLen32_def low7_less low7_ucast or.assoc add.commute)
  qed
qed

lemma sleb_last_range: "sleb_last v \<longleftrightarrow> -64 \<le> sint v \<and> sint v < 64"
proof -
  have z: "signed_drop_bit 7 v = 0 \<longleftrightarrow> sint v div 128 = 0"
    using signed_word_eqI[of "signed_drop_bit 7 v" 0] by (auto simp flip: sint_sdrop7)
  have m: "signed_drop_bit 7 v = - 1 \<longleftrightarrow> sint v div 128 = - 1"
    using signed_word_eqI[of "signed_drop_bit 7 v" "- 1"] by (auto simp flip: sint_sdrop7)
  have "bit v 6 \<longleftrightarrow> odd (sint v div 64)"
    using bit_signed_iff[where 'a=int, of v 6] by (simp add: bit_iff_odd)
  moreover have "sint v div 128 = sint v div 64 div 2"
    using zdiv_zmult2_eq[of 2 "sint v" 64] by simp
  moreover have "(if odd q then q div 2 = - 1 else q div 2 = 0) \<longleftrightarrow> q = - 1 \<or> q = 0" for q :: int
    by presburger
  moreover have "sint v div 64 = - 1 \<or> sint v div 64 = 0 \<longleftrightarrow> -64 \<le> sint v \<and> sint v < 64" by arith
  ultimately show ?thesis unfolding z m by (simp only:)
qed

lemma sdrop7_bound:
  assumes "\<not> sleb_last v" "- (2 ^ (w - 7 * n)) \<le> sint v" "sint v < 2 ^ (w - 7 * n)"
  shows "7 \<le> w - 7 * n" "- (2 ^ (w - 7 * (n + 1))) \<le> sint (signed_drop_bit 7 v)"
    "sint (signed_drop_bit 7 v) < 2 ^ (w - 7 * (n + 1))"
proof -
  have "2 ^ 6 < (2::int) ^ (w - 7 * n)" using assms sleb_last_range[of v] by simp linarith
  then show l: "7 \<le> w - 7 * n" using power_less_imp_less_exp[of "2::int" 6 "w - 7 * n"] by simp
  then have "(2::int) ^ (w - 7 * n) = 2 ^ (w - 7 * (n + 1)) * 128"
    using power_add[of "2::int" "w - 7 * (n + 1)" 7] by simp
  then show "- (2 ^ (w - 7 * (n + 1))) \<le> sint (signed_drop_bit 7 v)"
    "sint (signed_drop_bit 7 v) < 2 ^ (w - 7 * (n + 1))"
    using assms(2,3) by (auto simp: sint_sdrop7)
qed

lemma sign_extend:
  assumes "sleb_last v" "LENGTH('a) \<le> 64"
  shows "(if s + 7 < LENGTH('a) \<and> bit v 6
          then (R OR push_bit s (ucast (low7 v) AND 0x7f)) OR push_bit (s + 7) (- 1)
          else R OR push_bit s (ucast (low7 v) AND 0x7f)) = R OR push_bit s (ucast v :: 'a::len word)"
proof -
  note split = push_split_s[OF assms(2), of s v]
  have "(ucast (signed_drop_bit 7 v) :: 'a word) = (if bit v 6 then - 1 else 0)"
    using assms by (auto intro!: bit_word_eqI simp: leb_bits)
  moreover have "push_bit (s + 7) (- 1 :: 'a word) = 0" if "\<not> s + 7 < LENGTH('a)"
    using that by (intro bit_word_eqI) (auto simp: leb_bits)
  ultimately show ?thesis
    using split unfolding low7_ucast by (auto simp: or.assoc)
qed

lemma low7_end: "low7 v AND 0x80 = 0" "(low7 v OR 0x80) AND 0x80 \<noteq> 0"
  unfolding byte_hi_0 by simp_all

lemma len32: "LENGTH(32) \<le> 64" by simp

lemma len64: "LENGTH(64) \<le> 64" by simp

lemma decodeInt64_last:
  assumes "b AND 0x80 = 0"
    "(if s + 7 < 64 \<and> b AND 0x40 = 0x40 then (ret OR push_bit s (ucast b AND 0x7f)) OR push_bit (s + 7) (- 1)
      else ret OR push_bit s (ucast b AND 0x7f)) = r"
    "n < 9 \<or> n = 9 \<and> (if sint r < 0 then b AND 0x3e = 0x3e else b AND 0x3e = 0)"
  shows "decodeInt64_loop (b # bs) ret s n = Inr (r, n + 1)"
  using assms(1,3) unfolding decodeInt64_loop.simps Let_def assms(2) maxVarintLen64_def by auto

lemma decodeInt32_last:
  assumes "b AND 0x80 = 0"
    "(if s + 7 < 32 \<and> b AND 0x40 \<noteq> 0 then (ret OR push_bit s (ucast b AND 0x7f)) OR push_bit (s + 7) (- 1)
      else ret OR push_bit s (ucast b AND 0x7f)) = r"
    "n < 4 \<or> n = 4 \<and> (if sint r < 0 then b AND 0x30 = 0x30 else b AND 0x30 = 0)"
  shows "decodeInt32_loop (b # bs) ret s n = Inr (r, n + 1)"
  using assms(1,3) unfolding decodeInt32_loop.simps Let_def assms(2) maxVarintLen32_def by auto

lemma decodeInt64_more:
  "b AND 0x80 \<noteq> 0 \<Longrightarrow> decodeInt64_loop (b # bs) ret s n =
     decodeInt64_loop bs (ret OR push_bit s (ucast b AND 0x7f)) (s + 7) (n + 1)"
  by (simp add: Let_def)

lemma decodeInt32_more:
  "b AND 0x80 \<noteq> 0 \<Longrightarrow> decodeInt32_loop (b # bs) ret s n =
     decodeInt32_loop bs (ret OR push_bit s (ucast b AND 0x7f)) (s + 7) (n + 1)"
  by (simp add: Let_def)

lemma low7_range1: 
  "-1 \<le> sint v \<Longrightarrow> sint v < 1 \<Longrightarrow> if bit v 0 then low7 v AND 0x3e = 0x3e else low7 v AND 0x3e = 0"
proof -
  assume "-1 \<le> sint v" "sint v < 1"
  then have "sint v = sint (-1 :: u64) \<or> sint v = sint (0 :: u64)" by auto
  then have "v = - 1 \<or> v = 0" using signed_word_eqI by blast
  then show "if bit v 0 then low7 v AND 0x3e = 0x3e else low7 v AND 0x3e = 0" by auto
qed

lemma bit_30: "bit (0x30::int) k \<longleftrightarrow> k = 4 \<or> k = 5"
proof -
  have "(0x30::int) = push_bit 4 (mask 2)" by (simp add: mask_eq_exp_minus_1)
  then have "bit (0x30::int) k \<longleftrightarrow> bit (push_bit 4 (mask 2) :: int) k" by (simp only:)
  then show ?thesis by (simp only: bit_push_bit_iff bit_mask_iff) auto
qed

lemma low7_range4:
  assumes "-8 \<le> sint v" "sint v < 8"
  shows "if bit v 3 then low7 v AND 0x30 = 0x30 else low7 v AND 0x30 = 0"
proof -
  have "bit v 4 \<longleftrightarrow> bit v 3" "bit v 5 \<longleftrightarrow> bit v 3"
  proof -
    have "bit v k \<longleftrightarrow> odd (sint v div 2 ^ k)" if "k < 64" for k
      using bit_signed_iff[where 'a=int, of v k] that by (auto simp: bit_iff_odd)
    from this[of 3] this[of 4] this[of 5] 
    have "bit v 3 \<longleftrightarrow> odd (sint v div 8)" "bit v 4 \<longleftrightarrow> odd (sint v div 16)" "bit v 5 \<longleftrightarrow> odd (sint v div 32)"
      by simp_all
    moreover have "sint v div m = (if sint v < 0 then - 1 else 0)" if "8 \<le> m" for m
      using that assms int_div_pos_eq[of "sint v" m "- 1" "sint v + m"] by auto
    ultimately show "bit v 4 \<longleftrightarrow> bit v 3" "bit v 5 \<longleftrightarrow> bit v 3" by auto
  qed
  then show ?thesis
    by (auto intro!: bit_word_eqI simp: leb_bits bit_30)
qed
lemma decodeInt64_loop_Encode:
  assumes "n \<le> 9" "- (2 ^ (63 - 7 * n)) \<le> sint v" "sint v < 2 ^ (63 - 7 * n)"
    "\<And>k. bit ret k \<Longrightarrow> k < 7 * n"
  shows "decodeInt64_loop (EncodeInt64 v @ rest) ret (7 * n) n =
    Inr (ret OR push_bit (7 * n) v, n + length (EncodeInt64 v))"
  using assms
proof (induction v arbitrary: n ret rule: EncodeInt64.induct)
  case (1 v)
  note split = push_split_s[where 'a=64, of "7 * n" v, unfolded ucast_id, OF len64]
  show ?case
  proof (cases "sleb_last v")
    case True
    let ?r = "ret OR push_bit (7 * n) v"
    have ok: "if sint ?r < 0 then low7 v AND 0x3e = 0x3e else low7 v AND 0x3e = 0" if "n = 9"
    proof -
      have "sint ?r < 0 \<longleftrightarrow> bit v 0"
        using that 1(5)[of 63] by (subst bit_last_iff[symmetric]) (auto simp: leb_bits)
      then show ?thesis using low7_range1[of v] 1(3,4) that by simp
    qed
    have "decodeInt64_loop (low7 v # rest) ret (7 * n) n = Inr (?r, n + 1)"
      using sign_extend[where 'a=64, OF True, of "7 * n" ret] ok 1(2)
      by (intro decodeInt64_last) (auto simp: byte_hi_0 low7_sign simp del: push_bit_and)
    with True show ?thesis by (simp add: EncodeInt64_rec[of v])
  next
    case False
    note b = sdrop7_bound[OF False 1(3,4)]
    let ?v = "signed_drop_bit 7 v" and ?r = "ret OR push_bit (7 * n) (v AND 0x7f)"
    have "k < 7 * (n + 1)" if "bit ?r k" for k
      using that 1(5)[of k] by (auto simp: leb_bits)
    then have "decodeInt64_loop (EncodeInt64 ?v @ rest) ?r (7 * (n + 1)) (n + 1) =
        Inr (?r OR push_bit (7 * (n + 1)) ?v, n + 1 + length (EncodeInt64 ?v))"
      using False b 1(2) by (intro 1(1)[OF refl refl refl refl]) (auto simp: byte_hi_0 sign_bit_0 split: if_splits)
    with False split show ?thesis
      by (simp add: EncodeInt64_rec[of v] decodeInt64_more[OF low7_end(2)] low7_ucast[where 'a=64, unfolded ucast_id]
          or.assoc add.commute del: push_bit_and decodeInt64_loop.simps)
  qed
qed
lemma decodeInt32_loop_Encode:
  assumes "n \<le> 4" "- (2 ^ (31 - 7 * n)) \<le> sint v" "sint v < 2 ^ (31 - 7 * n)"
    "\<And>k. bit ret k \<Longrightarrow> k < 7 * n"
  shows "decodeInt32_loop (EncodeInt64 v @ rest) ret (7 * n) n =
    Inr (ret OR push_bit (7 * n) (ucast v), n + length (EncodeInt64 v))"
  using assms
proof (induction v arbitrary: n ret rule: EncodeInt64.induct)
  case (1 v)
  note split = push_split_s[where 'a=32, of "7 * n" v, OF len32]
  show ?case
  proof (cases "sleb_last v")
    case True
    let ?r = "ret OR push_bit (7 * n) (ucast v)"
    have ok: "if sint ?r < 0 then low7 v AND 0x30 = 0x30 else low7 v AND 0x30 = 0" if "n = 4"
    proof -
      have "sint ?r < 0 \<longleftrightarrow> bit v 3"
        using that 1(5)[of 31] by (subst bit_last_iff[symmetric]) (auto simp: leb_bits)
      then show ?thesis using low7_range4[of v] 1(3,4) that by simp
    qed
    have "decodeInt32_loop (low7 v # rest) ret (7 * n) n = Inr (?r, n + 1)"
      using sign_extend[where 'a=32, OF True, of "7 * n" ret] ok 1(2)
      by (intro decodeInt32_last) (auto simp: byte_hi_0 low7_sign simp del: push_bit_and)
    with True show ?thesis by (simp add: EncodeInt64_rec[of v])
  next
    case False
    note b = sdrop7_bound[OF False 1(3,4)]
    let ?v = "signed_drop_bit 7 v" and ?r = "ret OR push_bit (7 * n) (ucast v AND 0x7f)"
    have "k < 7 * (n + 1)" if "bit ?r k" for k
      using that 1(5)[of k] by (auto simp: leb_bits)
    then have "decodeInt32_loop (EncodeInt64 ?v @ rest) ?r (7 * (n + 1)) (n + 1) =
        Inr (?r OR push_bit (7 * (n + 1)) (ucast ?v), n + 1 + length (EncodeInt64 ?v))"
      using False b 1(2) by (intro 1(1)[OF refl refl refl refl]) (auto simp: byte_hi_0 sign_bit_0 split: if_splits)
    with False split show ?thesis
      by (simp add: EncodeInt64_rec[of v] decodeInt32_more[OF low7_end(2)] low7_ucast
          or.assoc add.commute del: push_bit_and decodeInt32_loop.simps)
  qed
qed

lemma ucast_up_down: "ucast (ucast w :: u64) = (w :: u32)" "ucast (scast w :: u64) = (w :: u32)"
  by (rule bit_word_eqI, auto simp: leb_bits)+

section \<open>Properties\<close>

lemma LoadUint64_Encode: "LoadUint64 (EncodeUint64 v @ rest) = Inr (v, length (EncodeUint64 v))"
proof -
  have "EncodeUint64 v @ rest \<noteq> []" by (subst EncodeUint64_rec) simp
  then show ?thesis
    using LoadUint64_loop_Encode[of 0 v rest 0] unsigned_less[of v] by (simp add: LoadUint64_def)
qed

lemma LoadUint32_Encode:
  "unat v < 2 ^ 32 \<Longrightarrow> LoadUint32 (EncodeUint64 v @ rest) = Inr (ucast v, length (EncodeUint64 v))"
  using decodeUint32_loop_Encode[of 0 v rest 0] by (simp add: LoadUint32_def)

lemma LoadInt64_Encode: "LoadInt64 (EncodeInt64 v @ rest) = Inr (v, length (EncodeInt64 v))"
  using decodeInt64_loop_Encode[of 0 v 0 rest] sint_greater_eq[of v] sint_less[of v]
  by (simp add: LoadInt64_def)

lemma LoadInt32_Encode: "LoadInt32 (EncodeInt64 (scast w) @ rest) = Inr (w, length (EncodeInt64 (scast (w :: u32))))"
proof -
  have "sint (scast w :: u64) = sint w"
    using sint_greater_eq[of w] sint_less[of w]
    by (subst signed_scast_eq) (simp add: signed_take_bit_int_eq_self)
  then show ?thesis
    using decodeInt32_loop_Encode[of 0 "scast w" 0 rest] ucast_up_down(2)[of w] sint_greater_eq[of w] sint_less[of w]
    by (simp add: LoadInt32_def)
qed

text \<open>C22: decoding an unsigned LEB128 encoding, whatever bytes follow it, gives back the
  encoded value and the number of bytes of the encoding, for both widths.\<close>
theorem unsigned_round_trip:
  "LoadUint64 (EncodeUint64 v @ rest) = Inr (v, length (EncodeUint64 v)) \<and>
   LoadUint32 (EncodeUint32 w @ rest) = Inr (w, length (EncodeUint32 w))"
proof -
  have "unat w < 2 ^ 32" using unsigned_less[of w] by simp
  then have "unat (ucast w :: u64) < 2 ^ 32" by (simp add: unsigned_ucast_eq take_bit_nat_eq_self)
  then show ?thesis
    using LoadUint64_Encode[of v rest] LoadUint32_Encode[of "ucast w" rest] ucast_up_down(1)[of w]
    by (simp add: EncodeUint32_def)
qed

text \<open>C23: the same for signed encodings: every int32 and int64 is read back with its sign, and
  none is refused by the overflow checks.\<close>
theorem signed_round_trip:
  "LoadInt64 (EncodeInt64 v @ rest) = Inr (v, length (EncodeInt64 v)) \<and>
   LoadInt32 (EncodeInt32 w @ rest) = Inr (w, length (EncodeInt32 w))"
  by (simp add: LoadInt64_Encode EncodeInt32_def LoadInt32_Encode)

text \<open>C24: the encoders that write provider modules produce exactly the bytes of the
  \<open>leb128\<close> package, appended to the destination.\<close>
theorem provider_encoders_agree:
  "appendULEB128 dst v = dst @ EncodeUint64 v \<and> appendSLEB128 dst v = dst @ EncodeInt64 v"
  by (simp add: appendULEB128_eq appendSLEB128_eq)


end
