(* ===== verification/Memories.thy ===== *)
theory Memories
  imports Prelude
begin

text \<open>
  Linear memory of the runtime (\<open>internal/wasm/memory.go\<close>): bounds-checked reads and writes, and
  growth. The buffer is the visible bytes; \<open>mi_spare\<close> is the part of its backing array that
  growing within the capacity makes visible. A memory is created by the runtime itself (no custom
  allocator) and used by one thread, so locking and atomic stores of the length have no effect;
  a panic is an error. The atomic wait and notify operations are not modelled.
\<close>

section \<open>Definitions\<close>

definition MemoryPageSizeInBits :: nat where "MemoryPageSizeInBits = 16"
definition MemoryPageSize :: u32 where "MemoryPageSize = 65536"
definition MemoryLimitPages :: u32 where "MemoryLimitPages = 65536"

definition MemoryPagesToBytesNum :: "u32 \<Rightarrow> u64" where
  "MemoryPagesToBytesNum pages = push_bit MemoryPageSizeInBits (ucast pages)"

definition memoryBytesNumToPages :: "u64 \<Rightarrow> u32" where
  "memoryBytesNumToPages n = ucast (drop_bit MemoryPageSizeInBits n)"

record Memory =
  me_Min :: u32
  me_Cap :: u32
  me_Max :: u32
  me_IsMaxEncoded :: bool
  me_IsShared :: bool

datatype limit_error = MaxOverLimit | MinOverLimit | MinOverMax | CapUnderMin | CapOverLimit

definition Memory_Validate :: "u32 \<Rightarrow> Memory \<Rightarrow> limit_error + unit" where
  "Memory_Validate limit m =
     (if me_Max m > limit then Inl MaxOverLimit
      else if me_Min m > limit then Inl MinOverLimit
      else if me_Min m > me_Max m then Inl MinOverMax
      else if me_Cap m < me_Min m then Inl CapUnderMin
      else if me_Cap m > limit then Inl CapOverLimit
      else Inr ())"

record MemoryInstance =
  mi_Buffer :: "byte list"
  mi_spare :: "byte list"
  mi_Min :: u32
  mi_Cap :: u32
  mi_Max :: u32
  mi_Shared :: bool

definition NewMemoryInstance :: "Memory \<Rightarrow> MemoryInstance" where
  "NewMemoryInstance sec =
     (let minBytes = unat (MemoryPagesToBytesNum (me_Min sec));
          capBytes = unat (MemoryPagesToBytesNum (if me_IsShared sec then me_Max sec else me_Cap sec)) in
      \<lparr>mi_Buffer = replicate minBytes 0, mi_spare = replicate (capBytes - minBytes) 0, mi_Min = me_Min sec,
       mi_Cap = memoryBytesNumToPages (word_of_nat capBytes), mi_Max = me_Max sec, mi_Shared = me_IsShared sec\<rparr>)"

definition Memory_Size :: "MemoryInstance \<Rightarrow> u32" where
  "Memory_Size m = word_of_nat (length (mi_Buffer m))"

definition hasSize :: "MemoryInstance \<Rightarrow> u32 \<Rightarrow> u64 \<Rightarrow> bool" where
  "hasSize m offset byteCount \<longleftrightarrow> ucast offset + byteCount \<le> (word_of_nat (length (mi_Buffer m)) :: u64)"

definition Memory_ReadByte :: "MemoryInstance \<Rightarrow> u32 \<Rightarrow> byte option" where
  "Memory_ReadByte m offset = (if \<not> hasSize m offset 1 then None else Some (mi_Buffer m ! unat offset))"

datatype mem_panic = SharedGrow | SliceBounds

text \<open>Reading slices the buffer from \<open>offset\<close> to the 32-bit sum \<open>offset + n\<close>; Go panics when the
  upper bound lies below the lower one or past the end.\<close>

definition read_bytes :: "MemoryInstance \<Rightarrow> u32 \<Rightarrow> u32 \<Rightarrow> mem_panic + byte list" where
  "read_bytes m offset n =
     (if offset \<le> offset + n \<and> unat (offset + n) \<le> length (mi_Buffer m)
      then Inr (slice (unat offset) (unat (offset + n) - unat offset) (mi_Buffer m)) else Inl SliceBounds)"

definition Memory_ReadUint16Le :: "MemoryInstance \<Rightarrow> u32 \<Rightarrow> mem_panic + u16 option" where
  "Memory_ReadUint16Le m offset =
     (if \<not> hasSize m offset 2 then Inr None else bind_res (read_bytes m offset 2) (\<lambda>b. Inr (Some (get16 b))))"

definition readUint32Le :: "MemoryInstance \<Rightarrow> u32 \<Rightarrow> mem_panic + u32 option" where
  "readUint32Le m offset =
     (if \<not> hasSize m offset 4 then Inr None else bind_res (read_bytes m offset 4) (\<lambda>b. Inr (Some (get32 b))))"

definition readUint64Le :: "MemoryInstance \<Rightarrow> u32 \<Rightarrow> mem_panic + u64 option" where
  "readUint64Le m offset =
     (if \<not> hasSize m offset 8 then Inr None else bind_res (read_bytes m offset 8) (\<lambda>b. Inr (Some (get64 b))))"

definition Memory_Read :: "MemoryInstance \<Rightarrow> u32 \<Rightarrow> u32 \<Rightarrow> mem_panic + byte list option" where
  "Memory_Read m offset byteCount =
     (if \<not> hasSize m offset (ucast byteCount) then Inr None else bind_res (read_bytes m offset byteCount) (\<lambda>b. Inr (Some b)))"

text \<open>A write returns the memory after it, \<open>None\<close> where the source returns \<open>false\<close>.\<close>

definition Memory_Write :: "MemoryInstance \<Rightarrow> u32 \<Rightarrow> byte list \<Rightarrow> MemoryInstance option" where
  "Memory_Write m offset val =
     (if \<not> hasSize m offset (word_of_nat (length val)) then None
      else Some (m\<lparr>mi_Buffer := put_at (unat offset) val (mi_Buffer m)\<rparr>))"

definition Memory_WriteByte :: "MemoryInstance \<Rightarrow> u32 \<Rightarrow> byte \<Rightarrow> MemoryInstance option" where
  "Memory_WriteByte m offset v =
     (if \<not> hasSize m offset 1 then None else Some (m\<lparr>mi_Buffer := (mi_Buffer m)[unat offset := v]\<rparr>))"

definition Memory_WriteUint16Le :: "MemoryInstance \<Rightarrow> u32 \<Rightarrow> u16 \<Rightarrow> MemoryInstance option" where
  "Memory_WriteUint16Le m offset v =
     (if \<not> hasSize m offset 2 then None else Some (m\<lparr>mi_Buffer := put_at (unat offset) (put16 v) (mi_Buffer m)\<rparr>))"

definition writeUint32Le :: "MemoryInstance \<Rightarrow> u32 \<Rightarrow> u32 \<Rightarrow> MemoryInstance option" where
  "writeUint32Le m offset v =
     (if \<not> hasSize m offset 4 then None else Some (m\<lparr>mi_Buffer := put_at (unat offset) (put32 v) (mi_Buffer m)\<rparr>))"

definition writeUint64Le :: "MemoryInstance \<Rightarrow> u32 \<Rightarrow> u64 \<Rightarrow> MemoryInstance option" where
  "writeUint64Le m offset v =
     (if \<not> hasSize m offset 8 then None else Some (m\<lparr>mi_Buffer := put_at (unat offset) (put64 v) (mi_Buffer m)\<rparr>))"

definition Memory_Pages :: "MemoryInstance \<Rightarrow> u32" where
  "Memory_Pages m = memoryBytesNumToPages (word_of_nat (length (mi_Buffer m)))"

definition Memory_Grow :: "MemoryInstance \<Rightarrow> u32 \<Rightarrow> mem_panic + MemoryInstance \<times> u32 option" where
  "Memory_Grow m delta =
     (let currentPages = Memory_Pages m; newPages = currentPages + delta in
      if delta = 0 then Inr (m, Some currentPages)
      else if newPages > mi_Max m \<or> sint delta < 0 then Inr (m, None)
      else if newPages > mi_Cap m then
        if mi_Shared m then Inl SharedGrow
        else Inr (m\<lparr>mi_Buffer := mi_Buffer m @ replicate (unat (MemoryPagesToBytesNum delta)) 0,
                    mi_spare := [], mi_Cap := newPages\<rparr>, Some currentPages)
      else
        let n = unat (MemoryPagesToBytesNum newPages) - length (mi_Buffer m) in
        Inr (m\<lparr>mi_Buffer := mi_Buffer m @ take n (mi_spare m), mi_spare := drop n (mi_spare m)\<rparr>, Some currentPages))"

text \<open>A memory is well formed when its length is a whole number of pages within its limits and the
  bytes growing reveals are zero.\<close>

definition mem_ok :: "MemoryInstance \<Rightarrow> bool" where
  "mem_ok m \<longleftrightarrow> mi_Max m \<le> MemoryLimitPages \<and> mi_Cap m \<le> MemoryLimitPages \<and>
     (\<exists>k. length (mi_Buffer m) = k * 65536 \<and> k \<le> unat (mi_Cap m) \<and> k \<le> unat (mi_Max m)) \<and>
     mi_spare m = replicate (unat (mi_Cap m) * 65536 - length (mi_Buffer m)) 0 \<and>
     (mi_Shared m \<longrightarrow> mi_Cap m = mi_Max m)"

section \<open>Lemmas\<close>

lemma unat_ucast_u64: "unat (ucast (p :: u32) :: u64) = unat p"
proof -
  have "unat p < 2 ^ 32" using unsigned_less[of p] by simp
  then show ?thesis by (simp add: unsigned_ucast_eq take_bit_nat_eq_self)
qed

lemma unat_pages_bytes: "unat (MemoryPagesToBytesNum p) = unat p * 65536"
proof -
  have "unat p < 2 ^ 32" using unsigned_less[of p] by simp
  then have "unat p * 65536 < 2 ^ 64" by simp
  then show ?thesis
    by (simp add: MemoryPagesToBytesNum_def MemoryPageSizeInBits_def push_bit_eq_mult unat_ucast_u64 unat_word_ariths)
qed

lemma unat_bytes_pages: "n < 2 ^ 48 \<Longrightarrow> unat (memoryBytesNumToPages (word_of_nat n)) = n div 65536"
proof -
  assume n: "n < 2 ^ 48"
  then have "unat (word_of_nat n :: u64) = n" by (simp add: unat_of_nat64)
  moreover have "n < 2 ^ 64" using n by simp
  ultimately have "unat (drop_bit 16 (word_of_nat n :: u64)) = n div 65536"
    unfolding unsigned_drop_bit_eq by (simp add: drop_bit_eq_div take_bit_nat_eq_self)
  moreover have "n div 65536 < 2 ^ 32" using n by simp
  ultimately show ?thesis
    by (simp add: memoryBytesNumToPages_def MemoryPageSizeInBits_def unsigned_ucast_eq take_bit_nat_eq_self)
qed

lemma unat_u32_less: "unat (w :: u32) < 4294967296"
  using unsigned_less[of w] by simp

lemma hasSize_nat:
  assumes "length (mi_Buffer m) < 2 ^ 48" "unat n < 2 ^ 63"
  shows "hasSize m offset n \<longleftrightarrow> unat offset + unat n \<le> length (mi_Buffer m)"
proof -
  have "unat offset < 2 ^ 32" using unsigned_less[of offset] by simp
  then have "unat (ucast offset + n :: u64) = unat offset + unat n"
    using assms(2) by (simp add: unat_word_ariths unat_ucast_u64)
  moreover have "unat (word_of_nat (length (mi_Buffer m)) :: u64) = length (mi_Buffer m)"
    using assms(1) by (simp add: unat_of_nat64)
  ultimately show ?thesis by (simp add: hasSize_def word_le_nat_alt)
qed

lemma mem_ok_small: "mem_ok m \<Longrightarrow> length (mi_Buffer m) < 2 ^ 48"
proof -
  assume "mem_ok m"
  then obtain k where k: "length (mi_Buffer m) = k * 65536" "k \<le> unat (mi_Cap m)" "mi_Cap m \<le> MemoryLimitPages"
    by (auto simp: mem_ok_def)
  then have "unat (mi_Cap m) \<le> 65536" by (simp add: word_le_nat_alt MemoryLimitPages_def)
  then show ?thesis using k by simp
qed

lemma sint_neg_u32: "sint (w :: u32) < 0 \<longleftrightarrow> 2 ^ 31 \<le> unat w"
proof -
  have "sint w < 0 \<longleftrightarrow> bit w 31" using bit_last_iff[of w] by simp
  also have "\<dots> \<longleftrightarrow> odd (unat w div 2 ^ 31)"
  proof -
    have "bit (unat w) 31 \<longleftrightarrow> bit w 31" unfolding bit_unsigned_iff by simp
    then show ?thesis by (simp only: bit_iff_odd)
  qed
  also have "\<dots> \<longleftrightarrow> 2 ^ 31 \<le> unat w"
  proof -
    have "unat w < 2 ^ 32" using unsigned_less[of w] by simp
    then have "unat w div 2 ^ 31 = (if 2 ^ 31 \<le> unat w then 1 else 0)" by (simp add: div_nat_eqI)
    then show ?thesis by simp
  qed
  finally show ?thesis .
qed

lemma mem_ok_pages:
  assumes "mem_ok m"
  shows "length (mi_Buffer m) = unat (Memory_Pages m) * 65536 \<and> unat (Memory_Pages m) \<le> unat (mi_Cap m) \<and>
    unat (Memory_Pages m) \<le> unat (mi_Max m) \<and> unat (mi_Cap m) \<le> 65536 \<and> unat (mi_Max m) \<le> 65536"
  using assms unat_bytes_pages[OF mem_ok_small[OF assms]]
  by (auto simp: mem_ok_def Memory_Pages_def word_le_nat_alt MemoryLimitPages_def)

lemma new_memory_ok:
  assumes "Memory_Validate limit sec = Inr ()" "limit \<le> MemoryLimitPages"
  shows "mem_ok (NewMemoryInstance sec) \<and> Memory_Pages (NewMemoryInstance sec) = me_Min sec \<and>
    length (mi_Buffer (NewMemoryInstance sec)) = unat (me_Min sec) * 65536 \<and> mi_Max (NewMemoryInstance sec) = me_Max sec"
proof -
  define c where "c = (if me_IsShared sec then me_Max sec else me_Cap sec)"
  have c: "unat (me_Min sec) \<le> unat c" "unat c \<le> 65536" "unat (me_Max sec) \<le> 65536" "unat (me_Min sec) \<le> unat (me_Max sec)"
    using assms by (auto simp: c_def Memory_Validate_def word_le_nat_alt word_less_nat_alt MemoryLimitPages_def split: if_splits)
  then have "unat (memoryBytesNumToPages (word_of_nat (unat c * 65536))) = unat c"
    using unat_bytes_pages[of "unat c * 65536"] by simp
  then have cap: "memoryBytesNumToPages (word_of_nat (unat c * 65536)) = c" by (simp add: word_unat_eq_iff)
  have eq: "NewMemoryInstance sec = \<lparr>mi_Buffer = replicate (unat (me_Min sec) * 65536) 0,
      mi_spare = replicate (unat c * 65536 - unat (me_Min sec) * 65536) 0, mi_Min = me_Min sec, mi_Cap = c,
      mi_Max = me_Max sec, mi_Shared = me_IsShared sec\<rparr>"
    using cap by (simp add: NewMemoryInstance_def unat_pages_bytes c_def[symmetric] Let_def)
  then have ok: "mem_ok (NewMemoryInstance sec)" using c by (auto simp: mem_ok_def word_le_nat_alt MemoryLimitPages_def c_def)
  have "unat (Memory_Pages (NewMemoryInstance sec)) = unat (me_Min sec)" using mem_ok_pages[OF ok] by (simp add: eq)
  then show ?thesis using ok by (simp add: eq word_unat_eq_iff)
qed

lemma read_bytes_slice:
  assumes "unat offset + unat n \<le> length (mi_Buffer m)"
  shows "unat offset + unat n < 2 ^ 32 \<Longrightarrow> read_bytes m offset n = Inr (slice (unat offset) (unat n) (mi_Buffer m))"
    and "unat offset + unat n = 2 ^ 32 \<Longrightarrow> read_bytes m offset n = Inl SliceBounds"
proof -
  have sum: "unat (offset + n) = (unat offset + unat n) mod 2 ^ 32" by (simp add: unat_word_ariths)
  show "read_bytes m offset n = Inr (slice (unat offset) (unat n) (mi_Buffer m))" if "unat offset + unat n < 2 ^ 32"
  proof -
    have "unat (offset + n) = unat offset + unat n" unfolding sum using that by simp
    then show ?thesis using assms by (simp add: read_bytes_def word_le_nat_alt)
  qed
  show "read_bytes m offset n = Inl SliceBounds" if "unat offset + unat n = 2 ^ 32"
  proof -
    have "unat (offset + n) = 0" unfolding sum using that by simp
    moreover have "unat offset \<noteq> 0" using that unat_u32_less[of n] by auto
    ultimately show ?thesis by (simp add: read_bytes_def word_le_nat_alt)
  qed
qed

lemma put_at_mem_ok:
  "mem_ok m \<Longrightarrow> off + length xs \<le> length (mi_Buffer m) \<Longrightarrow> mem_ok (m\<lparr>mi_Buffer := put_at off xs (mi_Buffer m)\<rparr>)"
  by (simp add: mem_ok_def length_put_at)

lemma mem_ok_length: "mem_ok m \<Longrightarrow> length (mi_Buffer m) \<le> 2 ^ 32"
  using mem_ok_pages[of m] by auto

lemma grow_over:
  assumes "mem_ok m" "k = unat (Memory_Pages m)" "d = unat delta" "unat (Memory_Pages m + delta) = k + d" "\<not> sint delta < 0"
    "k + d \<le> unat (mi_Max m)" "d \<noteq> 0" "k + d > unat (mi_Cap m)"
  shows "\<exists>m'. Memory_Grow m delta = Inr (m', Some (Memory_Pages m)) \<and> mem_ok m' \<and> mi_Max m' = mi_Max m \<and>
      mi_Buffer m' = mi_Buffer m @ replicate (d * 65536) 0"
proof -
  let ?m = "m\<lparr>mi_Buffer := mi_Buffer m @ replicate (d * 65536) 0, mi_spare := [], mi_Cap := Memory_Pages m + delta\<rparr>"
  have k: "length (mi_Buffer m) = k * 65536" "unat (mi_Max m) \<le> 65536" using mem_ok_pages[OF assms(1)] assms(2) by auto
  have d0: "delta \<noteq> 0" using assms(3,7) by auto
  have sh: "\<not> mi_Shared m" using assms by (auto simp: mem_ok_def)
  have "Memory_Grow m delta = Inr (?m, Some (Memory_Pages m))"
    using assms(3-8) sh d0 by (simp add: Memory_Grow_def Let_def word_less_nat_alt unat_pages_bytes)
  moreover have "mem_ok ?m" unfolding mem_ok_def
    using assms(1,4,6) k sh by (auto simp: mem_ok_def word_le_nat_alt MemoryLimitPages_def algebra_simps intro!: exI[of _ "k + d"])
  ultimately show ?thesis by auto
qed

lemma grow_within:
  assumes "mem_ok m" "k = unat (Memory_Pages m)" "d = unat delta" "unat (Memory_Pages m + delta) = k + d" "\<not> sint delta < 0"
    "k + d \<le> unat (mi_Max m)" "d \<noteq> 0" "k + d \<le> unat (mi_Cap m)"
  shows "\<exists>m'. Memory_Grow m delta = Inr (m', Some (Memory_Pages m)) \<and> mem_ok m' \<and> mi_Max m' = mi_Max m \<and>
      mi_Buffer m' = mi_Buffer m @ replicate (d * 65536) 0"
proof -
  let ?m = "m\<lparr>mi_Buffer := mi_Buffer m @ replicate (d * 65536) 0,
    mi_spare := replicate (unat (mi_Cap m) * 65536 - (k + d) * 65536) 0\<rparr>"
  have k: "length (mi_Buffer m) = k * 65536" using mem_ok_pages[OF assms(1)] assms(2) by auto
  have d0: "delta \<noteq> 0" using assms(3,7) by auto
  have sp: "mi_spare m = replicate (unat (mi_Cap m) * 65536 - k * 65536) 0" using assms(1) k by (auto simp: mem_ok_def)
  have "(k + d) * 65536 - k * 65536 = d * 65536" "d * 65536 \<le> unat (mi_Cap m) * 65536 - k * 65536"
    using assms(8) by (auto simp: algebra_simps)
  then have "Memory_Grow m delta = Inr (?m, Some (Memory_Pages m))"
    using assms(3-8) d0 k sp
    by (simp add: Memory_Grow_def Let_def word_less_nat_alt unat_pages_bytes not_less algebra_simps)
  moreover have "mem_ok ?m" unfolding mem_ok_def
    using assms(1,6,8) k by (auto simp: mem_ok_def algebra_simps intro!: exI[of _ "k + d"])
  ultimately show ?thesis by auto
qed

section \<open>Words in memory\<close>

text \<open>The contract shared by the little-endian accessors: both check the same range, and the value is
  stored by a fixed-width codec.\<close>

locale memory_word = fixed_codec enc dec width
  for enc :: "'w \<Rightarrow> byte list" and dec width +
  fixes rd :: "MemoryInstance \<Rightarrow> u32 \<Rightarrow> mem_panic + 'w option" and wr :: "MemoryInstance \<Rightarrow> u32 \<Rightarrow> 'w \<Rightarrow> MemoryInstance option"
    and n :: u32
  assumes rd_eq: "rd m offset = (if \<not> hasSize m offset (ucast n) then Inr None
      else bind_res (read_bytes m offset n) (\<lambda>b. Inr (Some (dec b))))"
    and wr_eq: "wr m offset v = (if \<not> hasSize m offset (ucast n) then None
      else Some (m\<lparr>mi_Buffer := put_at (unat offset) (enc v) (mi_Buffer m)\<rparr>))"
    and width: "width = unat n"
begin

lemma in_range: "mem_ok m \<Longrightarrow> hasSize m offset (ucast n) \<longleftrightarrow> unat offset + width \<le> length (mi_Buffer m)"
  using hasSize_nat[OF mem_ok_small, of m "ucast n" offset] unat_u32_less[of n] by (simp add: unat_ucast_u64 width)

lemma written:
  assumes "mem_ok m" "wr m offset v = Some m'"
  shows "unat offset + width \<le> length (mi_Buffer m)" "m' = m\<lparr>mi_Buffer := put_at (unat offset) (enc v) (mi_Buffer m)\<rparr>" "mem_ok m'"
  using assms in_range[of m offset] put_at_mem_ok[of m "unat offset" "enc v"]
  by (auto simp: wr_eq length_enc split: if_splits)

lemma write_fails: "mem_ok m \<Longrightarrow> wr m offset v = None \<longleftrightarrow> length (mi_Buffer m) < unat offset + width"
  using in_range[of m offset] by (auto simp: wr_eq)

lemma read_back:
  assumes "mem_ok m" "wr m offset v = Some m'"
  shows "rd m' offset = (if unat offset + width < 2 ^ 32 then Inr (Some v) else Inl SliceBounds)"
proof -
  note w = written[OF assms]
  have len: "length (mi_Buffer m') = length (mi_Buffer m)" using w(1,2) by (simp add: length_put_at length_enc)
  have le: "unat offset + unat n \<le> length (mi_Buffer m')" using w(1) len by (simp add: width)
  have "slice (unat offset) (unat n) (mi_Buffer m') = enc v"
    using w slice_put_at_same[of "unat offset" "enc v" "mi_Buffer m"] by (simp add: length_enc width)
  moreover have "unat offset + unat n \<le> 2 ^ 32" using le mem_ok_length[OF w(3)] by simp
  moreover have "hasSize m' offset (ucast n)" using in_range[OF w(3)] le by (simp add: width)
  ultimately show ?thesis
    using read_bytes_slice[OF le] dec_enc[of v "[]"] by (auto simp: rd_eq width)
qed

end

interpretation w16: memory_word put16 get16 2 Memory_ReadUint16Le Memory_WriteUint16Le 2
  by unfold_locales (simp_all add: Memory_ReadUint16Le_def Memory_WriteUint16Le_def)

interpretation w32: memory_word put32 get32 4 readUint32Le writeUint32Le 4
  by unfold_locales (simp_all add: readUint32Le_def writeUint32Le_def)

interpretation w64: memory_word put64 get64 8 readUint64Le writeUint64Le 8
  by unfold_locales (simp_all add: readUint64Le_def writeUint64Le_def)

section \<open>Properties\<close>



text \<open>C9: growing a memory never panics. It succeeds exactly when the new size fits the declared maximum,
  even where the page count would wrap; it then returns the old size in pages and adds exactly the
  requested number of zero pages, whether or not the capacity was already there. Otherwise nothing
  changes.\<close>

theorem memory_grow_exact:
  assumes "mem_ok m"
  shows "if unat (Memory_Pages m) + unat delta \<le> unat (mi_Max m)
    then \<exists>m'. Memory_Grow m delta = Inr (m', Some (Memory_Pages m)) \<and> mem_ok m' \<and> mi_Max m' = mi_Max m \<and>
      mi_Buffer m' = mi_Buffer m @ replicate (unat delta * 65536) 0
    else Memory_Grow m delta = Inr (m, None)"
proof -
  define k where "k = unat (Memory_Pages m)"
  define d where "d = unat delta"
  have k: "k \<le> unat (mi_Max m)" "unat (mi_Max m) \<le> 65536" using mem_ok_pages[OF assms] by (auto simp: k_def)
  have d0: "delta = 0 \<longleftrightarrow> d = 0" by (simp add: d_def unat_eq_0)
  have sum: "unat (Memory_Pages m + delta) = k + d" if "d < 2 ^ 31"
    using that k by (simp add: unat_word_ariths k_def[symmetric] d_def[symmetric])
  show ?thesis
  proof (cases "k + d \<le> unat (mi_Max m)")
    case False
    then have "delta \<noteq> 0" "Memory_Pages m + delta > mi_Max m \<or> sint delta < 0"
      using k d0 sum by (auto simp: sint_neg_u32 word_less_nat_alt d_def[symmetric])
    then show ?thesis using False by (auto simp: Memory_Grow_def Let_def k_def d_def)
  next
    case True
    then have s: "unat (Memory_Pages m + delta) = k + d" "\<not> sint delta < 0"
      using k sum by (auto simp: sint_neg_u32 d_def[symmetric])
    consider "d = 0" | "d \<noteq> 0" "k + d > unat (mi_Cap m)" | "d \<noteq> 0" "k + d \<le> unat (mi_Cap m)" by linarith
    then have "\<exists>m'. Memory_Grow m delta = Inr (m', Some (Memory_Pages m)) \<and> mem_ok m' \<and> mi_Max m' = mi_Max m \<and>
      mi_Buffer m' = mi_Buffer m @ replicate (d * 65536) 0"
    proof cases
      case 1
      then show ?thesis using assms d0 by (auto simp: Memory_Grow_def Let_def)
    qed (use grow_over[OF assms k_def d_def s True] grow_within[OF assms k_def d_def s True] in blast)+
    then show ?thesis using True by (simp add: k_def d_def)
  qed
qed

theorem memory_grow_exact_witness:
  "\<exists>m'. Memory_Grow (NewMemoryInstance \<lparr>me_Min = 1, me_Cap = 1, me_Max = 3, me_IsMaxEncoded = True, me_IsShared = False\<rparr>) 2 = Inr (m', Some 1) \<and>
     length (mi_Buffer m') = 3 * 65536 \<and> Memory_Grow m' 1 = Inr (m', None) \<and> Memory_Grow m' 0xFFFFFFFF = Inr (m', None)"
proof -
  let ?s = "\<lparr>me_Min = 1, me_Cap = 1, me_Max = 3, me_IsMaxEncoded = True, me_IsShared = False\<rparr>"
  let ?m = "NewMemoryInstance ?s"
  have ok: "mem_ok ?m" and len: "length (mi_Buffer ?m) = 65536" "mi_Max ?m = 3" and p1: "Memory_Pages ?m = 1"
    using new_memory_ok[of MemoryLimitPages ?s] by (simp_all add: MemoryLimitPages_def Memory_Validate_def)
  obtain m' where m': "Memory_Grow ?m 2 = Inr (m', Some 1)" "mem_ok m'" "length (mi_Buffer m') = 3 * 65536" "mi_Max m' = 3"
    using memory_grow_exact[OF ok, of 2] len p1 by auto
  then have "unat (Memory_Pages m') = 3" using mem_ok_pages[OF m'(2)] by simp
  then show ?thesis
    using m' memory_grow_exact[OF m'(2), of 1] memory_grow_exact[OF m'(2), of "0xFFFFFFFF"] by auto
qed

text \<open>C20: the 16, 32 and 64 bit accessors. A write is refused exactly when its bytes do not fit the
  memory; a value written is read back, except at the last bytes of a memory of the full four
  gigabytes, where reading panics: the range check is in 64 bits, but the upper slice bound
  \<open>offset + 4\<close> is a 32-bit sum and wraps to zero.\<close>

theorem memory_words_read_back:
  assumes "mem_ok m"
  shows "(Memory_WriteUint16Le m offset a = None \<longleftrightarrow> length (mi_Buffer m) < unat offset + 2) \<and>
    (writeUint32Le m offset b = None \<longleftrightarrow> length (mi_Buffer m) < unat offset + 4) \<and>
    (writeUint64Le m offset c = None \<longleftrightarrow> length (mi_Buffer m) < unat offset + 8) \<and>
    (\<forall>m'. Memory_WriteUint16Le m offset a = Some m' \<longrightarrow>
       mem_ok m' \<and> Memory_ReadUint16Le m' offset = (if unat offset + 2 < 2 ^ 32 then Inr (Some a) else Inl SliceBounds)) \<and>
    (\<forall>m'. writeUint32Le m offset b = Some m' \<longrightarrow>
       mem_ok m' \<and> readUint32Le m' offset = (if unat offset + 4 < 2 ^ 32 then Inr (Some b) else Inl SliceBounds)) \<and>
    (\<forall>m'. writeUint64Le m offset c = Some m' \<longrightarrow>
       mem_ok m' \<and> readUint64Le m' offset = (if unat offset + 8 < 2 ^ 32 then Inr (Some c) else Inl SliceBounds))"
  using w16.write_fails[OF assms] w32.write_fails[OF assms] w64.write_fails[OF assms]
    w16.written(3)[OF assms] w32.written(3)[OF assms] w64.written(3)[OF assms]
    w16.read_back[OF assms] w32.read_back[OF assms] w64.read_back[OF assms] by auto

theorem memory_words_read_back_witness:
  "\<exists>m'. writeUint32Le (NewMemoryInstance \<lparr>me_Min = 65536, me_Cap = 65536, me_Max = 65536, me_IsMaxEncoded = True, me_IsShared = False\<rparr>) 0xFFFFFFFC 7 = Some m' \<and>
     readUint32Le m' 0xFFFFFFFC = Inl SliceBounds"
proof -
  let ?s = "\<lparr>me_Min = 65536, me_Cap = 65536, me_Max = 65536, me_IsMaxEncoded = True, me_IsShared = False\<rparr>"
  have ok: "mem_ok (NewMemoryInstance ?s)" and len: "length (mi_Buffer (NewMemoryInstance ?s)) = 4294967296"
    using new_memory_ok[of MemoryLimitPages ?s] by (simp_all add: MemoryLimitPages_def Memory_Validate_def)
  show ?thesis
    using memory_words_read_back[OF ok, of "0xFFFFFFFC" 0 7 0] len by auto
qed

end
