(* ===== verification/Decoders.thy ===== *)
theory Decoders
  imports Leb128 Memories
begin

text \<open>
  Decoding from a \<open>bytes.Reader\<close>: the reader is the list of its unread bytes, a decoder takes it and
  returns the decoded item with the bytes left, or an error. Two notions carry the proofs about
  decoders: \<open>reads d p x\<close> (the bytes \<open>p\<close> decode to \<open>x\<close> whatever follows) and \<open>framed d\<close> (every success
  of \<open>d\<close> is of that form, so \<open>d\<close> depends only on the bytes it consumes).
\<close>

section \<open>Definitions\<close>

datatype dec_error = ReaderEOF | UnexpectedEOF | LebErr leb_error | InvalidByte | InvalidValueType | InvalidUTF8
  | FeatureDisabled | LimitsErr limit_error | Malformed string
  | InvalidMagicNumber | InvalidVersion | InvalidSectionID | SectionLength | CountMismatch

type_synonym 'a decoder = "byte list \<Rightarrow> dec_error + 'a \<times> byte list"

definition ret_dec :: "'a \<Rightarrow> 'a decoder" where
  "ret_dec x r = Inr (x, r)"

definition fail_dec :: "dec_error \<Rightarrow> 'a decoder" where
  "fail_dec e r = Inl e"

definition bind_dec :: "'a decoder \<Rightarrow> ('a \<Rightarrow> 'b decoder) \<Rightarrow> 'b decoder" where
  "bind_dec d f r = bind_res (d r) (\<lambda>(x, r'). f x r')"

definition ReadByte :: "byte decoder" where
  "ReadByte r = (case r of [] \<Rightarrow> Inl ReaderEOF | b # r' \<Rightarrow> Inr (b, r'))"

text \<open>\<open>io.ReadFull\<close>\<close>

definition ReadFull :: "nat \<Rightarrow> byte list decoder" where
  "ReadFull n r = (if n \<le> length r then Inr (take n r, drop n r)
     else if r = [] then Inl ReaderEOF else Inl UnexpectedEOF)"

text \<open>The LEB128 decoders on a reader; the first also returns the number of bytes read.\<close>

definition of_load :: "(byte list \<Rightarrow> leb_error + 'a \<times> nat) \<Rightarrow> ('a \<times> nat) decoder" where
  "of_load f r = (case f r of Inl e \<Rightarrow> Inl (LebErr e) | Inr (v, n) \<Rightarrow> Inr ((v, n), drop n r))"

definition DecodeUint32 :: "(u32 \<times> nat) decoder" where "DecodeUint32 = of_load LoadUint32"
definition DecodeInt32 :: "(u32 \<times> nat) decoder" where "DecodeInt32 = of_load LoadInt32"
definition DecodeInt64 :: "(u64 \<times> nat) decoder" where "DecodeInt64 = of_load LoadInt64"

definition read_u32 :: "u32 decoder" where "read_u32 = bind_dec DecodeUint32 (\<lambda>(v, _). ret_dec v)"

text \<open>A loop that decodes \<open>n\<close> items.\<close>

fun read_n :: "nat \<Rightarrow> 'a decoder \<Rightarrow> 'a list decoder" where
  "read_n 0 d = ret_dec []"
| "read_n (Suc n) d = bind_dec d (\<lambda>x. bind_dec (read_n n d) (\<lambda>xs. ret_dec (x # xs)))"

definition read_vec :: "'a decoder \<Rightarrow> 'a list decoder" where
  "read_vec d = bind_dec read_u32 (\<lambda>vs. read_n (unat vs) d)"

text \<open>\<open>utf8.Valid\<close>: the well-formed sequences of one to four bytes, without surrogates and overlong forms.\<close>

definition utf8_tail :: "byte \<Rightarrow> bool" where "utf8_tail b \<longleftrightarrow> 0x80 \<le> b \<and> b \<le> 0xbf"

fun utf8_valid :: "byte list \<Rightarrow> bool" where
  "utf8_valid [] = True"
| "utf8_valid (a # r) =
     (if a < 0x80 then utf8_valid r
      else if 0xc2 \<le> a \<and> a \<le> 0xdf then (case r of b # r' \<Rightarrow> utf8_tail b \<and> utf8_valid r' | _ \<Rightarrow> False)
      else if 0xe0 \<le> a \<and> a \<le> 0xef then
        (case r of b # c # r' \<Rightarrow> (if a = 0xe0 then 0xa0 \<le> b \<and> b \<le> 0xbf else if a = 0xed then 0x80 \<le> b \<and> b \<le> 0x9f else utf8_tail b) \<and>
           utf8_tail c \<and> utf8_valid r' | _ \<Rightarrow> False)
      else if 0xf0 \<le> a \<and> a \<le> 0xf4 then
        (case r of b # c # d # r' \<Rightarrow> (if a = 0xf0 then 0x90 \<le> b \<and> b \<le> 0xbf else if a = 0xf4 then 0x80 \<le> b \<and> b \<le> 0x8f else utf8_tail b) \<and>
           utf8_tail c \<and> utf8_tail d \<and> utf8_valid r' | _ \<Rightarrow> False)
      else False)"

text \<open>A Go string and its bytes.\<close>

definition str_bytes :: "string \<Rightarrow> byte list" where "str_bytes = map of_char"
definition bytes_str :: "byte list \<Rightarrow> string" where "bytes_str = map (\<lambda>b. char_of (unat b))"

section \<open>What the bytes consumed determine\<close>

definition reads :: "'a decoder \<Rightarrow> byte list \<Rightarrow> 'a \<Rightarrow> bool" where
  "reads d p x \<longleftrightarrow> (\<forall>rest. d (p @ rest) = Inr (x, rest))"

definition framed :: "'a decoder \<Rightarrow> bool" where
  "framed d \<longleftrightarrow> (\<forall>r x r'. d r = Inr (x, r') \<longrightarrow> (\<exists>p. r = p @ r' \<and> reads d p x))"

named_theorems framed_intros \<open>framed decoders are closed under composition\<close>
named_theorems reads_intros \<open>what composed decoders read\<close>

lemma readsD: "reads d p x \<Longrightarrow> d (p @ rest) = Inr (x, rest)"
  by (simp add: reads_def)

lemma framedE:
  assumes "framed d" "d r = Inr (x, r')"
  obtains p where "r = p @ r'" "reads d p x"
  using assms unfolding framed_def by blast

lemma framed_shrinks: "framed d \<Longrightarrow> d r = Inr (x, r') \<Longrightarrow> length r' \<le> length r"
  by (auto elim: framedE)

lemma reads_ret [reads_intros]: "reads (ret_dec x) [] x"
  by (simp add: reads_def ret_dec_def)

lemma reads_bind: "reads d p x \<Longrightarrow> reads (f x) q y \<Longrightarrow> reads (bind_dec d f) (p @ q) y"
  by (simp add: reads_def bind_dec_def)

lemma reads_bind_eq: "reads d p x \<Longrightarrow> reads (f x) q y \<Longrightarrow> bs = p @ q \<Longrightarrow> reads (bind_dec d f) bs y"
  by (simp add: reads_bind)

lemma reads_ReadByte: "reads ReadByte [b] b"
  by (simp add: reads_def ReadByte_def)

lemma reads_ReadFull: "n = length p \<Longrightarrow> reads (ReadFull n) p p"
  by (simp add: reads_def ReadFull_def)

lemma framed_ret [framed_intros]: "framed (ret_dec x)"
  by (simp add: framed_def reads_def ret_dec_def)

lemma framed_fail [framed_intros]: "framed (fail_dec e)"
  by (simp add: framed_def fail_dec_def)

lemma framed_bind [framed_intros]:
  assumes "framed d" "\<And>x. framed (f x)"
  shows "framed (bind_dec d f)"
  unfolding framed_def
proof (intro allI impI)
  fix r y r' assume "bind_dec d f r = Inr (y, r')"
  then obtain x r1 where 1: "d r = Inr (x, r1)" "f x r1 = Inr (y, r')"
    by (auto simp: bind_dec_def bind_res_eq_Inr)
  obtain p where p: "r = p @ r1" "reads d p x" using framedE[OF assms(1) 1(1)] .
  obtain q where q: "r1 = q @ r'" "reads (f x) q y" using framedE[OF assms(2) 1(2)] .
  show "\<exists>p. r = p @ r' \<and> reads (bind_dec d f) p y"
    using p q by (intro exI[of _ "p @ q"]) (simp add: reads_bind)
qed

lemma framed_if [framed_intros]: "framed a \<Longrightarrow> framed b \<Longrightarrow> framed (if c then a else b)"
  by simp

lemma framed_prod [framed_intros]: "(\<And>a b. framed (f a b)) \<Longrightarrow> framed (case p of (a, b) \<Rightarrow> f a b)"
  by (cases p) simp

lemma framed_option [framed_intros]:
  "framed a \<Longrightarrow> (\<And>x. framed (f x)) \<Longrightarrow> framed (case o' of None \<Rightarrow> a | Some x \<Rightarrow> f x)"
  by (cases o') simp_all

lemma framed_sum [framed_intros]:
  "(\<And>e. framed (g e)) \<Longrightarrow> (\<And>x. framed (f x)) \<Longrightarrow> framed (case s of Inl e \<Rightarrow> g e | Inr x \<Rightarrow> f x)"
  by (cases s) simp_all

lemma framed_ReadByte [framed_intros]: "framed ReadByte"
  by (auto simp: framed_def reads_def ReadByte_def split: list.splits)

lemma framed_ReadFull [framed_intros]: "framed (ReadFull n)"
  unfolding framed_def
proof (intro allI impI)
  fix r x r' assume "ReadFull n r = Inr (x, r')"
  then show "\<exists>p. r = p @ r' \<and> reads (ReadFull n) p x"
    by (intro exI[of _ "take n r"]) (auto simp: ReadFull_def reads_def split: if_splits)
qed

lemma framed_read_n [framed_intros]: "framed d \<Longrightarrow> framed (read_n n d)"
  by (induction n) (auto intro!: framed_intros)

lemma reads_read_n: "list_all2 (reads d) ps xs \<Longrightarrow> reads (read_n (length xs) d) (concat ps) xs"
proof (induction rule: list_all2_induct)
  case (Cons p ps x xs)
  then show ?case
    using reads_bind[OF Cons(1), of "\<lambda>x. bind_dec (read_n (length xs) d) (\<lambda>xs. ret_dec (x # xs))" "concat ps" "x # xs"]
      reads_bind[OF Cons(3), of "\<lambda>xs. ret_dec (x # xs)", OF reads_ret] by simp
qed (simp add: reads_ret)

text \<open>The LEB128 loops stop at the byte without a continuation bit, so they are framed.\<close>

lemma loop32_framed:
  "decodeUint32_loop bs i s ret = Inr (v, n) \<Longrightarrow>
   \<exists>p q. bs = p @ q \<and> n = i + length p \<and> (\<forall>t. decodeUint32_loop (p @ t) i s ret = Inr (v, n))"
proof (induction bs i s ret rule: decodeUint32_loop.induct)
  case (2 b bs i s ret)
  show ?case
  proof (cases "b < 0x80")
    case True
    then show ?thesis using 2(2) by (intro exI[of _ "[b]"] exI[of _ bs]) (auto split: if_splits)
  next
    case False
    then have i: "i < maxVarintLen32" using 2(2) by (auto split: if_splits)
    obtain p q where "bs = p @ q" "n = i + 1 + length p"
      "\<forall>t. decodeUint32_loop (p @ t) (i + 1) (s + 7) (ret OR push_bit s (ucast b AND 0x7f)) = Inr (v, n)"
      using 2 i False by auto
    then show ?thesis using i False by (intro exI[of _ "b # p"] exI[of _ q]) auto
  qed
qed (auto split: if_splits)

lemma loopi32_framed:
  "decodeInt32_loop bs ret shift k = Inr (v, n) \<Longrightarrow>
   \<exists>p q. bs = p @ q \<and> n = k + length p \<and> (\<forall>t. decodeInt32_loop (p @ t) ret shift k = Inr (v, n))"
proof (induction bs ret shift k rule: decodeInt32_loop.induct)
  case (2 b bs ret shift k)
  show ?case
  proof (cases "b AND 0x80 = 0")
    case True
    then show ?thesis using 2(2) by (intro exI[of _ "[b]"] exI[of _ bs]) (auto simp: Let_def split: if_splits)
  next
    case False
    obtain p q where "bs = p @ q" "n = k + 1 + length p"
      "\<forall>t. decodeInt32_loop (p @ t) (ret OR push_bit shift (ucast b AND 0x7f)) (shift + 7) (k + 1) = Inr (v, n)"
      using 2(1)[OF refl refl refl False] 2(2) False by (auto simp: Let_def)
    then show ?thesis using False by (intro exI[of _ "b # p"] exI[of _ q]) (auto simp: Let_def)
  qed
qed simp

lemma loopi64_framed:
  "decodeInt64_loop bs ret shift k = Inr (v, n) \<Longrightarrow>
   \<exists>p q. bs = p @ q \<and> n = k + length p \<and> (\<forall>t. decodeInt64_loop (p @ t) ret shift k = Inr (v, n))"
proof (induction bs ret shift k rule: decodeInt64_loop.induct)
  case (2 b bs ret shift k)
  show ?case
  proof (cases "b AND 0x80 = 0")
    case True
    then show ?thesis using 2(2) by (intro exI[of _ "[b]"] exI[of _ bs]) (auto simp: Let_def split: if_splits)
  next
    case False
    obtain p q where "bs = p @ q" "n = k + 1 + length p"
      "\<forall>t. decodeInt64_loop (p @ t) (ret OR push_bit shift (ucast b AND 0x7f)) (shift + 7) (k + 1) = Inr (v, n)"
      using 2(1)[OF refl refl refl False] 2(2) False by (auto simp: Let_def)
    then show ?thesis using False by (intro exI[of _ "b # p"] exI[of _ q]) (auto simp: Let_def)
  qed
qed simp

lemma framed_of_load:
  assumes "\<And>r v n. f r = Inr (v, n) \<Longrightarrow> \<exists>p q. r = p @ q \<and> n = length p \<and> (\<forall>t. f (p @ t) = Inr (v, n))"
  shows "framed (of_load f)"
  unfolding framed_def
proof (intro allI impI)
  fix r x r' assume "of_load f r = Inr (x, r')"
  then obtain v n where x: "x = (v, n)" "f r = Inr (v, n)" "r' = drop n r"
    by (auto simp: of_load_def split: sum.splits)
  obtain p q where "r = p @ q" "n = length p" "\<forall>t. f (p @ t) = Inr (v, n)" using assms[OF x(2)] by auto
  then show "\<exists>p. r = p @ r' \<and> reads (of_load f) p x"
    using x by (intro exI[of _ p]) (auto simp: reads_def of_load_def)
qed

lemma framed_leb [framed_intros]: "framed DecodeUint32" "framed DecodeInt32" "framed DecodeInt64"
  unfolding DecodeUint32_def DecodeInt32_def DecodeInt64_def
  by (rule framed_of_load, use loop32_framed[of _ 0 0 0] in \<open>auto simp: LoadUint32_def\<close>)
     (rule framed_of_load, use loopi32_framed[of _ 0 0 0] loopi64_framed[of _ 0 0 0] in \<open>auto simp: LoadInt32_def LoadInt64_def\<close>)+

lemma framed_read_u32 [framed_intros]: "framed read_u32"
  unfolding read_u32_def by (intro framed_intros)

lemma framed_read_vec [framed_intros]: "framed d \<Longrightarrow> framed (read_vec d)"
  unfolding read_vec_def by (intro framed_intros)

lemma reads_u32n: "n < 2 ^ 32 \<Longrightarrow> reads DecodeUint32 (EncodeUint64 (word_of_nat n)) (word_of_nat n, length (EncodeUint64 (word_of_nat n)))"
proof -
  assume n: "n < 2 ^ 32"
  then have "unat (word_of_nat n :: u64) = n" by (simp add: unat_of_nat64)
  then have "LoadUint32 (EncodeUint64 (word_of_nat n) @ rest) = Inr (word_of_nat n, length (EncodeUint64 (word_of_nat n)))" for rest
    using LoadUint32_Encode[of "word_of_nat n" rest] n by (simp add: unsigned_of_nat)
  then show ?thesis by (simp add: reads_def DecodeUint32_def of_load_def)
qed

lemma reads_u32: "n < 2 ^ 32 \<Longrightarrow> reads read_u32 (EncodeUint64 (word_of_nat n)) (word_of_nat n)"
  unfolding read_u32_def by (rule reads_bind_eq[OF reads_u32n]) (auto intro: reads_ret)

lemma reads_vec:
  assumes "list_all2 (reads d) ps xs" "length xs < 2 ^ 32"
  shows "reads (read_vec d) (EncodeUint64 (word_of_nat (length xs)) @ concat ps) xs"
  unfolding read_vec_def
  using reads_u32[OF assms(2)] reads_read_n[OF assms(1)] assms(2)
  by (intro reads_bind) (auto simp: unat_of_nat32)

lemma unat_of_char: "unat (of_char c :: byte) = of_char c"
proof -
  have "(of_char c :: byte) = word_of_nat (of_char c)" by (rule of_nat_of_char[symmetric])
  then show ?thesis using nat_of_char_less_256[of c]
    by (simp only: unsigned_of_nat) (simp add: take_bit_nat_eq_self)
qed

lemma bytes_str_inverse [simp]: "bytes_str (str_bytes s) = s"
  by (induction s) (simp_all add: bytes_str_def str_bytes_def unat_of_char)

lemma length_str_bytes [simp]: "length (str_bytes s) = length s"
  by (simp add: str_bytes_def)

end
