(* ===== verification/WasmBinary.thy ===== *)
theory WasmBinary
  imports Decoders
begin

text \<open>
  The decoder of the WebAssembly binary format (\<open>internal/wasm/binary\<close>) and the module it produces
  (\<open>internal/wasm/module.go\<close>): every section, constant expressions, the name section and the loop over
  sections. Feature flags are the bits of \<open>api.CoreFeatures\<close>. The debugging data made of the
  \<open>.debug_*\<close> sections is not modelled, nor is the allocation of vectors before they are read.
\<close>

section \<open>Definitions\<close>

subsection \<open>Constants\<close>

type_synonym features = u64
type_synonym ValueType = byte

definition CoreFeatureBulkMemoryOperations :: features where "CoreFeatureBulkMemoryOperations = 1"
definition CoreFeatureMultiValue :: features where "CoreFeatureMultiValue = 2"
definition CoreFeatureReferenceTypes :: features where "CoreFeatureReferenceTypes = 16"
definition CoreFeatureSIMD :: features where "CoreFeatureSIMD = 64"
definition CoreFeaturesThreads :: features where "CoreFeaturesThreads = 128"

definition IsEnabled :: "features \<Rightarrow> features \<Rightarrow> bool" where "IsEnabled f feature \<longleftrightarrow> f AND feature \<noteq> 0"

definition RequireEnabled :: "features \<Rightarrow> features \<Rightarrow> unit decoder" where
  "RequireEnabled f feature = (if f AND feature = 0 then fail_dec FeatureDisabled else ret_dec ())"

definition ValueTypeI32 :: byte where "ValueTypeI32 = 0x7f"
definition ValueTypeI64 :: byte where "ValueTypeI64 = 0x7e"
definition ValueTypeF32 :: byte where "ValueTypeF32 = 0x7d"
definition ValueTypeF64 :: byte where "ValueTypeF64 = 0x7c"
definition ValueTypeV128 :: byte where "ValueTypeV128 = 0x7b"
definition RefTypeFuncref :: byte where "RefTypeFuncref = 0x70"
definition RefTypeExternref :: byte where "RefTypeExternref = 0x6f"

definition valid_value_type :: "byte \<Rightarrow> bool" where
  "valid_value_type v \<longleftrightarrow> v \<in> {ValueTypeI32, ValueTypeF32, ValueTypeI64, ValueTypeF64, RefTypeExternref, RefTypeFuncref, ValueTypeV128}"

definition MaximumFunctionIndex :: u32 where "MaximumFunctionIndex = 0x8000000"
definition ElementInitNullReference :: u32 where "ElementInitNullReference = 0x80000000"

definition WrapGlobalIndexAsElementInit :: "u32 \<Rightarrow> u32" where "WrapGlobalIndexAsElementInit i = i OR 0x40000000"

subsection \<open>The module\<close>

record FunctionType =
  ft_Params :: "ValueType list"
  ft_Results :: "ValueType list"

record Table =
  tb_Min :: u32
  tb_Max :: "u32 option"
  tb_Type :: byte

record GlobalType =
  gt_ValType :: ValueType
  gt_Mutable :: bool

record ConstantExpression =
  ce_Opcode :: byte
  ce_Data :: "byte list"

record Global =
  gl_Type :: GlobalType
  gl_Init :: ConstantExpression

text \<open>The description of an import, tagged by its external type.\<close>

datatype import_desc = DescFunc u32 | DescTable Table | DescMem Memory | DescGlobal GlobalType

record Import =
  imp_Module :: string
  imp_Name :: string
  imp_Desc :: import_desc
  imp_IndexPerType :: u32

record Export =
  ex_Type :: byte
  ex_Name :: string
  ex_Index :: u32

record Code =
  co_LocalTypes :: "ValueType list"
  co_Body :: "byte list"
  co_BodyOffsetInCodeSection :: u64

datatype ElementMode = ElementModeActive | ElementModePassive | ElementModeDeclarative

record ElementSegment =
  es_OffsetExpr :: ConstantExpression
  es_TableIndex :: u32
  es_Init :: "u32 list"
  es_Type :: byte
  es_Mode :: ElementMode

record DataSegment =
  ds_OffsetExpression :: ConstantExpression
  ds_Init :: "byte list"
  ds_Passive :: bool

record NameSection =
  ns_ModuleName :: string
  ns_FunctionNames :: "(u32 \<times> string) list"
  ns_LocalNames :: "(u32 \<times> (u32 \<times> string) list) list"

record CustomSection =
  cs_Name :: string
  cs_Data :: "byte list"

record Module =
  md_TypeSection :: "FunctionType list"
  md_ImportSection :: "Import list"
  md_ImportPerModule :: "string \<Rightarrow> Import list"
  md_ImportFunctionCount :: u32
  md_ImportGlobalCount :: u32
  md_ImportMemoryCount :: u32
  md_ImportTableCount :: u32
  md_FunctionSection :: "u32 list"
  md_TableSection :: "Table list"
  md_MemorySection :: "Memory option"
  md_GlobalSection :: "Global list"
  md_ExportSection :: "Export list"
  md_Exports :: "string \<rightharpoonup> Export"
  md_StartSection :: "u32 option"
  md_ElementSection :: "ElementSegment list"
  md_CodeSection :: "Code list"
  md_DataSection :: "DataSegment list"
  md_NameSection :: "NameSection option"
  md_CustomSections :: "CustomSection list"
  md_DataCountSection :: "u32 option"

definition Module0 :: Module where
  "Module0 = \<lparr>md_TypeSection = [], md_ImportSection = [], md_ImportPerModule = (\<lambda>_. []), md_ImportFunctionCount = 0,
     md_ImportGlobalCount = 0, md_ImportMemoryCount = 0, md_ImportTableCount = 0, md_FunctionSection = [],
     md_TableSection = [], md_MemorySection = None, md_GlobalSection = [], md_ExportSection = [], md_Exports = Map.empty,
     md_StartSection = None, md_ElementSection = [], md_CodeSection = [], md_DataSection = [], md_NameSection = None,
     md_CustomSections = [], md_DataCountSection = None\<rparr>"

subsection \<open>Values, names and types\<close>

definition decodeValueTypes :: "u32 \<Rightarrow> ValueType list decoder" where
  "decodeValueTypes num = (if num = 0 then ret_dec [] else
     bind_dec (ReadFull (unat num)) (\<lambda>vs.
       if list_all valid_value_type vs then ret_dec vs else fail_dec InvalidValueType))"

definition decodeUTF8 :: "(string \<times> u32) decoder" where
  "decodeUTF8 = bind_dec DecodeUint32 (\<lambda>(size, sizeOfSize).
     if size = 0 then ret_dec ([], word_of_nat sizeOfSize) else
     bind_dec (ReadFull (unat size)) (\<lambda>buf.
       if \<not> utf8_valid buf then fail_dec InvalidUTF8
       else ret_dec (bytes_str buf, size + word_of_nat sizeOfSize)))"

definition read_name :: "string decoder" where "read_name = bind_dec decodeUTF8 (\<lambda>(s, _). ret_dec s)"

definition decodeFunctionType :: "features \<Rightarrow> FunctionType decoder" where
  "decodeFunctionType feats = bind_dec ReadByte (\<lambda>b.
     if b \<noteq> 0x60 then fail_dec InvalidByte else
     bind_dec read_u32 (\<lambda>paramCount.
     bind_dec (decodeValueTypes paramCount) (\<lambda>paramTypes.
     bind_dec read_u32 (\<lambda>resultCount.
     bind_dec (if resultCount > 1 then RequireEnabled feats CoreFeatureMultiValue else ret_dec ()) (\<lambda>_.
     bind_dec (decodeValueTypes resultCount) (\<lambda>resultTypes.
     ret_dec \<lparr>ft_Params = paramTypes, ft_Results = resultTypes\<rparr>))))))"

definition decodeLimitsType :: "(u32 \<times> u32 option \<times> bool) decoder" where
  "decodeLimitsType = bind_dec ReadByte (\<lambda>flag.
     let shared = flag = 0x02 \<or> flag = 0x03 in
     if flag = 0x00 \<or> flag = 0x02 then bind_dec read_u32 (\<lambda>min. ret_dec (min, None, shared))
     else if flag = 0x01 \<or> flag = 0x03 then
       bind_dec read_u32 (\<lambda>min. bind_dec read_u32 (\<lambda>m. ret_dec (min, Some m, shared)))
     else fail_dec InvalidByte)"

definition decodeTable :: "features \<Rightarrow> Table decoder" where
  "decodeTable feats = bind_dec ReadByte (\<lambda>t.
     bind_dec (if t \<noteq> RefTypeFuncref then RequireEnabled feats CoreFeatureReferenceTypes else ret_dec ()) (\<lambda>_.
     bind_dec decodeLimitsType (\<lambda>(min, max, shared).
       if min > MaximumFunctionIndex then fail_dec (Malformed ''table min'')
       else if (case max of None \<Rightarrow> False | Some x \<Rightarrow> x < min) then fail_dec (Malformed ''table minimum over maximum'')
       else if shared then fail_dec (Malformed ''shared table'')
       else ret_dec \<lparr>tb_Min = min, tb_Max = max, tb_Type = t\<rparr>)))"

definition newMemorySizer :: "u32 \<Rightarrow> bool \<Rightarrow> u32 \<Rightarrow> u32 option \<Rightarrow> u32 \<times> u32 \<times> u32" where
  "newMemorySizer limit capacityFromMax minPages maxPages = (case maxPages of
     Some m \<Rightarrow>
       if capacityFromMax then (minPages, m, m)
       else if m > MemoryLimitPages then (minPages, minPages, m)
       else if m > limit then (minPages, minPages, limit)
       else (minPages, minPages, m)
   | None \<Rightarrow> if capacityFromMax then (minPages, limit, limit) else (minPages, minPages, limit))"

definition decodeMemory :: "features \<Rightarrow> (u32 \<Rightarrow> u32 option \<Rightarrow> u32 \<times> u32 \<times> u32) \<Rightarrow> u32 \<Rightarrow> Memory decoder" where
  "decodeMemory feats sizer limit = bind_dec decodeLimitsType (\<lambda>(min, maxP, shared).
     if shared \<and> \<not> IsEnabled feats CoreFeaturesThreads then fail_dec FeatureDisabled
     else if shared \<and> maxP = None then fail_dec (Malformed ''shared memory without maximum'')
     else case sizer min maxP of (mn, cp, mx) \<Rightarrow>
       let mem = \<lparr>me_Min = mn, me_Cap = cp, me_Max = mx, me_IsMaxEncoded = maxP \<noteq> None, me_IsShared = shared\<rparr> in
       case Memory_Validate limit mem of Inl e \<Rightarrow> fail_dec (LimitsErr e) | Inr _ \<Rightarrow> ret_dec mem)"

definition decodeGlobalType :: "GlobalType decoder" where
  "decodeGlobalType = bind_dec (decodeValueTypes 1) (\<lambda>vt. bind_dec ReadByte (\<lambda>b.
     if b = 0x00 then ret_dec \<lparr>gt_ValType = vt ! 0, gt_Mutable = False\<rparr>
     else if b = 0x01 then ret_dec \<lparr>gt_ValType = vt ! 0, gt_Mutable = True\<rparr>
     else fail_dec InvalidByte))"

subsection \<open>Constant expressions\<close>

text \<open>The immediate of the instruction: the opcode recorded and the bytes of its data.\<close>

definition consumed :: "'a decoder \<Rightarrow> byte list decoder" where
  "consumed d r = bind_res (d r) (\<lambda>(_, r'). Inr (take (length r - length r') r, r'))"

definition const_immediate :: "features \<Rightarrow> byte \<Rightarrow> (byte \<times> byte list) decoder" where
  "const_immediate feats opcode =
     (if opcode = 0x41 then bind_dec (consumed DecodeInt32) (\<lambda>d. ret_dec (opcode, d))
      else if opcode = 0x42 then bind_dec (consumed DecodeInt64) (\<lambda>d. ret_dec (opcode, d))
      else if opcode = 0x43 then bind_dec (ReadFull 4) (\<lambda>d. ret_dec (opcode, d))
      else if opcode = 0x44 then bind_dec (ReadFull 8) (\<lambda>d. ret_dec (opcode, d))
      else if opcode = 0x23 then bind_dec (consumed DecodeUint32) (\<lambda>d. ret_dec (opcode, d))
      else if opcode = 0xd0 then
        bind_dec (RequireEnabled feats CoreFeatureBulkMemoryOperations) (\<lambda>_.
        bind_dec ReadByte (\<lambda>reftype.
          if reftype \<noteq> RefTypeFuncref \<and> reftype \<noteq> RefTypeExternref then fail_dec (Malformed ''ref.null type'')
          else ret_dec (opcode, [reftype])))
      else if opcode = 0xd2 then
        bind_dec (RequireEnabled feats CoreFeatureBulkMemoryOperations) (\<lambda>_.
        bind_dec (consumed DecodeUint32) (\<lambda>d. ret_dec (opcode, d)))
      else if opcode = 0xfd then
        bind_dec (RequireEnabled feats CoreFeatureSIMD) (\<lambda>_.
        bind_dec ReadByte (\<lambda>opcode'.
          if opcode' \<noteq> 0x0c then fail_dec (Malformed ''vector opcode'')
          else bind_dec (ReadFull 16) (\<lambda>d. ret_dec (opcode', d))))
      else fail_dec InvalidByte)"

definition decodeConstantExpression :: "features \<Rightarrow> ConstantExpression decoder" where
  "decodeConstantExpression feats = bind_dec ReadByte (\<lambda>b.
     bind_dec (const_immediate feats b) (\<lambda>(opcode, data).
     bind_dec ReadByte (\<lambda>b.
       if b \<noteq> 0x0b then fail_dec (Malformed ''constant expression not terminated'')
       else ret_dec \<lparr>ce_Opcode = opcode, ce_Data = data\<rparr>)))"

definition decodeGlobal :: "features \<Rightarrow> Global decoder" where
  "decodeGlobal feats = bind_dec decodeGlobalType (\<lambda>t.
     bind_dec (decodeConstantExpression feats) (\<lambda>i. ret_dec \<lparr>gl_Type = t, gl_Init = i\<rparr>))"

subsection \<open>Imports and exports\<close>

definition decodeImport :: "features \<Rightarrow> (u32 \<Rightarrow> u32 option \<Rightarrow> u32 \<times> u32 \<times> u32) \<Rightarrow> u32 \<Rightarrow> Import decoder" where
  "decodeImport feats sizer limit = bind_dec read_name (\<lambda>modname. bind_dec read_name (\<lambda>name. bind_dec ReadByte (\<lambda>b.
     bind_dec
       (if b = 0x00 then bind_dec read_u32 (\<lambda>i. ret_dec (DescFunc i))
        else if b = 0x01 then bind_dec (decodeTable feats) (\<lambda>t. ret_dec (DescTable t))
        else if b = 0x02 then bind_dec (decodeMemory feats sizer limit) (\<lambda>m. ret_dec (DescMem m))
        else if b = 0x03 then bind_dec decodeGlobalType (\<lambda>g. ret_dec (DescGlobal g))
        else fail_dec InvalidByte)
       (\<lambda>desc. ret_dec \<lparr>imp_Module = modname, imp_Name = name, imp_Desc = desc, imp_IndexPerType = 0\<rparr>))))"

fun extern_type :: "import_desc \<Rightarrow> byte" where
  "extern_type (DescFunc _) = 0"
| "extern_type (DescTable _) = 1"
| "extern_type (DescMem _) = 2"
| "extern_type (DescGlobal _) = 3"

text \<open>Each import gets the number of earlier imports of its kind; the counters are returned.\<close>

fun number_imports :: "(byte \<Rightarrow> u32) \<Rightarrow> Import list \<Rightarrow> Import list \<times> (byte \<Rightarrow> u32)" where
  "number_imports c [] = ([], c)"
| "number_imports c (i # is) =
     (let t = extern_type (imp_Desc i); (is', c') = number_imports (c(t := c t + 1)) is in
      (i\<lparr>imp_IndexPerType := c t\<rparr> # is', c'))"

definition decodeImportSection :: "features \<Rightarrow> (u32 \<Rightarrow> u32 option \<Rightarrow> u32 \<times> u32 \<times> u32) \<Rightarrow> u32 \<Rightarrow> (Import list \<times> (byte \<Rightarrow> u32)) decoder" where
  "decodeImportSection feats sizer limit =
     bind_dec (read_vec (decodeImport feats sizer limit)) (\<lambda>is. ret_dec (number_imports (\<lambda>_. 0) is))"

definition decodeExport :: "Export decoder" where
  "decodeExport = bind_dec read_name (\<lambda>name. bind_dec ReadByte (\<lambda>b.
     if b \<in> {0x00, 0x01, 0x02, 0x03}
     then bind_dec read_u32 (\<lambda>i. ret_dec \<lparr>ex_Type = b, ex_Name = name, ex_Index = i\<rparr>)
     else fail_dec InvalidByte))"

fun read_exports :: "nat \<Rightarrow> (string \<rightharpoonup> Export) \<Rightarrow> (Export list \<times> (string \<rightharpoonup> Export)) decoder" where
  "read_exports 0 m = ret_dec ([], m)"
| "read_exports (Suc n) m = bind_dec decodeExport (\<lambda>e.
     if m (ex_Name e) \<noteq> None then fail_dec (Malformed ''duplicate export'') else
     bind_dec (read_exports n (m(ex_Name e \<mapsto> e))) (\<lambda>(es, m'). ret_dec (e # es, m')))"

definition decodeExportSection :: "(Export list \<times> (string \<rightharpoonup> Export)) decoder" where
  "decodeExportSection = bind_dec read_u32 (\<lambda>vs. read_exports (unat vs) Map.empty)"

subsection \<open>Functions, tables, memories and globals\<close>

definition decodeTypeSection :: "features \<Rightarrow> FunctionType list decoder" where
  "decodeTypeSection feats = read_vec (decodeFunctionType feats)"

definition decodeFunctionSection :: "u32 list decoder" where
  "decodeFunctionSection = read_vec read_u32"

definition decodeTableSection :: "features \<Rightarrow> Table list decoder" where
  "decodeTableSection feats = bind_dec read_u32 (\<lambda>vs.
     bind_dec (if vs > 1 then RequireEnabled feats CoreFeatureReferenceTypes else ret_dec ()) (\<lambda>_.
     read_n (unat vs) (decodeTable feats)))"

definition decodeMemorySection :: "features \<Rightarrow> (u32 \<Rightarrow> u32 option \<Rightarrow> u32 \<times> u32 \<times> u32) \<Rightarrow> u32 \<Rightarrow> Memory option decoder" where
  "decodeMemorySection feats sizer limit = bind_dec read_u32 (\<lambda>vs.
     if vs > 1 then fail_dec (Malformed ''more than one memory'')
     else if vs = 0 then ret_dec None
     else bind_dec (decodeMemory feats sizer limit) (\<lambda>m. ret_dec (Some m)))"

definition decodeGlobalSection :: "features \<Rightarrow> Global list decoder" where
  "decodeGlobalSection feats = read_vec (decodeGlobal feats)"

definition decodeStartSection :: "u32 decoder" where "decodeStartSection = read_u32"

subsection \<open>Element and data segments\<close>

definition ensureElementKindFuncRef :: "unit decoder" where
  "ensureElementKindFuncRef = bind_dec ReadByte (\<lambda>k. if k \<noteq> 0 then fail_dec (Malformed ''element kind'') else ret_dec ())"

definition decodeElementInitValueVector :: "u32 list decoder" where
  "decodeElementInitValueVector = read_vec (bind_dec read_u32 (\<lambda>i.
     if i \<ge> MaximumFunctionIndex then fail_dec (Malformed ''function index'') else ret_dec i))"

definition load_value :: "(leb_error + u32 \<times> nat) \<Rightarrow> u32" where
  "load_value x = (case x of Inl _ \<Rightarrow> 0 | Inr (v, _) \<Rightarrow> v)"

definition element_expr :: "byte \<Rightarrow> ConstantExpression \<Rightarrow> u32 decoder" where
  "element_expr elemType expr =
     (if ce_Opcode expr = 0xd2 then
        if elemType \<noteq> RefTypeFuncref then fail_dec (Malformed ''element type mismatch'')
        else if load_value (LoadUint32 (ce_Data expr)) \<ge> MaximumFunctionIndex then fail_dec (Malformed ''function index'')
        else ret_dec (load_value (LoadUint32 (ce_Data expr)))
      else if ce_Opcode expr = 0xd0 then
        if elemType \<noteq> ce_Data expr ! 0 then fail_dec (Malformed ''element type mismatch'')
        else ret_dec ElementInitNullReference
      else if ce_Opcode expr = 0x23 then
        ret_dec (WrapGlobalIndexAsElementInit (load_value (LoadInt32 (ce_Data expr))))
      else fail_dec (Malformed ''element expression''))"

definition decodeElementConstExprVector :: "byte \<Rightarrow> features \<Rightarrow> u32 list decoder" where
  "decodeElementConstExprVector elemType feats =
     read_vec (bind_dec (decodeConstantExpression feats) (element_expr elemType))"

definition decodeElementRefType :: "byte decoder" where
  "decodeElementRefType = bind_dec ReadByte (\<lambda>t.
     if t \<noteq> RefTypeFuncref \<and> t \<noteq> RefTypeExternref then fail_dec (Malformed ''element ref type'') else ret_dec t)"

definition no_expr :: ConstantExpression where "no_expr = \<lparr>ce_Opcode = 0, ce_Data = []\<rparr>"

definition element_table :: "features \<Rightarrow> u32 decoder" where
  "element_table feats = bind_dec read_u32 (\<lambda>i.
     bind_dec (if i \<noteq> 0 then RequireEnabled feats CoreFeatureReferenceTypes else ret_dec ()) (\<lambda>_. ret_dec i))"

definition element_values :: "ConstantExpression \<Rightarrow> u32 \<Rightarrow> ElementMode \<Rightarrow> ElementSegment decoder" where
  "element_values off table mode = bind_dec decodeElementInitValueVector (\<lambda>init.
     ret_dec \<lparr>es_OffsetExpr = off, es_TableIndex = table, es_Init = init, es_Type = RefTypeFuncref, es_Mode = mode\<rparr>)"

definition element_exprs :: "features \<Rightarrow> ConstantExpression \<Rightarrow> u32 \<Rightarrow> byte \<Rightarrow> ElementMode \<Rightarrow> ElementSegment decoder" where
  "element_exprs feats off table ty mode = bind_dec (decodeElementConstExprVector ty feats) (\<lambda>init.
     ret_dec \<lparr>es_OffsetExpr = off, es_TableIndex = table, es_Init = init, es_Type = ty, es_Mode = mode\<rparr>)"

definition decodeElementSegment :: "features \<Rightarrow> ElementSegment decoder" where
  "decodeElementSegment feats = bind_dec read_u32 (\<lambda>prefix.
     bind_dec (if prefix \<noteq> 0 then RequireEnabled feats CoreFeatureBulkMemoryOperations else ret_dec ()) (\<lambda>_.
       if prefix = 0 then
         bind_dec (decodeConstantExpression feats) (\<lambda>off. element_values off 0 ElementModeActive)
       else if prefix = 1 then
         bind_dec ensureElementKindFuncRef (\<lambda>_. element_values no_expr 0 ElementModePassive)
       else if prefix = 2 then
         bind_dec (element_table feats) (\<lambda>table.
         bind_dec (decodeConstantExpression feats) (\<lambda>off.
         bind_dec ensureElementKindFuncRef (\<lambda>_. element_values off table ElementModeActive)))
       else if prefix = 3 then
         bind_dec ensureElementKindFuncRef (\<lambda>_. element_values no_expr 0 ElementModeDeclarative)
       else if prefix = 4 then
         bind_dec (decodeConstantExpression feats) (\<lambda>off. element_exprs feats off 0 RefTypeFuncref ElementModeActive)
       else if prefix = 5 then
         bind_dec decodeElementRefType (\<lambda>ty. element_exprs feats no_expr 0 ty ElementModePassive)
       else if prefix = 6 then
         bind_dec (element_table feats) (\<lambda>table.
         bind_dec (decodeConstantExpression feats) (\<lambda>off.
         bind_dec decodeElementRefType (\<lambda>ty. element_exprs feats off table ty ElementModeActive)))
       else if prefix = 7 then
         bind_dec decodeElementRefType (\<lambda>ty. element_exprs feats no_expr 0 ty ElementModeDeclarative)
       else fail_dec (Malformed ''element segment prefix'')))"

definition decodeElementSection :: "features \<Rightarrow> ElementSegment list decoder" where
  "decodeElementSection feats = read_vec (decodeElementSegment feats)"

definition decodeDataSegment :: "features \<Rightarrow> DataSegment decoder" where
  "decodeDataSegment feats = bind_dec read_u32 (\<lambda>prefix.
     bind_dec (if prefix \<noteq> 0 then RequireEnabled feats CoreFeatureBulkMemoryOperations else ret_dec ()) (\<lambda>_.
     bind_dec
       (if prefix = 0 then bind_dec (decodeConstantExpression feats) (\<lambda>e. ret_dec (e, False))
        else if prefix = 2 then
          bind_dec read_u32 (\<lambda>d. if d \<noteq> 0 then fail_dec (Malformed ''memory index'')
            else bind_dec (decodeConstantExpression feats) (\<lambda>e. ret_dec (e, False)))
        else if prefix = 1 then ret_dec (no_expr, True)
        else fail_dec (Malformed ''data segment prefix''))
       (\<lambda>(off, passive).
     bind_dec read_u32 (\<lambda>vs. bind_dec (ReadFull (unat vs)) (\<lambda>init.
     ret_dec \<lparr>ds_OffsetExpression = off, ds_Init = init, ds_Passive = passive\<rparr>)))))"

definition decodeDataSection :: "features \<Rightarrow> DataSegment list decoder" where
  "decodeDataSection feats = read_vec (decodeDataSegment feats)"

text \<open>The end of the input is not an error here: the count is then zero.\<close>

definition decodeDataCountSection :: "u32 decoder" where
  "decodeDataCountSection r = (case LoadUint32 r of Inr (v, n) \<Rightarrow> Inr (v, drop n r)
     | Inl e \<Rightarrow> if e = LebEOF then Inr (0, []) else Inl (LebErr e))"

subsection \<open>Function bodies\<close>

text \<open>The locals are read twice: once to check their types and their number, then, after rewinding, to
  expand them while counting down the size of the body.\<close>

definition local_entry :: "u32 decoder" where
  "local_entry = bind_dec DecodeUint32 (\<lambda>(num, _). bind_dec ReadByte (\<lambda>b.
     if valid_value_type b then ret_dec num else fail_dec InvalidValueType))"

definition rewound :: "'a decoder \<Rightarrow> 'a decoder" where
  "rewound d r = bind_res (d r) (\<lambda>(x, _). Inr (x, r))"

fun expand_locals :: "nat \<Rightarrow> int \<Rightarrow> (ValueType list \<times> int) decoder" where
  "expand_locals 0 remaining = ret_dec ([], remaining)"
| "expand_locals (Suc k) remaining = bind_dec DecodeUint32 (\<lambda>(num, n).
     let remaining' = remaining - (int n + 1) in
     if remaining' < 0 then fail_dec ReaderEOF else
     bind_dec ReadByte (\<lambda>b. bind_dec (expand_locals k remaining') (\<lambda>(ts, rem).
     ret_dec (replicate (unat num) b @ ts, rem))))"

definition body_offset :: "nat \<Rightarrow> u64 decoder" where
  "body_offset start r = Inr (word_of_nat start - word_of_nat (length r), r)"

definition decodeCode :: "nat \<Rightarrow> Code decoder" where
  "decodeCode start = bind_dec read_u32 (\<lambda>ss. bind_dec DecodeUint32 (\<lambda>(ls, n).
     let remaining = int (unat ss) - int n in
     if remaining < 0 then fail_dec ReaderEOF else
     bind_dec (rewound (read_n (unat ls) local_entry)) (\<lambda>nums.
     if sum_list (map unat nums) > 0xffffffff then fail_dec (Malformed ''too many locals'') else
     bind_dec (expand_locals (unat ls) remaining) (\<lambda>(types, remaining).
     bind_dec (body_offset start) (\<lambda>off.
     bind_dec (ReadFull (nat remaining)) (\<lambda>body.
     if body = [] \<or> last body \<noteq> 0x0b then fail_dec (Malformed ''expr not end with OpcodeEnd'')
     else ret_dec \<lparr>co_LocalTypes = types, co_Body = body, co_BodyOffsetInCodeSection = off\<rparr>))))))"

definition decodeCodeSection :: "Code list decoder" where
  "decodeCodeSection r = read_vec (decodeCode (length r)) r"

subsection \<open>Custom sections\<close>

definition decodeFunctionNames :: "(u32 \<times> string) list decoder" where
  "decodeFunctionNames = read_vec (bind_dec read_u32 (\<lambda>i. bind_dec read_name (\<lambda>n. ret_dec (i, n))))"

definition decodeLocalNames :: "(u32 \<times> (u32 \<times> string) list) list decoder" where
  "decodeLocalNames = read_vec (bind_dec read_u32 (\<lambda>f.
     bind_dec (read_vec (bind_dec read_u32 (\<lambda>i. bind_dec read_name (\<lambda>n. ret_dec (i, n))))) (\<lambda>ls. ret_dec (f, ls))))"

definition name_subsection :: "byte \<Rightarrow> u32 \<Rightarrow> NameSection \<Rightarrow> NameSection decoder" where
  "name_subsection subsectionID subsectionSize result =
     (if subsectionID = 0 then bind_dec read_name (\<lambda>n. ret_dec (result\<lparr>ns_ModuleName := n\<rparr>))
      else if subsectionID = 1 then bind_dec decodeFunctionNames (\<lambda>ns. ret_dec (result\<lparr>ns_FunctionNames := ns\<rparr>))
      else if subsectionID = 2 then bind_dec decodeLocalNames (\<lambda>ns. ret_dec (result\<lparr>ns_LocalNames := ns\<rparr>))
      else bind_dec (ReadFull (unat subsectionSize)) (\<lambda>_. ret_dec result))"

text \<open>One read of at most \<open>limit\<close> bytes into a zeroed buffer; at the end of the input \<open>bytes.Reader.Read\<close>
  reports it even for an empty buffer.\<close>

definition decodeCustomSection :: "string \<Rightarrow> nat \<Rightarrow> CustomSection decoder" where
  "decodeCustomSection name limit r = (if r = [] then Inl ReaderEOF else
     Inr (\<lparr>cs_Name = name, cs_Data = take limit r @ replicate (limit - length r) 0\<rparr>, drop limit r))"

section \<open>Framing\<close>

lemma framed_RequireEnabled [framed_intros]: "framed (RequireEnabled f x)"
  unfolding RequireEnabled_def by (intro framed_intros)

lemma framed_consumed [framed_intros]:
  assumes "framed d"
  shows "framed (consumed d)"
  unfolding framed_def
proof (intro allI impI)
  fix r x r' assume "consumed d r = Inr (x, r')"
  then obtain y where y: "d r = Inr (y, r')" "x = take (length r - length r') r" by (auto simp: consumed_def bind_res_eq_Inr)
  obtain p where p: "r = p @ r'" "reads d p y" using framedE[OF assms y(1)] .
  then show "\<exists>p. r = p @ r' \<and> reads (consumed d) p x"
    using y(2) by (intro exI[of _ p]) (auto simp: reads_def consumed_def)
qed

lemma framed_let [framed_intros]: "framed (f x) \<Longrightarrow> framed (let y = x in f y)"
  by simp

lemma framed_name [framed_intros]: "framed decodeUTF8" "framed read_name"
  unfolding decodeUTF8_def read_name_def by (intro framed_intros)+

lemma framed_types [framed_intros]: "framed (decodeValueTypes n)" "framed (decodeFunctionType feats)" "framed decodeLimitsType"
    "framed (decodeTable feats)" "framed (decodeMemory feats sizer limit)" "framed decodeGlobalType"
  unfolding decodeValueTypes_def decodeFunctionType_def decodeLimitsType_def decodeTable_def decodeMemory_def decodeGlobalType_def
  by (intro framed_intros)+

lemma framed_const [framed_intros]: "framed (const_immediate feats b)" "framed (decodeConstantExpression feats)" "framed (decodeGlobal feats)"
  unfolding const_immediate_def decodeConstantExpression_def decodeGlobal_def by (intro framed_intros)+

lemma framed_imports [framed_intros]: "framed (decodeImport feats sizer limit)" "framed (decodeImportSection feats sizer limit)"
  unfolding decodeImport_def decodeImportSection_def by (intro framed_intros)+

lemma framed_exports [framed_intros]: "framed decodeExport" "framed (read_exports n m)" "framed decodeExportSection"
proof -
  show e: "framed decodeExport" unfolding decodeExport_def by (intro framed_intros)
  then show r: "framed (read_exports n m)" for n m by (induction n arbitrary: m) (auto intro!: framed_intros)
  show "framed decodeExportSection" unfolding decodeExportSection_def by (intro framed_intros r)
qed

lemma framed_sections [framed_intros]: "framed (decodeTypeSection feats)" "framed decodeFunctionSection" "framed (decodeTableSection feats)"
    "framed (decodeMemorySection feats sizer limit)" "framed (decodeGlobalSection feats)" "framed decodeStartSection"
  unfolding decodeTypeSection_def decodeFunctionSection_def decodeTableSection_def decodeMemorySection_def decodeGlobalSection_def
    decodeStartSection_def by (intro framed_intros)+

lemma framed_elements [framed_intros]: "framed (decodeElementSection feats)"
  unfolding decodeElementSection_def decodeElementSegment_def element_values_def element_exprs_def element_table_def
    decodeElementConstExprVector_def element_expr_def decodeElementRefType_def ensureElementKindFuncRef_def
    decodeElementInitValueVector_def by (intro framed_intros)

lemma framed_data [framed_intros]: "framed (decodeDataSection feats)"
  unfolding decodeDataSection_def decodeDataSegment_def by (intro framed_intros)

lemma framed_name_subsection [framed_intros]: "framed (name_subsection subsectionID subsectionSize result)"
  unfolding name_subsection_def decodeFunctionNames_def decodeLocalNames_def by (intro framed_intros)

text \<open>Bodies record how far into the section they start, so their decoder also depends on the number of
  bytes already consumed: \<open>framed_at\<close> is \<open>framed\<close> for decoders given the length of the section's input.\<close>

definition framed_at :: "(nat \<Rightarrow> 'a decoder) \<Rightarrow> bool" where
  "framed_at d \<longleftrightarrow> (\<forall>k r x r'. d (length r + k) r = Inr (x, r') \<longrightarrow>
     (\<exists>p. r = p @ r' \<and> (\<forall>rest. d (length (p @ rest) + k) (p @ rest) = Inr (x, rest))))"

named_theorems framed_at_intros

lemma framed_at_const [framed_at_intros]: "framed d \<Longrightarrow> framed_at (\<lambda>_. d)"
  unfolding framed_at_def framed_def reads_def by blast

lemma framed_at_bind [framed_at_intros]:
  assumes "framed_at d" "\<And>x. framed_at (f x)"
  shows "framed_at (\<lambda>st. bind_dec (d st) (\<lambda>x. f x st))"
  unfolding framed_at_def
proof (intro allI impI)
  fix k r y r' assume "bind_dec (d (length r + k)) (\<lambda>x. f x (length r + k)) r = Inr (y, r')"
  then obtain x r1 where 1: "d (length r + k) r = Inr (x, r1)" "f x (length r + k) r1 = Inr (y, r')"
    by (auto simp: bind_dec_def bind_res_eq_Inr)
  obtain p where p: "r = p @ r1" "\<And>rest. d (length (p @ rest) + k) (p @ rest) = Inr (x, rest)"
    using assms(1) 1(1) unfolding framed_at_def by blast
  have "f x (length r1 + (length p + k)) r1 = Inr (y, r')" using 1(2) p(1) by (simp add: ac_simps)
  then obtain q where q: "r1 = q @ r'" "\<And>rest. f x (length (q @ rest) + (length p + k)) (q @ rest) = Inr (y, rest)"
    using assms(2)[of x] unfolding framed_at_def by blast
  have "bind_dec (d (length ((p @ q) @ rest) + k)) (\<lambda>x. f x (length ((p @ q) @ rest) + k)) ((p @ q) @ rest) = Inr (y, rest)" for rest
    using p(2)[of "q @ rest"] q(2)[of rest] by (simp add: bind_dec_def ac_simps)
  then show "\<exists>p. r = p @ r' \<and> (\<forall>rest. bind_dec (d (length (p @ rest) + k)) (\<lambda>x. f x (length (p @ rest) + k)) (p @ rest) = Inr (y, rest))"
    using p(1) q(1) by (intro exI[of _ "p @ q"]) simp
qed

lemma framed_at_if [framed_at_intros]: "framed_at a \<Longrightarrow> framed_at b \<Longrightarrow> framed_at (\<lambda>st. if c then a st else b st)"
  by (cases c) simp_all

lemma framed_at_prod [framed_at_intros]: "(\<And>u v. framed_at (g u v)) \<Longrightarrow> framed_at (\<lambda>st. case w of (u, v) \<Rightarrow> g u v st)"
  by (cases w) simp

lemma framed_at_offset [framed_at_intros]: "framed_at body_offset"
  unfolding framed_at_def body_offset_def by (auto intro!: exI[of _ "[]"])

lemma framed_at_read_n [framed_at_intros]: "framed_at d \<Longrightarrow> framed_at (\<lambda>st. read_n n (d st))"
proof (induction n)
  case 0
  then show ?case by (simp add: framed_at_const framed_ret)
next
  case (Suc n)
  show ?case unfolding read_n.simps by (intro framed_at_intros Suc framed_intros)
qed

lemma framed_expand [framed_intros]: "framed (expand_locals n rem)"
  by (induction n arbitrary: rem) (auto simp: Let_def intro!: framed_intros)

lemma framed_local_entry [framed_intros]: "framed local_entry"
  unfolding local_entry_def by (intro framed_intros)

text \<open>Reading twice: when both passes consume the same bytes, checking first and then reading is framed.\<close>

definition checked_then :: "'a decoder \<Rightarrow> ('a \<Rightarrow> bool) \<Rightarrow> dec_error \<Rightarrow> 'b decoder \<Rightarrow> 'b decoder" where
  "checked_then A c e B = bind_dec (rewound A) (\<lambda>x. if c x then fail_dec e else B)"

lemma framed_checked_then:
  assumes "framed A" "framed B" "\<And>r x y rA rB. A r = Inr (x, rA) \<Longrightarrow> B r = Inr (y, rB) \<Longrightarrow> rA = rB"
  shows "framed (checked_then A c e B)"
  unfolding framed_def
proof (intro allI impI)
  fix r y r' assume "checked_then A c e B r = Inr (y, r')"
  then obtain x rA where 1: "A r = Inr (x, rA)" "\<not> c x" "B r = Inr (y, r')"
    by (auto simp: checked_then_def bind_dec_def rewound_def bind_res_eq_Inr fail_dec_def split: if_splits)
  have rA: "rA = r'" by (rule assms(3)[OF 1(1,3)])
  obtain p where p: "r = p @ r'" "reads A p x" using framedE[OF assms(1) 1(1)] rA by blast
  obtain q where q: "r = q @ r'" "reads B q y" using framedE[OF assms(2) 1(3)] .
  have "p = q" using p(1) q(1) by simp
  then show "\<exists>p. r = p @ r' \<and> reads (checked_then A c e B) p y"
    using p q 1(2) by (intro exI[of _ p]) (auto simp: reads_def checked_then_def bind_dec_def rewound_def)
qed

lemma locals_same_bytes:
  "read_n k local_entry r = Inr (nums, rA) \<Longrightarrow> expand_locals k rem r = Inr (y, rB) \<Longrightarrow> rA = rB"
  by (induction k arbitrary: r rem nums y)
    (auto simp: bind_dec_def bind_res_eq_Inr ret_dec_def fail_dec_def local_entry_def Let_def split: if_splits)

lemma framed_at_decodeCode [framed_at_intros]: "framed_at decodeCode"
proof -
  have "bind_dec (rewound (read_n k local_entry)) (\<lambda>nums. if c nums then fail_dec e else bind_dec (expand_locals k rem) g) =
      bind_dec (checked_then (read_n k local_entry) c e (expand_locals k rem)) g"
    for k c e rem and g :: "byte list \<times> int \<Rightarrow> Code decoder"
    by (rule ext) (auto simp: checked_then_def bind_dec_def fail_dec_def bind_res_assoc split_def if_distrib[of "\<lambda>f. bind_res f _"]
        intro!: arg_cong[where f="bind_res _"])
  then show ?thesis unfolding decodeCode_def Let_def
    by (simp only:) (intro framed_at_intros framed_intros framed_checked_then locals_same_bytes; assumption)
qed

lemma framed_decodeCodeSection [framed_intros]: "framed decodeCodeSection"
proof -
  have "framed_at (\<lambda>st. read_vec (decodeCode st))" unfolding read_vec_def by (intro framed_at_intros framed_intros)
  then show ?thesis unfolding framed_at_def framed_def reads_def decodeCodeSection_def by (metis add_0_right)
qed

section \<open>The loops over subsections and sections\<close>

text \<open>The count of bytes left is unsigned and wraps when a subsection is longer than the section.\<close>

function name_loop :: "NameSection \<Rightarrow> u64 \<Rightarrow> NameSection decoder" where
  "name_loop result limit r =
     (if limit = 0 then Inr (result, r) else
      case r of [] \<Rightarrow> Inr (result, []) | subsectionID # r1 \<Rightarrow>
      (case DecodeUint32 r1 of Inl e \<Rightarrow> Inl e | Inr ((subsectionSize, bytesRead), r2) \<Rightarrow>
      (case name_subsection subsectionID subsectionSize result r2 of Inl e \<Rightarrow> Inl e | Inr (result', r3) \<Rightarrow>
       name_loop result' (limit - 1 - word_of_nat bytesRead - ucast subsectionSize) r3)))"
  by pat_completeness auto

termination
proof (relation "measure (\<lambda>(_, _, r). length r)", simp, goal_cases)
  case (1 result limit r subsectionID r1 x y r2 subsectionSize bytesRead z result' r3)
  then show ?case
    using framed_shrinks[OF framed_leb(1)] framed_shrinks[OF framed_name_subsection] by fastforce
qed

declare name_loop.simps [simp del]

definition decodeNameSection :: "u64 \<Rightarrow> NameSection decoder" where
  "decodeNameSection limit = name_loop \<lparr>ns_ModuleName = [], ns_FunctionNames = [], ns_LocalNames = []\<rparr> limit"

record decode_config =
  dc_enabledFeatures :: features
  dc_memoryLimitPages :: u32
  dc_memoryCapacityFromMax :: bool
  dc_dwarfEnabled :: bool
  dc_storeCustomSections :: bool

definition decode_custom :: "decode_config \<Rightarrow> Module \<Rightarrow> u32 \<Rightarrow> Module decoder" where
  "decode_custom c m sectionSize = bind_dec decodeUTF8 (\<lambda>(name, nameSize).
     if sectionSize < nameSize then fail_dec (Malformed ''custom section'')
     else if name = ''name'' \<and> md_NameSection m \<noteq> None then fail_dec (Malformed ''redundant custom section'')
     else let limit = sectionSize - nameSize in
       if name \<noteq> ''name'' then
         if dc_storeCustomSections c \<or> dc_dwarfEnabled c
         then bind_dec (decodeCustomSection name (unat limit)) (\<lambda>s. ret_dec (m\<lparr>md_CustomSections := md_CustomSections m @ [s]\<rparr>))
         else bind_dec (ReadFull (unat limit)) (\<lambda>_. ret_dec m)
       else bind_dec (decodeNameSection (ucast limit)) (\<lambda>n. ret_dec (m\<lparr>md_NameSection := Some n\<rparr>)))"

definition decode_section :: "decode_config \<Rightarrow> Module \<Rightarrow> byte \<Rightarrow> u32 \<Rightarrow> Module decoder" where
  "decode_section c m sectionID sectionSize =
     (let feats = dc_enabledFeatures c; limit = dc_memoryLimitPages c;
          sizer = newMemorySizer limit (dc_memoryCapacityFromMax c) in
      if sectionID = 0 then decode_custom c m sectionSize
      else if sectionID = 1 then bind_dec (decodeTypeSection feats) (\<lambda>x. ret_dec (m\<lparr>md_TypeSection := x\<rparr>))
      else if sectionID = 2 then bind_dec (decodeImportSection feats sizer limit) (\<lambda>(is, n).
        ret_dec (m\<lparr>md_ImportSection := is, md_ImportPerModule := (\<lambda>name. filter (\<lambda>i. imp_Module i = name) is),
          md_ImportFunctionCount := n 0, md_ImportTableCount := n 1, md_ImportMemoryCount := n 2, md_ImportGlobalCount := n 3\<rparr>))
      else if sectionID = 3 then bind_dec decodeFunctionSection (\<lambda>x. ret_dec (m\<lparr>md_FunctionSection := x\<rparr>))
      else if sectionID = 4 then bind_dec (decodeTableSection feats) (\<lambda>x. ret_dec (m\<lparr>md_TableSection := x\<rparr>))
      else if sectionID = 5 then bind_dec (decodeMemorySection feats sizer limit) (\<lambda>x. ret_dec (m\<lparr>md_MemorySection := x\<rparr>))
      else if sectionID = 6 then bind_dec (decodeGlobalSection feats) (\<lambda>x. ret_dec (m\<lparr>md_GlobalSection := x\<rparr>))
      else if sectionID = 7 then bind_dec decodeExportSection (\<lambda>(es, e). ret_dec (m\<lparr>md_ExportSection := es, md_Exports := e\<rparr>))
      else if sectionID = 8 then
        if md_StartSection m \<noteq> None then fail_dec (Malformed ''multiple start sections'')
        else bind_dec decodeStartSection (\<lambda>x. ret_dec (m\<lparr>md_StartSection := Some x\<rparr>))
      else if sectionID = 9 then bind_dec (decodeElementSection feats) (\<lambda>x. ret_dec (m\<lparr>md_ElementSection := x\<rparr>))
      else if sectionID = 10 then bind_dec decodeCodeSection (\<lambda>x. ret_dec (m\<lparr>md_CodeSection := x\<rparr>))
      else if sectionID = 11 then bind_dec (decodeDataSection feats) (\<lambda>x. ret_dec (m\<lparr>md_DataSection := x\<rparr>))
      else if sectionID = 12 then
        bind_dec (RequireEnabled feats CoreFeatureBulkMemoryOperations) (\<lambda>_.
        bind_dec decodeDataCountSection (\<lambda>x. ret_dec (m\<lparr>md_DataCountSection := Some x\<rparr>)))
      else fail_dec InvalidSectionID)"

text \<open>The bytes left never grow, which is what the loop over sections needs to end.\<close>

definition shrinks :: "'a decoder \<Rightarrow> bool" where
  "shrinks d \<longleftrightarrow> (\<forall>r x r'. d r = Inr (x, r') \<longrightarrow> length r' \<le> length r)"

named_theorems shrinks_intros

lemma shrinks_framed: "framed d \<Longrightarrow> shrinks d"
  by (auto simp: shrinks_def dest: framed_shrinks)

lemma shrinks_bind [shrinks_intros]: "shrinks d \<Longrightarrow> (\<And>x. shrinks (f x)) \<Longrightarrow> shrinks (bind_dec d f)"
  by (force simp: shrinks_def bind_dec_def bind_res_eq_Inr intro: order_trans)

lemma shrinks_if [shrinks_intros]: "shrinks a \<Longrightarrow> shrinks b \<Longrightarrow> shrinks (if c then a else b)"
  by simp

lemma shrinks_prod [shrinks_intros]: "(\<And>a b. shrinks (f a b)) \<Longrightarrow> shrinks (case p of (a, b) \<Rightarrow> f a b)"
  by (cases p) simp

lemmas shrinks_sections [shrinks_intros] = framed_ret[THEN shrinks_framed] framed_fail[THEN shrinks_framed]
  framed_name[THEN shrinks_framed] framed_ReadFull[THEN shrinks_framed] framed_RequireEnabled[THEN shrinks_framed]
  framed_imports[THEN shrinks_framed] framed_exports[THEN shrinks_framed] framed_sections[THEN shrinks_framed]
  framed_elements[THEN shrinks_framed] framed_data[THEN shrinks_framed] framed_decodeCodeSection[THEN shrinks_framed]

lemma shrinks_name_loop: "name_loop result limit r = Inr (x, r') \<Longrightarrow> length r' \<le> length r"
proof (induction result limit r rule: name_loop.induct)
  case (1 result limit r)
  show ?case
  proof (cases "limit = 0 \<or> r = []")
    case True
    then show ?thesis using 1(2) by (subst (asm) name_loop.simps) (auto split: list.splits)
  next
    case False
    then obtain b r1 where r: "r = b # r1" by (cases r) auto
    obtain s n r2 res r3 where 2: "DecodeUint32 r1 = Inr ((s, n), r2)" "name_subsection b s result r2 = Inr (res, r3)"
        "name_loop res (limit - 1 - word_of_nat n - ucast s) r3 = Inr (x, r')"
      using 1(2) False r by (subst (asm) name_loop.simps) (auto split: sum.splits)
    have "length r' \<le> length r3" using 1(1)[of b r1 "((s, n), r2)" "(s, n)" r2 s n "(res, r3)" res r3] 2 False r by simp
    then show ?thesis
      using framed_shrinks[OF framed_leb(1) 2(1)] framed_shrinks[OF framed_name_subsection 2(2)] r by simp
  qed
qed

lemma shrinks_section: "shrinks (decode_section c m sectionID sectionSize)"
proof -
  have "shrinks (decodeNameSection l)" for l
    unfolding shrinks_def decodeNameSection_def by (blast dest: shrinks_name_loop)
  moreover have "shrinks (decodeCustomSection n l)" for n l
    unfolding shrinks_def decodeCustomSection_def by auto
  moreover have "shrinks decodeDataCountSection"
    unfolding shrinks_def decodeDataCountSection_def by (auto split: sum.splits if_splits)
  ultimately show ?thesis
    unfolding decode_section_def decode_custom_def Let_def
    by (intro shrinks_intros)
qed

function decode_sections :: "decode_config \<Rightarrow> Module \<Rightarrow> byte list \<Rightarrow> dec_error + Module" where
  "decode_sections c m r = (case r of [] \<Rightarrow> Inr m | sectionID # r1 \<Rightarrow>
     (case DecodeUint32 r1 of Inl e \<Rightarrow> Inl e | Inr ((sectionSize, _), r2) \<Rightarrow>
     (case decode_section c m sectionID sectionSize r2 of Inl e \<Rightarrow> Inl e | Inr (m', r3) \<Rightarrow>
      if unat sectionSize \<noteq> length r2 - length r3 then Inl SectionLength
      else decode_sections c m' r3)))"
  by pat_completeness auto

termination
proof (relation "measure (\<lambda>(_, _, r). length r)", simp, goal_cases)
  case (1 c m r sectionID r1 x y r2 sectionSize n z m' r3)
  then show ?case
    using framed_shrinks[OF framed_leb(1)] shrinks_section[unfolded shrinks_def] by fastforce
qed

declare decode_sections.simps [simp del]

definition DecodeModule :: "decode_config \<Rightarrow> byte list \<Rightarrow> dec_error + Module" where
  "DecodeModule c bs =
     (if take 4 bs \<noteq> [0x00, 0x61, 0x73, 0x6D] then Inl InvalidMagicNumber
      else if take 4 (drop 4 bs) \<noteq> [0x01, 0x00, 0x00, 0x00] then Inl InvalidVersion
      else bind_res (decode_sections c Module0 (drop 8 bs)) (\<lambda>m.
        if length (md_FunctionSection m) \<noteq> length (md_CodeSection m) then Inl CountMismatch else Inr m))"

end
