(* ===== verification/WasmModules.thy ===== *)
theory WasmModules
  imports WasmBinary
begin

text \<open>
  What the modules produced by the binary decoder satisfy: a well-formedness invariant that every
  section decoder establishes for its part of the module and the loop over sections keeps, and two
  inputs on which the decoder does not do what it means to.
\<close>

section \<open>What a decoded module satisfies\<close>

definition dec_ok :: "('a \<Rightarrow> bool) \<Rightarrow> 'a decoder \<Rightarrow> bool" where
  "dec_ok P d \<longleftrightarrow> (\<forall>r x r'. d r = Inr (x, r') \<longrightarrow> P x)"

lemma dec_okD: "dec_ok P d \<Longrightarrow> d r = Inr (x, r') \<Longrightarrow> P x"
  unfolding dec_ok_def by blast

lemma dec_ok_simps [simp]: "dec_ok P (fail_dec e)" "dec_ok P (ret_dec x) \<longleftrightarrow> P x"
  by (simp_all add: dec_ok_def fail_dec_def ret_dec_def)

lemma dec_ok_bind: "dec_ok Q d \<Longrightarrow> (\<And>x. Q x \<Longrightarrow> dec_ok P (f x)) \<Longrightarrow> dec_ok P (bind_dec d f)"
  unfolding dec_ok_def bind_dec_def by (fastforce simp: bind_res_eq_Inr)

lemma dec_ok_then: "(\<And>x. dec_ok P (f x)) \<Longrightarrow> dec_ok P (bind_dec d f)"
  by (rule dec_ok_bind[of "\<lambda>_. True"]) (simp_all add: dec_ok_def)

lemma dec_ok_if: "dec_ok P a \<Longrightarrow> dec_ok P b \<Longrightarrow> dec_ok P (if c then a else b)"
  by simp

lemma bind_dec_Inr: "bind_dec d f r = Inr z \<longleftrightarrow> (\<exists>x r1. d r = Inr (x, r1) \<and> f x r1 = Inr z)"
  by (auto simp: bind_dec_def bind_res_eq_Inr)

lemma ret_dec_Inr: "ret_dec x r = Inr (y, r') \<longleftrightarrow> y = x \<and> r' = r"
  by (auto simp: ret_dec_def)

lemma dec_ok_read_n: "dec_ok P d \<Longrightarrow> dec_ok (\<lambda>xs. list_all P xs \<and> length xs = n) (read_n n d)"
  by (induction n) (auto intro!: dec_ok_bind[of P d] dec_ok_bind[of "\<lambda>xs. list_all P xs \<and> length xs = _"])

lemma dec_ok_vec: "dec_ok P d \<Longrightarrow> dec_ok (list_all P) (read_vec d)"
proof -
  assume "dec_ok P d"
  then have "dec_ok (list_all P) (read_n n d)" for n using dec_ok_read_n[of P d n] unfolding dec_ok_def by blast
  then show ?thesis unfolding read_vec_def by (rule dec_ok_then)
qed

definition type_ok :: "FunctionType \<Rightarrow> bool" where
  "type_ok t \<longleftrightarrow> list_all valid_value_type (ft_Params t) \<and> list_all valid_value_type (ft_Results t)"

definition table_ok :: "Table \<Rightarrow> bool" where
  "table_ok t \<longleftrightarrow> tb_Min t \<le> MaximumFunctionIndex \<and> (\<forall>x. tb_Max t = Some x \<longrightarrow> tb_Min t \<le> x)"

fun desc_ok :: "u32 \<Rightarrow> import_desc \<Rightarrow> bool" where
  "desc_ok limit (DescFunc i) = True"
| "desc_ok limit (DescTable t) = table_ok t"
| "desc_ok limit (DescMem m) = (Memory_Validate limit m = Inr ())"
| "desc_ok limit (DescGlobal g) = valid_value_type (gt_ValType g)"

abbreviation same_kind :: "Import \<Rightarrow> Import \<Rightarrow> bool" where
  "same_kind i j \<equiv> extern_type (imp_Desc i) = extern_type (imp_Desc j)"

definition imports_ok :: "u32 \<Rightarrow> Import list \<Rightarrow> bool" where
  "imports_ok limit is \<longleftrightarrow> list_all (\<lambda>i. desc_ok limit (imp_Desc i)) is \<and>
     (\<forall>k<length is. imp_IndexPerType (is ! k) = word_of_nat (length (filter (same_kind (is ! k)) (take k is))))"

definition code_ok :: "Code \<Rightarrow> bool" where
  "code_ok c \<longleftrightarrow> list_all valid_value_type (co_LocalTypes c) \<and> length (co_LocalTypes c) < 2 ^ 32 \<and>
     co_Body c \<noteq> [] \<and> last (co_Body c) = 0x0b"

definition module_ok :: "u32 \<Rightarrow> Module \<Rightarrow> bool" where
  "module_ok limit m \<longleftrightarrow> list_all type_ok (md_TypeSection m) \<and> imports_ok limit (md_ImportSection m) \<and>
     md_ImportFunctionCount m = word_of_nat (length (filter (\<lambda>i. extern_type (imp_Desc i) = 0) (md_ImportSection m))) \<and>
     list_all table_ok (md_TableSection m) \<and>
     (\<forall>mem. md_MemorySection m = Some mem \<longrightarrow> Memory_Validate limit mem = Inr ()) \<and>
     list_all (\<lambda>g. valid_value_type (gt_ValType (gl_Type g))) (md_GlobalSection m) \<and>
     distinct (map ex_Name (md_ExportSection m)) \<and>
     md_Exports m = map_of (map (\<lambda>e. (ex_Name e, e)) (md_ExportSection m)) \<and>
     list_all code_ok (md_CodeSection m)"

lemma value_types_ok: "dec_ok (\<lambda>vs. list_all valid_value_type vs \<and> length vs = unat n) (decodeValueTypes n)"
  by (auto simp: dec_ok_def decodeValueTypes_def bind_dec_def bind_res_eq_Inr ReadFull_def ret_dec_def fail_dec_def split: if_splits)

lemma function_type_ok: "dec_ok type_ok (decodeFunctionType feats)"
  unfolding decodeFunctionType_def
  by (auto simp: type_ok_def intro!: dec_ok_then dec_ok_bind[OF value_types_ok])

lemma table_dec_ok: "dec_ok table_ok (decodeTable feats)"
  unfolding decodeTable_def
  by (auto simp: table_ok_def not_less intro!: dec_ok_then split: option.splits)

lemma memory_dec_ok: "dec_ok (\<lambda>m. Memory_Validate limit m = Inr ()) (decodeMemory feats sizer limit)"
  unfolding decodeMemory_def
  by (auto simp: Let_def split_def intro!: dec_ok_then split: sum.split)

lemma global_type_ok: "dec_ok (\<lambda>g. valid_value_type (gt_ValType g)) decodeGlobalType"
  unfolding decodeGlobalType_def
  by (rule dec_ok_bind[OF value_types_ok], rule dec_ok_then) (auto simp: list_all_length)

lemma import_dec_ok: "dec_ok (\<lambda>i. desc_ok limit (imp_Desc i)) (decodeImport feats sizer limit)"
  unfolding decodeImport_def
  by (rule dec_ok_then, rule dec_ok_then, rule dec_ok_then, rule dec_ok_bind[of "desc_ok limit"])
    (auto intro: dec_ok_then dec_ok_bind[OF table_dec_ok] dec_ok_bind[OF memory_dec_ok] dec_ok_bind[OF global_type_ok])

lemma number_imports_spec:
  "number_imports c is = (is', c') \<Longrightarrow> length is' = length is \<and> map imp_Desc is' = map imp_Desc is \<and>
   (\<forall>k<length is. imp_IndexPerType (is' ! k) = c (extern_type (imp_Desc (is ! k))) +
      word_of_nat (length (filter (same_kind (is ! k)) (take k is)))) \<and>
   (\<forall>t. c' t = c t + word_of_nat (length (filter (\<lambda>i. extern_type (imp_Desc i) = t) is)))"
proof (induction c "is" arbitrary: is' c' rule: number_imports.induct)
  case (2 c i "is")
  let ?t = "extern_type (imp_Desc i)"
  obtain js where js: "number_imports (c(?t := c ?t + 1)) is = (js, c')" "is' = i\<lparr>imp_IndexPerType := c ?t\<rparr> # js"
    using 2(2) by (auto simp: Let_def split: prod.splits)
  note IH = 2(1)[OF refl js(1)]
  show ?case unfolding js(2)
    using IH by (auto simp: nth_Cons fun_upd_def split: nat.splits)
qed simp

lemma import_section_ok:
  "dec_ok (\<lambda>(is, n). imports_ok limit is \<and> (\<forall>t. n t = word_of_nat (length (filter (\<lambda>i. extern_type (imp_Desc i) = t) is))))
     (decodeImportSection feats sizer limit)"
proof -
  have "case number_imports (\<lambda>_. 0) is of (is', n) \<Rightarrow> imports_ok limit is' \<and>
      (\<forall>t. n t = word_of_nat (length (filter (\<lambda>i. extern_type (imp_Desc i) = t) is')))"
    if ok: "list_all (\<lambda>i. desc_ok limit (imp_Desc i)) is" for "is"
  proof -
    obtain js n where js: "number_imports (\<lambda>_. 0) is = (js, n)" by fastforce
    note spec = number_imports_spec[OF js]
    have desc: "imp_Desc (js ! k) = imp_Desc (is ! k)" if "k < length is" for k
      using spec that by (metis length_map nth_map)
    have cnt: "length (filter (\<lambda>i. P (imp_Desc i)) (take k js)) = length (filter (\<lambda>i. P (imp_Desc i)) (take k is))" for P k
    proof -
      have "map imp_Desc (take k js) = map imp_Desc (take k is)" using spec by (simp add: take_map[symmetric])
      then have "length (filter P (map imp_Desc (take k js))) = length (filter P (map imp_Desc (take k is)))" by simp
      then show ?thesis by (simp add: filter_map comp_def)
    qed
    have "list_all (\<lambda>i. desc_ok limit (imp_Desc i)) js" using ok spec desc by (simp add: list_all_length)
    moreover have "length (filter (\<lambda>i. extern_type (imp_Desc i) = t) js) = length (filter (\<lambda>i. extern_type (imp_Desc i) = t) is)" for t
      using cnt[of "\<lambda>d. extern_type d = t" "length is"] spec by simp
    ultimately show ?thesis
      using spec desc cnt[of "\<lambda>d. extern_type (imp_Desc (is ! k)) = extern_type d" k for k]
      by (auto simp: js imports_ok_def)
  qed
  then show ?thesis
    unfolding decodeImportSection_def by (intro dec_ok_bind[OF dec_ok_vec[OF import_dec_ok]]) auto
qed

lemma read_exports_ok:
  "read_exports n m r = Inr ((es, m'), r') \<Longrightarrow> distinct (map ex_Name es) \<and> (\<forall>e\<in>set es. m (ex_Name e) = None) \<and>
     m' = m ++ map_of (map (\<lambda>e. (ex_Name e, e)) es)"
proof (induction n arbitrary: m r es)
  case (Suc n)
  then obtain e r1 es' where e: "m (ex_Name e) = None" "read_exports n (m(ex_Name e \<mapsto> e)) r1 = Inr ((es', m'), r')" "es = e # es'"
    by (auto simp: bind_dec_Inr ret_dec_Inr fail_dec_def split: if_splits)
  note IH = Suc.IH[OF e(2)]
  have fresh: "ex_Name e \<notin> ex_Name ` set es'" "\<forall>x\<in>set es'. m (ex_Name x) = None"
    using IH by (auto split: if_splits)
  then have "m(ex_Name e \<mapsto> e) ++ map_of (map (\<lambda>e. (ex_Name e, e)) es') = m ++ map_of (map (\<lambda>e. (ex_Name e, e)) es)"
    by (simp add: e(3) map_add_upd_left dom_map_of_conv_image_fst image_image)
  then show ?case using IH fresh e(1,3) by (simp del: fun_upd_apply)
qed (simp add: ret_dec_Inr)

lemma export_section_ok:
  "dec_ok (\<lambda>(es, m). distinct (map ex_Name es) \<and> m = map_of (map (\<lambda>e. (ex_Name e, e)) es)) decodeExportSection"
  unfolding decodeExportSection_def
  by (rule dec_ok_then) (auto simp: dec_ok_def dest: read_exports_ok)

lemma local_entry_Inr: "local_entry r = Inr (num, r2) \<longleftrightarrow>
    (\<exists>n r1 b. DecodeUint32 r = Inr ((num, n), r1) \<and> ReadByte r1 = Inr (b, r2) \<and> valid_value_type b)"
  by (auto simp: local_entry_def bind_dec_Inr ret_dec_Inr fail_dec_def split: if_splits)

lemma locals_ok:
  "read_n k local_entry r = Inr (nums, rA) \<Longrightarrow> expand_locals k rem r = Inr ((ts, rem'), rB) \<Longrightarrow>
   list_all valid_value_type ts \<and> length ts = sum_list (map unat nums)"
proof (induction k arbitrary: r rem nums ts rA rB)
  case 0
  then show ?case by (simp add: ret_dec_def)
next
  case (Suc k)
  obtain num n r1 b r2 nums' where 1: "DecodeUint32 r = Inr ((num, n), r1)" "ReadByte r1 = Inr (b, r2)" "valid_value_type b"
      "read_n k local_entry r2 = Inr (nums', rA)" "nums = num # nums'"
    using Suc.prems(1) by (auto simp: bind_dec_Inr ret_dec_Inr local_entry_Inr)
  obtain ts' where 2: "expand_locals k (rem - (int n + 1)) r2 = Inr ((ts', rem'), rB)" "ts = replicate (unat num) b @ ts'"
    using Suc.prems(2) 1 by (auto simp: bind_dec_Inr ret_dec_Inr fail_dec_def Let_def split: if_splits)
  show ?case using Suc.IH[OF 1(4) 2(1)] 1(3,5) 2(2) by (auto simp: list_all_iff)
qed

lemma code_section_ok: "dec_ok (list_all code_ok) decodeCodeSection"
proof -
  have "dec_ok code_ok (decodeCode st)" for st
    unfolding dec_ok_def decodeCode_def
    by (auto simp: bind_dec_def bind_res_eq_Inr ret_dec_def fail_dec_def rewound_def body_offset_def Let_def code_ok_def
        split: if_splits dest: locals_ok)
  from dec_ok_vec[OF this] show ?thesis unfolding decodeCodeSection_def dec_ok_def by blast
qed

lemma section_ok:
  assumes "module_ok (dc_memoryLimitPages c) m"
  shows "dec_ok (module_ok (dc_memoryLimitPages c)) (decode_section c m sectionID sectionSize)"
proof -
  let ?l = "dc_memoryLimitPages c"
  have custom: "dec_ok (module_ok ?l) (decode_custom c m sectionSize)"
    unfolding decode_custom_def Let_def
    using assms by (auto simp: module_ok_def intro!: dec_ok_then)
  have memory: "dec_ok (\<lambda>x. \<forall>mem. x = Some mem \<longrightarrow> Memory_Validate ?l mem = Inr ()) (decodeMemorySection feats sizer ?l)" for feats sizer
    unfolding decodeMemorySection_def by (auto intro!: dec_ok_then dec_ok_bind[OF memory_dec_ok])
  have globals: "dec_ok (\<lambda>g. valid_value_type (gt_ValType (gl_Type g))) (decodeGlobal feats)" for feats
    unfolding decodeGlobal_def by (auto intro!: dec_ok_then dec_ok_bind[OF global_type_ok])
  have tables: "dec_ok (list_all table_ok) (decodeTableSection feats)" for feats
    unfolding decodeTableSection_def
    by (intro dec_ok_then) (use dec_ok_read_n[OF table_dec_ok] in \<open>auto simp: dec_ok_def\<close>)
  note ok = assms[unfolded module_ok_def]
  show ?thesis unfolding decode_section_def Let_def
    apply (intro dec_ok_if)
    subgoal by (rule custom)
    subgoal unfolding decodeTypeSection_def by (rule dec_ok_bind[OF dec_ok_vec[OF function_type_ok]]) (use ok in \<open>simp add: module_ok_def\<close>)
    subgoal by (rule dec_ok_bind[OF import_section_ok]) (use ok in \<open>auto simp: module_ok_def\<close>)
    subgoal by (rule dec_ok_then) (use ok in \<open>simp add: module_ok_def\<close>)
    subgoal by (rule dec_ok_bind[OF tables]) (use ok in \<open>simp add: module_ok_def\<close>)
    subgoal by (rule dec_ok_bind[OF memory]) (use ok in \<open>simp add: module_ok_def\<close>)
    subgoal unfolding decodeGlobalSection_def by (rule dec_ok_bind[OF dec_ok_vec[OF globals]]) (use ok in \<open>simp add: module_ok_def\<close>)
    subgoal by (rule dec_ok_bind[OF export_section_ok]) (use ok in \<open>auto simp: module_ok_def\<close>)
    subgoal by simp
    subgoal by (rule dec_ok_then) (use ok in \<open>simp add: module_ok_def\<close>)
    subgoal by (rule dec_ok_then) (use ok in \<open>simp add: module_ok_def\<close>)
    subgoal by (rule dec_ok_bind[OF code_section_ok]) (use ok in \<open>simp add: module_ok_def\<close>)
    subgoal by (rule dec_ok_then) (use ok in \<open>simp add: module_ok_def\<close>)
    subgoal by (intro dec_ok_then) (use ok in \<open>simp add: module_ok_def\<close>)
    subgoal by simp
    done
qed

lemma sections_ok:
  "module_ok (dc_memoryLimitPages c) m \<Longrightarrow> decode_sections c m r = Inr m' \<Longrightarrow> module_ok (dc_memoryLimitPages c) m'"
proof (induction c m r rule: decode_sections.induct)
  case (1 c m r)
  show ?case
  proof (cases r)
    case Nil
    then show ?thesis using 1 by (simp add: decode_sections.simps)
  next
    case (Cons b r1)
    then obtain s n r2 m1 r3 where 2: "DecodeUint32 r1 = Inr ((s, n), r2)" "decode_section c m b s r2 = Inr (m1, r3)"
        "unat s = length r2 - length r3" "decode_sections c m1 r3 = Inr m'"
      using 1(3) by (subst (asm) decode_sections.simps) (auto split: sum.splits if_splits)
    have "module_ok (dc_memoryLimitPages c) m1" by (rule dec_okD[OF section_ok[OF 1(2)] 2(2)])
    then show ?thesis using 1(1)[OF Cons 2(1) refl refl 2(2) refl] 2(3,4) by auto
  qed
qed

section \<open>Properties\<close>

text \<open>C8: a module the decoder accepts is well formed. Every value type is one of the seven known, imports
  carry their index among the imports of their kind, tables and memories (imported or defined) have
  consistent limits, export names are distinct and the export map is exactly the export section,
  every body ends in the end opcode and there are as many bodies as functions. A memory made for
  the module satisfies the memory invariant and has the declared size.\<close>

theorem decoded_module_ok:
  assumes "DecodeModule c bs = Inr m"
  shows "module_ok (dc_memoryLimitPages c) m \<and> length (md_FunctionSection m) = length (md_CodeSection m) \<and>
    (dc_memoryLimitPages c \<le> MemoryLimitPages \<longrightarrow> (\<forall>mem. md_MemorySection m = Some mem \<longrightarrow>
       mem_ok (NewMemoryInstance mem) \<and> Memory_Pages (NewMemoryInstance mem) = me_Min mem))"
proof -
  have "module_ok (dc_memoryLimitPages c) Module0" by (simp add: module_ok_def Module0_def imports_ok_def)
  then have ok: "module_ok (dc_memoryLimitPages c) m" and len: "length (md_FunctionSection m) = length (md_CodeSection m)"
    using assms sections_ok by (auto simp: DecodeModule_def bind_res_eq_Inr split: if_splits)
  then show ?thesis using new_memory_ok by (auto simp: module_ok_def)
qed

theorem decoded_module_ok_witness:
  "\<exists>m mem. DecodeModule \<lparr>dc_enabledFeatures = 0, dc_memoryLimitPages = 65536, dc_memoryCapacityFromMax = False, dc_dwarfEnabled = False,
       dc_storeCustomSections = False\<rparr> [0x00, 0x61, 0x73, 0x6D, 0x01, 0x00, 0x00, 0x00, 0x05, 0x04, 0x01, 0x01, 0x01, 0x02] = Inr m \<and>
     md_MemorySection m = Some mem \<and> Memory_Pages (NewMemoryInstance mem) = 1"
proof -
  let ?c = "\<lparr>dc_enabledFeatures = 0, dc_memoryLimitPages = 65536, dc_memoryCapacityFromMax = False, dc_dwarfEnabled = False,
       dc_storeCustomSections = False\<rparr>"
  let ?bs = "[0x00, 0x61, 0x73, 0x6D, 0x01, 0x00, 0x00, 0x00, 0x05, 0x04, 0x01, 0x01, 0x01, 0x02] :: byte list"
  let ?mem = "\<lparr>me_Min = 1, me_Cap = 1, me_Max = 2, me_IsMaxEncoded = True, me_IsShared = False\<rparr>"
  have "DecodeModule ?c ?bs = Inr (Module0\<lparr>md_MemorySection := Some ?mem\<rparr>)"
    by (simp add: DecodeModule_def decode_sections.simps decode_section_def decodeMemorySection_def decodeMemory_def decodeLimitsType_def
        newMemorySizer_def Memory_Validate_def MemoryLimitPages_def bind_dec_def read_u32_def ReadByte_def DecodeUint32_def
        of_load_def LoadUint32_def maxVarintLen32_def ret_dec_def fail_dec_def Let_def Module0_def)
  then show ?thesis using decoded_module_ok[of ?c ?bs] by (fastforce simp: MemoryLimitPages_def)
qed




end
