(* ===== verification/Providers.thy ===== *)
theory Providers
  imports WasmModules Recordings
begin

text \<open>
  Provider modules: the WebAssembly modules synthesised at replay so that the guest finds the host's
  memories, globals and functions (\<open>internal/boundarylog/provider.go\<close>, and the grouping of the host state
  by module name in \<open>hoststate.go\<close>), and what the runtime's own decoder makes of their bytes. The start
  values of globals are those of \<open>GlobalInstance.initialize\<close> (\<open>internal/wasm/store.go\<close>).
\<close>

section \<open>Definitions\<close>

record importPlan =
  ip_index :: u32
  ip_module :: string
  ip_name :: string
  ip_sig :: Signature
  ip_paramTypes :: "byte list"
  ip_resultTyps :: "byte list"

record providerSpec =
  ps_module :: string
  ps_memories :: "ImportedMemory list"
  ps_globals :: "ImportedGlobal list"
  ps_funcs :: "importPlan list"
  ps_stubModule :: string

datatype provider_error = EmptyProvider | NoStubModule | ProviderGlobal host_error

subsection \<open>Grouping the host state\<close>

definition get_spec :: "(string \<rightharpoonup> providerSpec) \<Rightarrow> string \<Rightarrow> providerSpec" where
  "get_spec specs name = (case specs name of Some s \<Rightarrow> s
     | None \<Rightarrow> \<lparr>ps_module = name, ps_memories = [], ps_globals = [], ps_funcs = [], ps_stubModule = []\<rparr>)"

definition add_memory :: "(string \<rightharpoonup> providerSpec) \<Rightarrow> ImportedMemory \<Rightarrow> (string \<rightharpoonup> providerSpec)" where
  "add_memory specs m = specs(im_Module m \<mapsto>
     (get_spec specs (im_Module m))\<lparr>ps_memories := ps_memories (get_spec specs (im_Module m)) @ [m]\<rparr>)"

definition add_global :: "(string \<rightharpoonup> providerSpec) \<Rightarrow> ImportedGlobal \<Rightarrow> (string \<rightharpoonup> providerSpec)" where
  "add_global specs g = specs(ig_Module g \<mapsto>
     (get_spec specs (ig_Module g))\<lparr>ps_globals := ps_globals (get_spec specs (ig_Module g)) @ [g]\<rparr>)"

text \<open>\<open>sort.Strings\<close> orders by bytes.\<close>

fun str_less :: "string \<Rightarrow> string \<Rightarrow> bool" where
  "str_less s [] = False"
| "str_less [] (b # t) = True"
| "str_less (a # s) (b # t) = ((of_char a :: nat) < of_char b \<or> a = b \<and> str_less s t)"

fun insert_name :: "string \<Rightarrow> string list \<Rightarrow> string list" where
  "insert_name s [] = [s]"
| "insert_name s (t # ts) = (if s = t then t # ts else if str_less s t then s # t # ts else t # insert_name s ts)"

definition providerModules :: "HostState option \<Rightarrow> string list \<times> (string \<rightharpoonup> providerSpec)" where
  "providerModules h = (case h of None \<Rightarrow> ([], Map.empty)
     | Some h \<Rightarrow>
       let mems = is_Memories (hs_Initial h); globs = is_Globals (hs_Initial h);
           specs = foldl add_global (foldl add_memory Map.empty mems) globs in
       (foldr insert_name (map im_Module mems @ map ig_Module globs) [], specs))"

subsection \<open>Encoding\<close>

definition encodeFuncType :: "byte list \<Rightarrow> byte list \<Rightarrow> byte list" where
  "encodeFuncType params results =
     appendULEB128 (appendULEB128 [0x60] (word_of_nat (length params)) @ params) (word_of_nat (length results)) @ results"

fun constExpr :: "ScalarType \<Rightarrow> BValue \<Rightarrow> byte list" where
  "constExpr TypeI32 v = appendSLEB128 [0x41] (scast (ucast (v_Bits v) :: u32)) @ [0x0b]"
| "constExpr TypeI64 v = appendSLEB128 [0x42] (v_Bits v) @ [0x0b]"
| "constExpr TypeF32 v = 0x43 # put32 (ucast (v_Bits v)) @ [0x0b]"
| "constExpr TypeF64 v = 0x44 # put64 (v_Bits v) @ [0x0b]"

definition appendSection :: "byte list \<Rightarrow> byte \<Rightarrow> byte list \<Rightarrow> byte list" where
  "appendSection dst sid body = appendULEB128 (dst @ [sid]) (word_of_nat (length body)) @ body"

definition appendName :: "byte list \<Rightarrow> string \<Rightarrow> byte list" where
  "appendName dst s = appendULEB128 dst (word_of_nat (length s)) @ str_bytes s"

fun find_type :: "byte list list \<Rightarrow> byte list \<Rightarrow> nat option" where
  "find_type [] ft = None"
| "find_type (t # ts) ft = (if t = ft then Some 0 else map_option Suc (find_type ts ft))"

text \<open>The distinct encoded types and the index of each function's type among them.\<close>

fun type_indices :: "byte list list \<Rightarrow> byte list list \<Rightarrow> byte list list \<times> u32 list" where
  "type_indices types [] = (types, [])"
| "type_indices types (ft # fts) =
     (case find_type types ft of
        Some j \<Rightarrow> let (ts, is) = type_indices types fts in (ts, word_of_nat j # is)
      | None \<Rightarrow> let (ts, is) = type_indices (types @ [ft]) fts in (ts, word_of_nat (length types) # is))"

definition func_types :: "providerSpec \<Rightarrow> byte list list \<times> u32 list" where
  "func_types p = type_indices [] (map (\<lambda>f. encodeFuncType (ip_paramTypes f) (ip_resultTyps f)) (ps_funcs p))"

definition type_body :: "providerSpec \<Rightarrow> byte list" where
  "type_body p = appendULEB128 [] (word_of_nat (length (fst (func_types p)))) @ concat (fst (func_types p))"

definition import_body :: "providerSpec \<Rightarrow> byte list" where
  "import_body p = foldl (\<lambda>body (f, i). appendULEB128 (appendName (appendName body (ps_stubModule p)) (ip_name f) @ [0x00]) (ucast (i :: u32)))
     (appendULEB128 [] (word_of_nat (length (ps_funcs p)))) (zip (ps_funcs p) (snd (func_types p)))"

definition memory_body :: "providerSpec \<Rightarrow> byte list" where
  "memory_body p = foldl (\<lambda>body m. case im_MaxPages m of
       None \<Rightarrow> appendULEB128 (body @ [0x00]) (ucast (im_MinPages m))
     | Some mx \<Rightarrow> appendULEB128 (appendULEB128 (body @ [0x01]) (ucast (im_MinPages m))) (ucast mx))
     (appendULEB128 [] (word_of_nat (length (ps_memories p)))) (ps_memories p)"

definition global_step :: "float_ops \<Rightarrow> byte list \<Rightarrow> ImportedGlobal \<Rightarrow> provider_error + byte list" where
  "global_step fo body g = (case ImportedGlobal_decode fo g of
     Inl e \<Rightarrow> Inl (ProviderGlobal e)
   | Inr (t, v) \<Rightarrow> Inr (body @ [ValueType t] @ [if ig_Mutable g then 0x01 else 0x00] @ constExpr t v))"

definition global_body :: "float_ops \<Rightarrow> providerSpec \<Rightarrow> provider_error + byte list" where
  "global_body fo p = run_steps (global_step fo) (appendULEB128 [] (word_of_nat (length (ps_globals p)))) (ps_globals p)"

definition append_exports :: "byte \<Rightarrow> byte list \<Rightarrow> string list \<Rightarrow> byte list" where
  "append_exports kind body names =
     foldl (\<lambda>body (i, n). appendULEB128 (appendName body n @ [kind]) (word_of_nat i)) body (zip [0..<length names] names)"

definition export_body :: "providerSpec \<Rightarrow> byte list" where
  "export_body p =
     append_exports 0x03 (append_exports 0x02 (append_exports 0x00
       (appendULEB128 [] (word_of_nat (length (ps_memories p) + length (ps_globals p) + length (ps_funcs p))))
       (map ip_name (ps_funcs p))) (map im_Name (ps_memories p))) (map ig_Name (ps_globals p))"

definition encode :: "float_ops \<Rightarrow> providerSpec \<Rightarrow> provider_error + byte list" where
  "encode fo p =
     (if ps_memories p = [] \<and> ps_globals p = [] \<and> ps_funcs p = [] then Inl EmptyProvider
      else if ps_funcs p \<noteq> [] \<and> ps_stubModule p = [] then Inl NoStubModule
      else
        let out = [0x00, 0x61, 0x73, 0x6d, 0x01, 0x00, 0x00, 0x00];
            out = (if ps_funcs p \<noteq> [] then appendSection (appendSection out 1 (type_body p)) 2 (import_body p) else out);
            out = (if ps_memories p \<noteq> [] then appendSection out 5 (memory_body p) else out) in
        bind_res (if ps_globals p \<noteq> [] then bind_res (global_body fo p) (\<lambda>body. Inr (appendSection out 6 body)) else Inr out)
          (\<lambda>out. Inr (appendSection out 7 (export_body p))))"

definition requiredPages :: "u64 \<Rightarrow> u32" where
  "requiredPages n = (let pages = (n + 65536 - 1) div 65536 in if pages > 0xFFFFFFFF then 0xFFFFFFFF else ucast pages)"

subsection \<open>Start values of globals\<close>

text \<open>The low word; imported globals by index, function references by resolver.\<close>

definition global_initialize :: "(u32 \<Rightarrow> u64) \<Rightarrow> (u32 \<Rightarrow> GlobalType \<times> u64) \<Rightarrow> ConstantExpression \<Rightarrow> u64" where
  "global_initialize funcRef importedGlobals expr =
     (if ce_Opcode expr = 0x41 then (case LoadInt32 (ce_Data expr) of Inl _ \<Rightarrow> 0 | Inr (v, _) \<Rightarrow> ucast v)
      else if ce_Opcode expr = 0x42 then (case LoadInt64 (ce_Data expr) of Inl _ \<Rightarrow> 0 | Inr (v, _) \<Rightarrow> v)
      else if ce_Opcode expr = 0x43 then ucast (get32 (ce_Data expr))
      else if ce_Opcode expr = 0x44 then get64 (ce_Data expr)
      else if ce_Opcode expr = 0x23 then
        (case importedGlobals (load_value (LoadUint32 (ce_Data expr))) of (t, v) \<Rightarrow>
           if gt_ValType t = ValueTypeI32 then ucast (ucast v :: u32) else v)
      else if ce_Opcode expr = 0xd2 then funcRef (load_value (LoadUint32 (ce_Data expr)))
      else if ce_Opcode expr = 0x0c then get64 (take 8 (ce_Data expr))
      else 0)"

section \<open>The encoded parts and what the decoder reads from them\<close>

lemma foldl_append: "foldl (\<lambda>b x. b @ g x) b0 xs = b0 @ concat (map g xs)"
  by (induction xs arbitrary: b0) simp_all

definition name_bytes :: "string \<Rightarrow> byte list" where
  "name_bytes s = EncodeUint64 (word_of_nat (length s)) @ str_bytes s"

definition import_bytes :: "string \<Rightarrow> importPlan \<times> u32 \<Rightarrow> byte list" where
  "import_bytes stub = (\<lambda>(f, i). name_bytes stub @ name_bytes (ip_name f) @ [0x00] @ EncodeUint64 (ucast i))"

definition limits_bytes :: "ImportedMemory \<Rightarrow> byte list" where
  "limits_bytes m = (case im_MaxPages m of
       None \<Rightarrow> 0x00 # EncodeUint64 (ucast (im_MinPages m))
     | Some mx \<Rightarrow> 0x01 # EncodeUint64 (ucast (im_MinPages m)) @ EncodeUint64 (ucast mx))"

definition export_bytes :: "byte \<Rightarrow> nat \<times> string \<Rightarrow> byte list" where
  "export_bytes kind = (\<lambda>(i, n). name_bytes n @ [kind] @ EncodeUint64 (word_of_nat i))"

definition global_bytes :: "bool \<Rightarrow> ScalarType \<times> BValue \<Rightarrow> byte list" where
  "global_bytes mut = (\<lambda>(t, v). [ValueType t, if mut then 0x01 else 0x00] @ constExpr t v)"

abbreviation count_bytes :: "nat \<Rightarrow> byte list" where "count_bytes n \<equiv> EncodeUint64 (word_of_nat n)"

lemma append_simps:
  "appendName dst s = dst @ name_bytes s"
  "appendSection dst sid body = dst @ [sid] @ count_bytes (length body) @ body"
  by (simp_all add: appendName_def appendSection_def name_bytes_def appendULEB128_eq)

lemma import_body_eq: "import_body p = count_bytes (length (ps_funcs p)) @ concat (map (import_bytes (ps_stubModule p)) (zip (ps_funcs p) (snd (func_types p))))"
proof -
  have "(\<lambda>body (f, i). appendULEB128 (appendName (appendName body (ps_stubModule p)) (ip_name f) @ [0x00]) (ucast (i :: u32))) =
      (\<lambda>body x. body @ import_bytes (ps_stubModule p) x)"
    by (auto simp: fun_eq_iff import_bytes_def append_simps appendULEB128_eq)
  then show ?thesis by (simp only: import_body_def foldl_append) (simp add: appendULEB128_eq)
qed

lemma memory_body_eq: "memory_body p = count_bytes (length (ps_memories p)) @ concat (map limits_bytes (ps_memories p))"
proof -
  have "(\<lambda>body m. case im_MaxPages m of
       None \<Rightarrow> appendULEB128 (body @ [0x00]) (ucast (im_MinPages m))
     | Some mx \<Rightarrow> appendULEB128 (appendULEB128 (body @ [0x01]) (ucast (im_MinPages m))) (ucast mx)) = (\<lambda>body m. body @ limits_bytes m)"
    by (auto simp: fun_eq_iff limits_bytes_def appendULEB128_eq split: option.split)
  then show ?thesis by (simp only: memory_body_def foldl_append) (simp add: appendULEB128_eq)
qed

lemma append_exports_eq: "append_exports kind body names = body @ concat (map (export_bytes kind) (zip [0..<length names] names))"
proof -
  have "(\<lambda>body (i, n). appendULEB128 (appendName body n @ [kind]) (word_of_nat i)) = (\<lambda>body x. body @ export_bytes kind x)"
    by (auto simp: fun_eq_iff export_bytes_def append_simps appendULEB128_eq)
  then show ?thesis by (simp only: append_exports_def foldl_append)
qed

lemma run_global_steps:
  "run_steps (global_step fo) b gs = Inr body \<longleftrightarrow>
   (\<exists>tvs. list_all2 (\<lambda>g tv. ImportedGlobal_decode fo g = Inr tv) gs tvs \<and>
      body = b @ concat (map2 (\<lambda>g. global_bytes (ig_Mutable g)) gs tvs))"
proof (induction gs arbitrary: b)
  case (Cons g gs)
  show ?case
  proof (cases "ImportedGlobal_decode fo g")
    case (Inl e)
    then show ?thesis by (auto simp: global_step_def list_all2_Cons1)
  next
    case (Inr tv)
    then show ?thesis
      using Cons.IH[of "b @ global_bytes (ig_Mutable g) tv"]
      by (cases tv) (auto simp: global_step_def global_bytes_def list_all2_Cons1)
  qed
qed auto

lemma reads_u32w: "reads read_u32 (EncodeUint64 (ucast (i :: u32))) i"
proof -
  have "unat i < 2 ^ 32" using unat_u32_less[of i] by simp
  from reads_u32[OF this] show ?thesis by simp
qed

lemma reads_name:
  assumes "length s < 2 ^ 32" "utf8_valid (str_bytes s)"
  shows "reads read_name (name_bytes s) s"
  unfolding read_name_def decodeUTF8_def
proof (rule reads_bind_eq[where q="[]"], rule reads_bind_eq[OF reads_u32n[OF assms(1)]])
  show "reads (case (word_of_nat (length s), length (count_bytes (length s))) of (sz, sizeOfSize) \<Rightarrow>
      if sz = 0 then ret_dec ([], word_of_nat sizeOfSize)
      else bind_dec (ReadFull (unat (sz :: u32))) (\<lambda>buf. if \<not> utf8_valid buf then fail_dec InvalidUTF8
         else ret_dec (bytes_str buf, sz + word_of_nat sizeOfSize)))
      (str_bytes s) (s, word_of_nat (length s) + word_of_nat (length (count_bytes (length s))))"
  proof (cases "s = []")
    case True
    then show ?thesis by (simp add: str_bytes_def reads_ret)
  next
    case False
    have "(word_of_nat (length s) :: u32) \<noteq> 0" using False assms(1) unat_of_nat32[OF assms(1)] by (metis length_0_conv unat_0)
    then show ?thesis
      using assms unat_of_nat32[OF assms(1)]
      by (auto intro!: reads_bind_eq[OF reads_ReadFull[where p="str_bytes s"]] simp: reads_ret)
  qed
qed (auto simp: name_bytes_def intro: reads_ret)

lemma reads_value_types:
  "length vs < 2 ^ 32 \<Longrightarrow> list_all valid_value_type vs \<Longrightarrow> reads (decodeValueTypes (word_of_nat (length vs))) vs vs"
proof -
  assume a: "length vs < 2 ^ 32" "list_all valid_value_type vs"
  then have u: "unat (word_of_nat (length vs) :: u32) = length vs" by (simp add: unat_of_nat32)
  have z: "(word_of_nat (length vs) :: u32) = 0 \<longleftrightarrow> vs = []" using u by (metis length_0_conv unat_eq_0)
  show ?thesis unfolding decodeValueTypes_def using a u z
    by (auto intro!: reads_ret reads_bind_eq[OF reads_ReadFull[where p=vs]])
qed

lemma reads_function_type:
  assumes "length ps < 2 ^ 32" "length rs < 2 ^ 32" "list_all valid_value_type ps" "list_all valid_value_type rs"
    "length rs > 1 \<Longrightarrow> feats AND CoreFeatureMultiValue \<noteq> 0"
  shows "reads (decodeFunctionType feats) (encodeFuncType ps rs) \<lparr>ft_Params = ps, ft_Results = rs\<rparr>"
proof -
  have "(word_of_nat (length rs) :: u32) > 1 \<longleftrightarrow> length rs > 1"
    using unat_of_nat32[OF assms(2)] by (simp add: word_less_nat_alt)
  then have feat: "reads (if (word_of_nat (length rs) :: u32) > 1 then RequireEnabled feats CoreFeatureMultiValue else ret_dec ()) [] ()"
    using assms(5) by (auto simp: RequireEnabled_def reads_ret)
  have "reads (decodeFunctionType feats) ([0x60] @ count_bytes (length ps) @ ps @ count_bytes (length rs) @ [] @ rs @ [])
      \<lparr>ft_Params = ps, ft_Results = rs\<rparr>"
    unfolding decodeFunctionType_def
    by (rule reads_bind[OF reads_ReadByte], simp only: not_True_eq_False if_False simp_thms, rule reads_bind[OF reads_u32[OF assms(1)]],
        rule reads_bind[OF reads_value_types[OF assms(1,3)]], rule reads_bind[OF reads_u32[OF assms(2)]], rule reads_bind[OF feat],
        rule reads_bind[OF reads_value_types[OF assms(2,4)]], rule reads_ret)
  then show ?thesis by (simp add: encodeFuncType_def appendULEB128_eq)
qed

lemma reads_import:
  assumes "length stub < 2 ^ 32" "utf8_valid (str_bytes stub)" "length (ip_name f) < 2 ^ 32" "utf8_valid (str_bytes (ip_name f))"
  shows "reads (decodeImport feats sizer limit) (import_bytes stub (f, i))
    \<lparr>imp_Module = stub, imp_Name = ip_name f, imp_Desc = DescFunc i, imp_IndexPerType = 0\<rparr>"
proof -
  have "reads (decodeImport feats sizer limit) (name_bytes stub @ name_bytes (ip_name f) @ [0x00] @ (EncodeUint64 (ucast i) @ []) @ [])
    \<lparr>imp_Module = stub, imp_Name = ip_name f, imp_Desc = DescFunc i, imp_IndexPerType = 0\<rparr>"
    unfolding decodeImport_def
    by (rule reads_bind[OF reads_name[OF assms(1,2)]], rule reads_bind[OF reads_name[OF assms(3,4)]], rule reads_bind[OF reads_ReadByte],
        simp only: if_True simp_thms, rule reads_bind[OF reads_bind[OF reads_u32w reads_ret]], rule reads_ret)
  then show ?thesis by (simp add: import_bytes_def)
qed

lemma reads_memory:
  assumes "sizer (im_MinPages m) (im_MaxPages m) = (mn, cp, mx)"
    "mem = \<lparr>me_Min = mn, me_Cap = cp, me_Max = mx, me_IsMaxEncoded = im_MaxPages m \<noteq> None, me_IsShared = False\<rparr>"
    "Memory_Validate limit mem = Inr ()"
  shows "reads (decodeMemory feats sizer limit) (limits_bytes m) mem"
proof -
  have "reads decodeLimitsType (limits_bytes m) (im_MinPages m, im_MaxPages m, False)"
  proof (cases "im_MaxPages m")
    case None
    have "reads decodeLimitsType ([0x00] @ EncodeUint64 (ucast (im_MinPages m)) @ []) (im_MinPages m, None, False)"
      unfolding decodeLimitsType_def
      by (rule reads_bind[OF reads_ReadByte], simp add: Let_def) (use reads_bind[OF reads_u32w reads_ret] in fastforce)
    then show ?thesis using None by (simp add: limits_bytes_def)
  next
    case (Some x)
    have "reads decodeLimitsType ([0x01] @ EncodeUint64 (ucast (im_MinPages m)) @ EncodeUint64 (ucast x) @ []) (im_MinPages m, Some x, False)"
      unfolding decodeLimitsType_def
      by (rule reads_bind[OF reads_ReadByte], simp add: Let_def) (use reads_bind[OF reads_u32w reads_bind[OF reads_u32w reads_ret]] in fastforce)
    then show ?thesis using Some by (simp add: limits_bytes_def)
  qed
  then show ?thesis
    unfolding decodeMemory_def by (rule reads_bind_eq[where q="[]"]) (use assms in \<open>auto simp: Let_def intro: reads_ret\<close>)
qed

lemma reads_consumed: "reads d p x \<Longrightarrow> reads (consumed d) p p"
  by (simp add: reads_def consumed_def)

lemma reads_leb:
  "reads DecodeInt32 (EncodeInt64 (scast w)) (w, length (EncodeInt64 (scast (w :: u32))))"
  "reads DecodeInt64 (EncodeInt64 v) (v, length (EncodeInt64 v))"
  by (simp_all add: reads_def DecodeInt32_def DecodeInt64_def of_load_def LoadInt32_Encode LoadInt64_Encode)

text \<open>The constant written for a value, as the decoder keeps it.\<close>

fun const_of :: "ScalarType \<times> BValue \<Rightarrow> ConstantExpression" where
  "const_of (TypeI32, v) = \<lparr>ce_Opcode = 0x41, ce_Data = EncodeInt64 (scast (ucast (v_Bits v) :: u32))\<rparr>"
| "const_of (TypeI64, v) = \<lparr>ce_Opcode = 0x42, ce_Data = EncodeInt64 (v_Bits v)\<rparr>"
| "const_of (TypeF32, v) = \<lparr>ce_Opcode = 0x43, ce_Data = put32 (ucast (v_Bits v))\<rparr>"
| "const_of (TypeF64, v) = \<lparr>ce_Opcode = 0x44, ce_Data = put64 (v_Bits v)\<rparr>"

lemma reads_const: "reads (decodeConstantExpression feats) (constExpr t v) (const_of (t, v))"
proof -
  have imm: "reads (const_immediate feats (ce_Opcode (const_of (t, v)))) (ce_Data (const_of (t, v)) @ [])
      (ce_Opcode (const_of (t, v)), ce_Data (const_of (t, v)))"
    by (cases t) (auto simp: const_immediate_def intro!: reads_bind[OF _ reads_ret, unfolded append_Nil2]
        reads_consumed[OF reads_leb(1)] reads_consumed[OF reads_leb(2)] reads_ReadFull)
  have "reads (decodeConstantExpression feats) ([ce_Opcode (const_of (t, v))] @ (ce_Data (const_of (t, v)) @ []) @ [0x0b] @ [])
      \<lparr>ce_Opcode = ce_Opcode (const_of (t, v)), ce_Data = ce_Data (const_of (t, v))\<rparr>"
    unfolding decodeConstantExpression_def
    by (rule reads_bind[OF reads_ReadByte], rule reads_bind[OF imm], simp only: prod.case, rule reads_bind[OF reads_ReadByte])
      (simp add: reads_ret)
  then show ?thesis by (cases t) (simp_all add: appendSLEB128_eq)
qed

lemma valid_scalar: "valid_value_type (ValueType t)"
  by (cases t) (simp_all add: valid_value_type_def ValueTypeI32_def ValueTypeI64_def ValueTypeF32_def ValueTypeF64_def)

lemma reads_global:
  "reads (decodeGlobal feats) (global_bytes mut (t, v)) \<lparr>gl_Type = \<lparr>gt_ValType = ValueType t, gt_Mutable = mut\<rparr>, gl_Init = const_of (t, v)\<rparr>"
proof -
  have vt: "reads (decodeValueTypes 1) [ValueType t] [ValueType t]"
    using reads_value_types[of "[ValueType t]"] valid_scalar[of t] by simp
  have gt: "reads decodeGlobalType ([ValueType t] @ [if mut then 0x01 else 0x00] @ []) \<lparr>gt_ValType = ValueType t, gt_Mutable = mut\<rparr>"
    unfolding decodeGlobalType_def
    by (rule reads_bind[OF vt], rule reads_bind[OF reads_ReadByte]) (auto simp: reads_ret)
  have "reads (decodeGlobal feats) (([ValueType t] @ [if mut then 0x01 else 0x00] @ []) @ constExpr t v @ [])
      \<lparr>gl_Type = \<lparr>gt_ValType = ValueType t, gt_Mutable = mut\<rparr>, gl_Init = const_of (t, v)\<rparr>"
    unfolding decodeGlobal_def by (rule reads_bind[OF gt], rule reads_bind[OF reads_const], rule reads_ret)
  then show ?thesis by (simp add: global_bytes_def)
qed

lemma reads_export:
  assumes "length n < 2 ^ 32" "utf8_valid (str_bytes n)" "i < 2 ^ 32" "kind \<in> {0, 2, 3}"
  shows "reads decodeExport (export_bytes kind (i, n)) \<lparr>ex_Type = kind, ex_Name = n, ex_Index = word_of_nat i\<rparr>"
proof -
  have "reads decodeExport (name_bytes n @ [kind] @ count_bytes i @ []) \<lparr>ex_Type = kind, ex_Name = n, ex_Index = word_of_nat i\<rparr>"
    unfolding decodeExport_def
    by (rule reads_bind[OF reads_name[OF assms(1,2)]], rule reads_bind[OF reads_ReadByte])
      (use assms(4) reads_bind[OF reads_u32[OF assms(3)] reads_ret] in auto)
  then show ?thesis by (simp add: export_bytes_def)
qed

lemma reads_exports:
  "list_all2 (reads decodeExport) ps es \<Longrightarrow> distinct (map ex_Name es) \<Longrightarrow> \<forall>e\<in>set es. m (ex_Name e) = None \<Longrightarrow>
   reads (read_exports (length es) m) (concat ps) (es, m ++ map_of (map (\<lambda>e. (ex_Name e, e)) es))"
proof (induction arbitrary: m rule: list_all2_induct)
  case (Cons p ps e es)
  have IH: "reads (read_exports (length es) (m(ex_Name e \<mapsto> e))) (concat ps)
      (es, m(ex_Name e \<mapsto> e) ++ map_of (map (\<lambda>e. (ex_Name e, e)) es))"
    using Cons by (intro Cons(3)) (auto, metis imageI)
  have eq: "m(ex_Name e \<mapsto> e) ++ map_of (map (\<lambda>e. (ex_Name e, e)) es) = m ++ map_of (map (\<lambda>e. (ex_Name e, e)) (e # es))"
    using Cons(4) by (simp add: map_add_upd_left dom_map_of_conv_image_fst image_image)
  have "reads (bind_dec (read_exports (length es) (m(ex_Name e \<mapsto> e))) (\<lambda>(es, m'). ret_dec (e # es, m'))) (concat ps)
      (e # es, m ++ map_of (map (\<lambda>e. (ex_Name e, e)) (e # es)))"
    unfolding eq[symmetric] by (rule reads_bind_eq[OF IH, where q="[]"]) (simp_all add: reads_ret)
  then show ?case
    unfolding list.size(4) add_Suc_right add_0_right read_exports.simps concat.simps
    by (intro reads_bind[OF Cons(1)]) (use Cons(5) in \<open>simp only: list.set ball_simps insert_iff simp_thms if_False\<close>)
qed (simp add: reads_ret)

section \<open>Sections\<close>

lemma decode_section_step:
  assumes "length body < 2 ^ 32" "reads (decode_section c m sid (word_of_nat (length body))) body m'"
  shows "decode_sections c m (sid # count_bytes (length body) @ body @ rest) = decode_sections c m' rest"
proof -
  have 1: "DecodeUint32 (count_bytes (length body) @ body @ rest) =
      Inr ((word_of_nat (length body), length (count_bytes (length body))), body @ rest)"
    using readsD[OF reads_u32n[OF assms(1)]] by simp
  have 2: "unat (word_of_nat (length body) :: u32) = length (body @ rest) - length rest"
    using unat_of_nat32[OF assms(1)] by simp
  show ?thesis
    by (subst decode_sections.simps) (simp add: 1 readsD[OF assms(2)] 2 del: length_append)
qed

text \<open>Type indices: the types listed are the distinct ones in order of first use, and the index given to a
  function points to its own type.\<close>

lemma find_type_Some: "find_type ts ft = Some j \<Longrightarrow> j < length ts \<and> ts ! j = ft"
  by (induction ts arbitrary: j) (auto split: if_splits)

lemma find_type_None: "find_type ts ft = None \<longleftrightarrow> ft \<notin> set ts"
  by (induction ts) auto

lemma type_indices_spec:
  "type_indices types fts = (ts, is) \<Longrightarrow> distinct types \<Longrightarrow> length is = length fts \<and> distinct ts \<and> set ts = set types \<union> set fts \<and>
     take (length types) ts = types \<and> length ts \<le> length types + length fts \<and>
     (length types + length fts \<le> 2 ^ 32 \<longrightarrow> (\<forall>k<length fts. unat (is ! k) < length ts \<and> ts ! unat (is ! k) = fts ! k))"
proof (induction types fts arbitrary: ts "is" rule: type_indices.induct)
  case (2 types ft fts)
  show ?case
  proof (cases "find_type types ft")
    case None
    obtain js where js: "type_indices (types @ [ft]) fts = (ts, js)" "is = word_of_nat (length types) # js"
      using 2(3) None by (auto split: prod.splits)
    have IH: "length js = length fts \<and> distinct ts \<and> set ts = set (types @ [ft]) \<union> set fts \<and>
        take (length (types @ [ft])) ts = types @ [ft] \<and> length ts \<le> length (types @ [ft]) + length fts \<and>
        (length (types @ [ft]) + length fts \<le> 2 ^ 32 \<longrightarrow> (\<forall>k<length fts. unat (js ! k) < length ts \<and> ts ! unat (js ! k) = fts ! k))"
      using 2(1)[OF None js(1)] 2(4) None by (simp add: find_type_None)
    obtain rest where ts: "ts = types @ ft # rest"
      using append_take_drop_id[of "length (types @ [ft])" ts] IH by (metis append.assoc append_Cons append_Nil)
    show ?thesis
    proof (intro conjI impI allI)
      fix k assume le: "length types + length (ft # fts) \<le> 2 ^ 32" and k: "k < length (ft # fts)"
      then have u: "unat (word_of_nat (length types) :: u32) = length types" by (intro unat_of_nat32) simp
      show "unat (is ! k) < length ts" "ts ! unat (is ! k) = (ft # fts) ! k"
        using IH js(2) le k u ts by (cases k; simp)+
    qed (use IH js(2) ts in auto)
  next
    case (Some j)
    obtain js where js: "type_indices types fts = (ts, js)" "is = word_of_nat j # js"
      using 2(3) Some by (auto split: prod.splits)
    note IH = 2(2)[OF Some js(1) 2(4)]
    have j: "j < length types" "types ! j = ft" using find_type_Some[OF Some] by auto
    obtain rest where ts: "ts = types @ rest" using append_take_drop_id[of "length types" ts] IH by metis
    show ?thesis
    proof (intro conjI impI allI)
      fix k assume le: "length types + length (ft # fts) \<le> 2 ^ 32" and k: "k < length (ft # fts)"
      then have u: "unat (word_of_nat j :: u32) = j" using j by (intro unat_of_nat32) simp
      show "unat (is ! k) < length ts" "ts ! unat (is ! k) = (ft # fts) ! k"
        using IH js(2) le k u ts j by (cases k; simp add: nth_append)+
    qed (use IH js(2) ts j nth_mem[OF j(1)] in auto)
  qed
qed simp

section \<open>The whole module\<close>

definition provider_names :: "providerSpec \<Rightarrow> string list" where
  "provider_names p = map ip_name (ps_funcs p) @ map im_Name (ps_memories p) @ map ig_Name (ps_globals p)"

text \<open>What a provider must satisfy for its module to be accepted by the decoder: valid names, no two exports of
  the same name, known value types, several results only where enabled, at most one memory, within limits.\<close>

definition provider_ok :: "decode_config \<Rightarrow> providerSpec \<Rightarrow> bool" where
  "provider_ok c p \<longleftrightarrow>
     (\<forall>n\<in>set (provider_names p). utf8_valid (str_bytes n)) \<and> distinct (provider_names p) \<and> utf8_valid (str_bytes (ps_stubModule p)) \<and>
     (\<forall>f\<in>set (ps_funcs p). list_all valid_value_type (ip_paramTypes f) \<and> list_all valid_value_type (ip_resultTyps f) \<and>
        (length (ip_resultTyps f) > 1 \<longrightarrow> dc_enabledFeatures c AND CoreFeatureMultiValue \<noteq> 0)) \<and>
     length (ps_memories p) \<le> 1 \<and> dc_memoryLimitPages c \<le> MemoryLimitPages \<and>
     (\<forall>m\<in>set (ps_memories p). im_MinPages m \<le> dc_memoryLimitPages c \<and>
        (\<forall>mx. im_MaxPages m = Some mx \<longrightarrow> im_MinPages m \<le> mx \<and> mx \<le> dc_memoryLimitPages c))"

definition memory_of :: "decode_config \<Rightarrow> ImportedMemory \<Rightarrow> Memory" where
  "memory_of c m = (case newMemorySizer (dc_memoryLimitPages c) (dc_memoryCapacityFromMax c) (im_MinPages m) (im_MaxPages m) of
     (mn, cp, mx) \<Rightarrow> \<lparr>me_Min = mn, me_Cap = cp, me_Max = mx, me_IsMaxEncoded = im_MaxPages m \<noteq> None, me_IsShared = False\<rparr>)"

definition global_of :: "ImportedGlobal \<Rightarrow> ScalarType \<times> BValue \<Rightarrow> Global" where
  "global_of g tv = \<lparr>gl_Type = \<lparr>gt_ValType = ValueType (fst tv), gt_Mutable = ig_Mutable g\<rparr>, gl_Init = const_of tv\<rparr>"

definition exports_of :: "byte \<Rightarrow> string list \<Rightarrow> Export list" where
  "exports_of kind names = map (\<lambda>(i, n). \<lparr>ex_Type = kind, ex_Name = n, ex_Index = word_of_nat i\<rparr>) (zip [0..<length names] names)"

definition provider_exports :: "providerSpec \<Rightarrow> Export list" where
  "provider_exports p = exports_of 0 (map ip_name (ps_funcs p)) @ exports_of 2 (map im_Name (ps_memories p)) @
     exports_of 3 (map ig_Name (ps_globals p))"

definition type_of_bytes :: "features \<Rightarrow> byte list \<Rightarrow> FunctionType" where
  "type_of_bytes feats b = (case decodeFunctionType feats b of Inr (t, _) \<Rightarrow> t | Inl _ \<Rightarrow> \<lparr>ft_Params = [], ft_Results = []\<rparr>)"

definition sec :: "byte \<Rightarrow> byte list \<Rightarrow> byte list" where
  "sec sid body = sid # count_bytes (length body) @ body"

lemma encode_Inr:
  assumes "encode fo p = Inr bs"
  obtains gb where "ps_globals p \<noteq> [] \<Longrightarrow> global_body fo p = Inr gb"
    "bs = [0x00, 0x61, 0x73, 0x6d, 0x01, 0x00, 0x00, 0x00] @ (if ps_funcs p \<noteq> [] then sec 1 (type_body p) @ sec 2 (import_body p) else []) @
       (if ps_memories p \<noteq> [] then sec 5 (memory_body p) else []) @ (if ps_globals p \<noteq> [] then sec 6 gb else []) @ sec 7 (export_body p)"
  using assms by (auto simp: encode_def Let_def append_simps sec_def bind_res_eq_Inr split: if_splits)

lemma all2_maps: "(\<And>x. x \<in> set xs \<Longrightarrow> R (f x) (g x)) \<Longrightarrow> list_all2 R (map f xs) (map g xs)"
  by (induction xs) auto

lemma concat_member: "x \<in> set xs \<Longrightarrow> length (g x) \<le> length (concat (map g xs))"
  by (induction xs) auto

lemma concat_count: "(\<And>x. x \<in> set xs \<Longrightarrow> g x \<noteq> []) \<Longrightarrow> length xs \<le> length (concat (map g xs))"
proof (induction xs)
  case (Cons x xs)
  then have "g x \<noteq> []" "length xs \<le> length (concat (map g xs))" by auto
  then show ?case by (cases "g x") auto
qed simp

lemma name_bytes_length: "length s \<le> length (name_bytes s)" "name_bytes s \<noteq> []"
  by (simp_all add: name_bytes_def EncodeUint64_rec[of "word_of_nat (length s)"])

lemma reads_provider_exports:
  assumes "length (export_body p) < 2 ^ 32" "provider_ok c p"
  shows "reads decodeExportSection (export_body p) (provider_exports p, map_of (map (\<lambda>e. (ex_Name e, e)) (provider_exports p)))"
proof -
  define ks where "ks = map (Pair (0 :: byte)) (zip [0..<length (ps_funcs p)] (map ip_name (ps_funcs p))) @
    map (Pair 2) (zip [0..<length (ps_memories p)] (map im_Name (ps_memories p))) @
    map (Pair 3) (zip [0..<length (ps_globals p)] (map ig_Name (ps_globals p)))"
  define bytes where "bytes = (\<lambda>(k, x). export_bytes k x)"
  define ex where "ex = (\<lambda>(k :: byte, i :: nat, n). \<lparr>ex_Type = k, ex_Name = n, ex_Index = word_of_nat i :: u32\<rparr>)"
  have n: "length ks = length (ps_memories p) + length (ps_globals p) + length (ps_funcs p)" by (simp add: ks_def)
  have body: "export_body p = count_bytes (length ks) @ concat (map bytes ks)"
    by (simp add: export_body_def append_exports_eq appendULEB128_eq n) (simp add: ks_def bytes_def comp_def)
  have es: "provider_exports p = map ex ks"
    by (simp add: provider_exports_def exports_of_def ks_def ex_def comp_def split_def)
  have names: "map ex_Name (map ex ks) = provider_names p"
    by (simp add: ks_def ex_def provider_names_def comp_def split_def map_snd_zip[unfolded comp_def])
  have len: "length ks < 2 ^ 32"
    using concat_count[of ks bytes] name_bytes_length(2) assms(1) by (force simp: body bytes_def export_bytes_def)
  have rd: "reads decodeExport (bytes x) (ex x)" if x: "x \<in> set ks" for x
  proof -
    obtain k i s where x': "x = (k, i, s)" by (cases x) auto
    have "k \<in> {0, 2, 3}" "i < length ks" using x by (auto simp: x' ks_def dest!: set_zip_leftD)
    moreover have "s \<in> set (provider_names p)" using x names[symmetric] by (auto simp: x' ex_def split_def intro!: image_eqI[of _ _ x])
    moreover have "length s < 2 ^ 32"
      using concat_member[OF x, of bytes] name_bytes_length(1)[of s] assms(1) by (simp add: body x' bytes_def export_bytes_def)
    ultimately show ?thesis using assms(2) len by (auto simp: x' bytes_def ex_def provider_ok_def intro!: reads_export)
  qed
  have "list_all2 (reads decodeExport) (map bytes ks) (map ex ks)" by (rule all2_maps) (rule rd)
  from reads_exports[OF this, of Map.empty] have "reads (read_exports (length ks) Map.empty) (concat (map bytes ks))
      (map ex ks, map_of (map (\<lambda>e. (ex_Name e, e)) (map ex ks)))"
    using assms(2) names by (simp add: provider_ok_def)
  then show ?thesis unfolding decodeExportSection_def body es
    using reads_u32[OF len] unat_of_nat32[OF len] by (intro reads_bind) (auto simp del: map_map)
qed

lemma provider_types:
  assumes "func_types p = (ts, is)" "length (type_body p) < 2 ^ 32" "length (import_body p) < 2 ^ 32" "provider_ok c p"
  shows "reads (decodeTypeSection (dc_enabledFeatures c)) (type_body p) (map (type_of_bytes (dc_enabledFeatures c)) ts)"
    "distinct (map (type_of_bytes (dc_enabledFeatures c)) ts)"
    "length is = length (ps_funcs p)"
    "k < length (ps_funcs p) \<Longrightarrow> unat (is ! k) < length ts \<and> type_of_bytes (dc_enabledFeatures c) (ts ! unat (is ! k)) =
       \<lparr>ft_Params = ip_paramTypes (ps_funcs p ! k), ft_Results = ip_resultTyps (ps_funcs p ! k)\<rparr>"
proof -
  let ?F = "dc_enabledFeatures c"
  define fenc where "fenc = (\<lambda>f :: importPlan. encodeFuncType (ip_paramTypes f) (ip_resultTyps f))"
  define ftype where "ftype = (\<lambda>f :: importPlan. \<lparr>ft_Params = ip_paramTypes f, ft_Results = ip_resultTyps f\<rparr>)"
  have spec: "length is = length (ps_funcs p)" "distinct ts" "set ts = fenc ` set (ps_funcs p)"
      "length (ps_funcs p) \<le> 2 ^ 32 \<Longrightarrow> k < length (ps_funcs p) \<Longrightarrow> unat (is ! k) < length ts \<and> ts ! unat (is ! k) = fenc (ps_funcs p ! k)" for k
    using type_indices_spec[OF assms(1)[unfolded func_types_def]] by (auto simp: fenc_def)
  have tb: "type_body p = count_bytes (length ts) @ concat (map (\<lambda>t. t) ts)"
    using assms(1) by (simp add: type_body_def appendULEB128_eq)
  have nonempty: "t \<noteq> []" if "t \<in> set ts" for t using that spec(3) by (auto simp: fenc_def encodeFuncType_def appendULEB128_eq)
  have fl: "length (ps_funcs p) < 2 ^ 32"
    using concat_count[of "zip (ps_funcs p) is" "import_bytes (ps_stubModule p)"] name_bytes_length(2) spec(1) assms(1,3)
    by (force simp: import_body_eq import_bytes_def)
  have small: "length t < 2 ^ 32" if "t \<in> set ts" for t
    using concat_member[OF that, of "\<lambda>t. t"] assms(2) unfolding tb by simp
  have rd: "reads (decodeFunctionType ?F) (fenc f) (ftype f)" if f: "f \<in> set (ps_funcs p)" for f
  proof -
    have "length (fenc f) < 2 ^ 32" using small spec(3) f by simp
    then show ?thesis unfolding fenc_def ftype_def
      using assms(4) f by (intro reads_function_type) (auto simp: provider_ok_def encodeFuncType_def appendULEB128_eq)
  qed
  have tob: "type_of_bytes ?F (fenc f) = ftype f" if "f \<in> set (ps_funcs p)" for f
    using readsD[OF rd[OF that], of "[]"] by (simp add: type_of_bytes_def)
  have all: "list_all2 (reads (decodeFunctionType ?F)) ts (map (type_of_bytes ?F) ts)"
  proof -
    have "reads (decodeFunctionType ?F) (id t) (type_of_bytes ?F t)" if "t \<in> set ts" for t
      using that spec(3) rd tob by auto
    then show ?thesis using all2_maps[of ts "reads (decodeFunctionType ?F)" id "type_of_bytes ?F"] by simp
  qed
  have "length ts < 2 ^ 32" using concat_count[of ts "\<lambda>t. t"] nonempty assms(2) unfolding tb by simp
  then show "reads (decodeTypeSection ?F) (type_body p) (map (type_of_bytes ?F) ts)"
    using reads_vec[OF all] unfolding tb decodeTypeSection_def by simp
  have "inj_on (type_of_bytes ?F) (fenc ` set (ps_funcs p))"
    by (rule inj_onI) (auto simp: tob, simp add: ftype_def fenc_def)
  then show "distinct (map (type_of_bytes ?F) ts)" using spec(2,3) by (simp add: distinct_map)
  show "length is = length (ps_funcs p)" by (rule spec(1))
  show "k < length (ps_funcs p) \<Longrightarrow> unat (is ! k) < length ts \<and> type_of_bytes ?F (ts ! unat (is ! k)) =
       \<lparr>ft_Params = ip_paramTypes (ps_funcs p ! k), ft_Results = ip_resultTyps (ps_funcs p ! k)\<rparr>"
    using spec(4)[of k] fl tob[of "ps_funcs p ! k"] by (simp add: ftype_def)
qed

definition plain_import :: "string \<Rightarrow> importPlan \<times> u32 \<Rightarrow> Import" where
  "plain_import stub = (\<lambda>(f, i). \<lparr>imp_Module = stub, imp_Name = ip_name f, imp_Desc = DescFunc i, imp_IndexPerType = 0\<rparr>)"

lemma provider_imports:
  assumes "func_types p = (ts, is)" "length is = length (ps_funcs p)" "length (import_body p) < 2 ^ 32" "provider_ok c p"
  shows "reads (decodeImportSection feats sizer limit) (import_body p)
    (number_imports (\<lambda>_. 0) (map (plain_import (ps_stubModule p)) (zip (ps_funcs p) is)))"
proof -
  let ?xs = "zip (ps_funcs p) is" and ?stub = "ps_stubModule p"
  have body: "import_body p = count_bytes (length ?xs) @ concat (map (import_bytes ?stub) ?xs)"
    using assms(1,2) by (simp add: import_body_eq)
  have len: "length ?xs < 2 ^ 32"
    using concat_count[of ?xs "import_bytes ?stub"] name_bytes_length(2) assms(3) unfolding body by (force simp: import_bytes_def)
  have "reads (decodeImport feats sizer limit) (import_bytes ?stub x) (plain_import ?stub x)" if x: "x \<in> set ?xs" for x
  proof -
    obtain f i where x': "x = (f, i)" "f \<in> set (ps_funcs p)" using x by (metis set_zip_leftD surj_pair)
    have "length (import_bytes ?stub x) < 2 ^ 32" using concat_member[OF x, of "import_bytes ?stub"] assms(3) unfolding body by simp
    then have "length ?stub < 2 ^ 32" "length (ip_name f) < 2 ^ 32"
      using name_bytes_length(1)[of ?stub] name_bytes_length(1)[of "ip_name f"] by (auto simp: x'(1) import_bytes_def)
    then show ?thesis using assms(4) x'(2) unfolding x'(1) plain_import_def prod.case
      by (intro reads_import) (auto simp: provider_ok_def provider_names_def)
  qed
  then have "list_all2 (reads (decodeImport feats sizer limit)) (map (import_bytes ?stub) ?xs) (map (plain_import ?stub) ?xs)"
    by (rule all2_maps)
  from reads_vec[OF this] len show ?thesis
    unfolding decodeImportSection_def body by (intro reads_bind_eq[where q="[]"]) (auto simp: reads_ret)
qed

lemma provider_memory:
  assumes "provider_ok c p" "ps_memories p \<noteq> []"
  shows "reads (decodeMemorySection feats (newMemorySizer (dc_memoryLimitPages c) (dc_memoryCapacityFromMax c)) (dc_memoryLimitPages c))
    (memory_body p) (Some (memory_of c (hd (ps_memories p))))"
proof -
  obtain m where m: "ps_memories p = [m]" using assms by (cases "ps_memories p") (auto simp: provider_ok_def)
  have lim: "im_MinPages m \<le> dc_memoryLimitPages c" "\<And>mx. im_MaxPages m = Some mx \<Longrightarrow> im_MinPages m \<le> mx \<and> mx \<le> dc_memoryLimitPages c"
      "dc_memoryLimitPages c \<le> MemoryLimitPages"
    using assms by (auto simp: provider_ok_def m)
  obtain mn cp mx where sizer: "newMemorySizer (dc_memoryLimitPages c) (dc_memoryCapacityFromMax c) (im_MinPages m) (im_MaxPages m) = (mn, cp, mx)"
    by (metis prod_cases3)
  have valid: "Memory_Validate (dc_memoryLimitPages c) (memory_of c m) = Inr ()"
    using lim by (cases "im_MaxPages m") (auto simp: memory_of_def newMemorySizer_def Memory_Validate_def not_less)
  have "reads (decodeMemory feats (newMemorySizer (dc_memoryLimitPages c) (dc_memoryCapacityFromMax c)) (dc_memoryLimitPages c))
      (limits_bytes m) (memory_of c m)"
    by (rule reads_memory, rule sizer, simp add: memory_of_def sizer, rule valid)
  then have "reads (bind_dec (decodeMemory feats (newMemorySizer (dc_memoryLimitPages c) (dc_memoryCapacityFromMax c)) (dc_memoryLimitPages c))
      (\<lambda>m. ret_dec (Some m))) (limits_bytes m) (Some (memory_of c m))"
    by (rule reads_bind_eq[where q="[]"]) (simp_all add: reads_ret)
  then show ?thesis unfolding decodeMemorySection_def memory_body_eq m
    using reads_u32[of 1] by (intro reads_bind) auto
qed

lemma provider_globals:
  assumes "list_all2 (\<lambda>g tv. ImportedGlobal_decode fo g = Inr tv) gs tvs" "length gs < 2 ^ 32"
  shows "reads (decodeGlobalSection feats) (count_bytes (length gs) @ concat (map2 (\<lambda>g. global_bytes (ig_Mutable g)) gs tvs)) (map2 global_of gs tvs)"
proof -
  have len: "length gs = length tvs" using assms(1) by (rule list_all2_lengthD)
  have "list_all2 (reads (decodeGlobal feats)) (map (\<lambda>(g, tv). global_bytes (ig_Mutable g) tv) (zip gs tvs)) (map (\<lambda>(g, tv). global_of g tv) (zip gs tvs))"
  proof (rule all2_maps)
    fix x assume "x \<in> set (zip gs tvs)"
    obtain g t v where "x = (g, t, v)" by (metis prod_cases3)
    then show "reads (decodeGlobal feats) (case x of (g, tv) \<Rightarrow> global_bytes (ig_Mutable g) tv) (case x of (g, tv) \<Rightarrow> global_of g tv)"
      using reads_global[of feats "ig_Mutable g" t v] by (simp add: global_of_def)
  qed
  from reads_vec[OF this] assms(2) len show ?thesis unfolding decodeGlobalSection_def by simp
qed

text \<open>The module a provider's bytes decode to.\<close>

definition provider_module :: "decode_config \<Rightarrow> providerSpec \<Rightarrow> (ScalarType \<times> BValue) list \<Rightarrow> Module" where
  "provider_module c p tvs =
     (let (ts, is) = func_types p;
          (imps, n) = number_imports (\<lambda>_. 0) (map (plain_import (ps_stubModule p)) (zip (ps_funcs p) is)) in
      Module0\<lparr>md_TypeSection := map (type_of_bytes (dc_enabledFeatures c)) ts,
        md_ImportSection := imps, md_ImportPerModule := (\<lambda>name. filter (\<lambda>i. imp_Module i = name) imps),
        md_ImportFunctionCount := n 0, md_ImportTableCount := n 1, md_ImportMemoryCount := n 2, md_ImportGlobalCount := n 3,
        md_MemorySection := (case ps_memories p of [] \<Rightarrow> None | m # _ \<Rightarrow> Some (memory_of c m)),
        md_GlobalSection := map2 global_of (ps_globals p) tvs,
        md_ExportSection := provider_exports p, md_Exports := map_of (map (\<lambda>e. (ex_Name e, e)) (provider_exports p))\<rparr>)"

lemma section_reads:
  "reads (decodeTypeSection (dc_enabledFeatures c)) body ts \<Longrightarrow> reads (decode_section c m 1 sz) body (m\<lparr>md_TypeSection := ts\<rparr>)"
  "reads (decodeImportSection (dc_enabledFeatures c) (newMemorySizer (dc_memoryLimitPages c) (dc_memoryCapacityFromMax c)) (dc_memoryLimitPages c)) body (imps, n) \<Longrightarrow>
   reads (decode_section c m 2 sz) body (m\<lparr>md_ImportSection := imps, md_ImportPerModule := (\<lambda>name. filter (\<lambda>i. imp_Module i = name) imps),
          md_ImportFunctionCount := n 0, md_ImportTableCount := n 1, md_ImportMemoryCount := n 2, md_ImportGlobalCount := n 3\<rparr>)"
  "reads (decodeMemorySection (dc_enabledFeatures c) (newMemorySizer (dc_memoryLimitPages c) (dc_memoryCapacityFromMax c)) (dc_memoryLimitPages c)) body mem \<Longrightarrow>
   reads (decode_section c m 5 sz) body (m\<lparr>md_MemorySection := mem\<rparr>)"
  "reads (decodeGlobalSection (dc_enabledFeatures c)) body gs \<Longrightarrow> reads (decode_section c m 6 sz) body (m\<lparr>md_GlobalSection := gs\<rparr>)"
  "reads decodeExportSection body (es, em) \<Longrightarrow> reads (decode_section c m 7 sz) body (m\<lparr>md_ExportSection := es, md_Exports := em\<rparr>)"
  unfolding decode_section_def Let_def
  by (simp_all add: reads_def bind_dec_def ret_dec_def)

lemma provider_sections:
  assumes "provider_ok c p" "length bs < 2 ^ 32"
    "bs = (if ps_funcs p \<noteq> [] then sec 1 (type_body p) @ sec 2 (import_body p) else []) @
       (if ps_memories p \<noteq> [] then sec 5 (memory_body p) else []) @ (if ps_globals p \<noteq> [] then sec 6 gb else []) @ sec 7 (export_body p)"
    "list_all2 (\<lambda>g tv. ImportedGlobal_decode fo g = Inr tv) (ps_globals p) tvs"
    "ps_globals p \<noteq> [] \<Longrightarrow> gb = count_bytes (length (ps_globals p)) @ concat (map2 (\<lambda>g. global_bytes (ig_Mutable g)) (ps_globals p) tvs)"
  shows "decode_sections c Module0 bs = Inr (provider_module c p tvs)"
proof -
  obtain ts "is" where ft: "func_types p = (ts, is)" by fastforce
  obtain imps n where ni: "number_imports (\<lambda>_. 0) (map (plain_import (ps_stubModule p)) (zip (ps_funcs p) is)) = (imps, n)" by fastforce
  let ?m1 = "Module0\<lparr>md_TypeSection := map (type_of_bytes (dc_enabledFeatures c)) ts\<rparr>"
  let ?m2 = "?m1\<lparr>md_ImportSection := imps, md_ImportPerModule := (\<lambda>name. filter (\<lambda>i. imp_Module i = name) imps),
          md_ImportFunctionCount := n 0, md_ImportTableCount := n 1, md_ImportMemoryCount := n 2, md_ImportGlobalCount := n 3\<rparr>"
  let ?m3 = "?m2\<lparr>md_MemorySection := (case ps_memories p of [] \<Rightarrow> None | m # _ \<Rightarrow> Some (memory_of c m))\<rparr>"
  let ?m4 = "?m3\<lparr>md_GlobalSection := map2 global_of (ps_globals p) tvs\<rparr>"
  let ?m5 = "?m4\<lparr>md_ExportSection := provider_exports p, md_Exports := map_of (map (\<lambda>e. (ex_Name e, e)) (provider_exports p))\<rparr>"
  have size: "ps_funcs p \<noteq> [] \<Longrightarrow> length (type_body p) < 2 ^ 32 \<and> length (import_body p) < 2 ^ 32" "ps_memories p \<noteq> [] \<Longrightarrow> length (memory_body p) < 2 ^ 32"
      "ps_globals p \<noteq> [] \<Longrightarrow> length gb < 2 ^ 32" "length (export_body p) < 2 ^ 32"
    using assms(2) unfolding assms(3) by (auto simp: sec_def)
  have 1: "decode_sections c Module0 ((if ps_funcs p \<noteq> [] then sec 1 (type_body p) @ sec 2 (import_body p) else []) @ rest) = decode_sections c ?m2 rest" for rest
  proof (cases "ps_funcs p = []")
    case True
    then have "ts = []" "imps = []" "n = (\<lambda>_. 0)" using ft ni by (auto simp: func_types_def)
    then show ?thesis using True by (simp add: Module0_def)
  next
    case False
    note sz = size(1)[OF False]
    note t = provider_types[OF ft conjunct1[OF sz] conjunct2[OF sz] assms(1)]
    have i: "reads (decodeImportSection (dc_enabledFeatures c) (newMemorySizer (dc_memoryLimitPages c) (dc_memoryCapacityFromMax c)) (dc_memoryLimitPages c))
        (import_body p) (imps, n)"
      using provider_imports[OF ft t(3) conjunct2[OF sz] assms(1)] ni by simp
    show ?thesis
      using False decode_section_step[OF conjunct1[OF sz] section_reads(1)[OF t(1)]] decode_section_step[OF conjunct2[OF sz] section_reads(2)[OF i]]
      by (simp add: sec_def)
  qed
  have 2: "decode_sections c ?m2 ((if ps_memories p \<noteq> [] then sec 5 (memory_body p) else []) @ rest) = decode_sections c ?m3 rest" for rest
  proof (cases "ps_memories p")
    case (Cons m ms)
    then show ?thesis
      using decode_section_step[OF size(2) section_reads(3)[OF provider_memory[OF assms(1)]]] by (simp add: sec_def)
  qed (simp add: Module0_def)
  have 3: "decode_sections c ?m3 ((if ps_globals p \<noteq> [] then sec 6 gb else []) @ rest) = decode_sections c ?m4 rest" for rest
  proof (cases "ps_globals p = []")
    case False
    have "length (ps_globals p) < 2 ^ 32"
    proof -
      have len: "length (ps_globals p) = length tvs" using assms(4) by (rule list_all2_lengthD)
      have "length (zip (ps_globals p) tvs) \<le> length (concat (map2 (\<lambda>g. global_bytes (ig_Mutable g)) (ps_globals p) tvs))"
        using concat_count[of "zip (ps_globals p) tvs" "\<lambda>(g, tv). global_bytes (ig_Mutable g) tv"] by (auto simp: global_bytes_def split_def)
      then show ?thesis using len size(3)[OF False] assms(5)[OF False] by simp
    qed
    from provider_globals[OF assms(4) this] show ?thesis
      using False decode_section_step[OF size(3)[OF False] section_reads(4)] assms(5)[OF False] by (simp add: sec_def)
  qed (simp add: Module0_def)
  have 4: "decode_sections c ?m4 (sec 7 (export_body p)) = Inr ?m5"
    using decode_section_step[where c=c and m="?m4" and rest="[]", OF size(4) section_reads(5)[OF reads_provider_exports[OF size(4) assms(1)]]]
    by (simp add: sec_def decode_sections.simps)
  have "decode_sections c Module0 bs = Inr ?m5"
    unfolding assms(3) by (simp only: 1 2 3 4)
  then show ?thesis by (simp add: provider_module_def ft ni)
qed

lemma const_value:
  "global_initialize fr ig (const_of (t, v)) = (if t = TypeI32 \<or> t = TypeF32 then ucast (ucast (v_Bits v) :: u32) else v_Bits v)"
  using LoadInt32_Encode[of "ucast (v_Bits v)" "[]"] LoadInt64_Encode[of "v_Bits v" "[]"]
  by (cases t) (simp_all add: global_initialize_def)

lemma provider_module_fields:
  "md_MemorySection (provider_module c p tvs) = map_option (memory_of c) (case ps_memories p of [] \<Rightarrow> None | m # _ \<Rightarrow> Some m)"
  "md_GlobalSection (provider_module c p tvs) = map2 global_of (ps_globals p) tvs"
  "md_ExportSection (provider_module c p tvs) = provider_exports p"
  "md_Exports (provider_module c p tvs) = map_of (map (\<lambda>e. (ex_Name e, e)) (provider_exports p))"
  "md_FunctionSection (provider_module c p tvs) = []" "md_CodeSection (provider_module c p tvs) = []"
  "md_DataSection (provider_module c p tvs) = []" "md_ElementSection (provider_module c p tvs) = []" "md_StartSection (provider_module c p tvs) = None"
  by (simp_all add: provider_module_def split_def Let_def Module0_def split: list.split)

lemma number_imports_fields:
  "number_imports c is = (js, c') \<Longrightarrow> map (\<lambda>i. (imp_Module i, imp_Name i, imp_Desc i)) js = map (\<lambda>i. (imp_Module i, imp_Name i, imp_Desc i)) is"
  by (induction c "is" arbitrary: js c' rule: number_imports.induct) (auto simp: Let_def split: prod.splits)

lemma provider_functions:
  assumes "provider_ok c p" "ps_funcs p \<noteq> [] \<longrightarrow> length (type_body p) < 2 ^ 32 \<and> length (import_body p) < 2 ^ 32" "m = provider_module c p tvs"
  shows "distinct (md_TypeSection m) \<and> length (md_ImportSection m) = length (ps_funcs p) \<and>
    (\<forall>k<length (ps_funcs p). imp_Module (md_ImportSection m ! k) = ps_stubModule p \<and>
       imp_Name (md_ImportSection m ! k) = ip_name (ps_funcs p ! k) \<and>
       (\<exists>i. imp_Desc (md_ImportSection m ! k) = DescFunc i \<and> unat i < length (md_TypeSection m) \<and>
          md_TypeSection m ! unat i = \<lparr>ft_Params = ip_paramTypes (ps_funcs p ! k), ft_Results = ip_resultTyps (ps_funcs p ! k)\<rparr>))"
proof -
  obtain ts "is" where ft: "func_types p = (ts, is)" by fastforce
  let ?xs = "map (plain_import (ps_stubModule p)) (zip (ps_funcs p) is)"
  obtain imps n where ni: "number_imports (\<lambda>_. 0) ?xs = (imps, n)" by fastforce
  have m: "md_TypeSection m = map (type_of_bytes (dc_enabledFeatures c)) ts" "md_ImportSection m = imps"
    by (simp_all add: assms(3) provider_module_def ft ni)
  show ?thesis
  proof (cases "ps_funcs p = []")
    case True
    then have "ts = []" "imps = []" using ft ni by (auto simp: func_types_def)
    then show ?thesis using True by (simp add: m)
  next
    case False
    note sz = assms(2)[rule_format, OF False]
    note t = provider_types[OF ft conjunct1[OF sz] conjunct2[OF sz] assms(1)]
    have fields: "map (\<lambda>i. (imp_Module i, imp_Name i, imp_Desc i)) imps = map (\<lambda>i. (imp_Module i, imp_Name i, imp_Desc i)) ?xs"
      by (rule number_imports_fields[OF ni])
    then have len: "length imps = length (ps_funcs p)" using t(3) map_eq_imp_length_eq[OF fields] by simp
    have "imp_Module (imps ! k) = ps_stubModule p \<and> imp_Name (imps ! k) = ip_name (ps_funcs p ! k) \<and> imp_Desc (imps ! k) = DescFunc (is ! k)"
      if k: "k < length (ps_funcs p)" for k
      using arg_cong[OF fields, of "\<lambda>l. l ! k"] k len t(3) by (simp add: plain_import_def)
    then show ?thesis using t(2) t(4) len by (auto simp: m)
  qed
qed

subsection \<open>Grouping\<close>

lemma str_less_trans: "str_less s t \<Longrightarrow> str_less t u \<Longrightarrow> str_less s u"
proof (induction s t arbitrary: u rule: str_less.induct)
  case (2 b t)
  then show ?case by (cases u) auto
next
  case (3 a s b t)
  then show ?case by (cases u) auto
qed simp

lemma str_less_total: "s \<noteq> t \<Longrightarrow> \<not> str_less s t \<Longrightarrow> str_less t s"
proof (induction s t rule: str_less.induct)
  case (1 s)
  then show ?case by (cases s) auto
next
  case (3 a s b t)
  have "a \<noteq> b \<Longrightarrow> (of_char a :: nat) < of_char b \<or> of_char b < (of_char a :: nat)" by (metis of_char_eq_iff linorder_neqE_nat)
  then show ?case using 3 by (cases "a = b") auto
qed simp

lemma insert_name_spec: "sorted_wrt str_less ns \<Longrightarrow> set (insert_name s ns) = insert s (set ns) \<and> sorted_wrt str_less (insert_name s ns)"
proof (induction ns)
  case (Cons t ns)
  then show ?case using str_less_total[of s t] by (auto intro: str_less_trans)
qed simp

lemma insert_names_spec: "set (foldr insert_name ns []) = set ns \<and> sorted_wrt str_less (foldr insert_name ns [])"
  by (induction ns) (simp_all add: insert_name_spec)

definition grouped :: "ImportedMemory list \<Rightarrow> ImportedGlobal list \<Rightarrow> string \<Rightarrow> providerSpec" where
  "grouped ms gs n = \<lparr>ps_module = n, ps_memories = filter (\<lambda>m. im_Module m = n) ms, ps_globals = filter (\<lambda>g. ig_Module g = n) gs,
     ps_funcs = [], ps_stubModule = []\<rparr>"

abbreviation groups_by :: "ImportedMemory list \<Rightarrow> ImportedGlobal list \<Rightarrow> (string \<rightharpoonup> providerSpec)" where
  "groups_by ms gs \<equiv> (\<lambda>n. if n \<in> im_Module ` set ms \<union> ig_Module ` set gs then Some (grouped ms gs n) else None)"

lemma get_spec_groups: "get_spec (groups_by ms gs) n = grouped ms gs n"
proof (cases "n \<in> im_Module ` set ms \<union> ig_Module ` set gs")
  case False
  then have "filter (\<lambda>m. im_Module m = n) ms = []" "filter (\<lambda>g. ig_Module g = n) gs = []" by (auto simp: filter_empty_conv)
  then show ?thesis using False by (simp add: get_spec_def grouped_def)
qed (simp add: get_spec_def)

lemma add_memory_groups: "add_memory (groups_by ms []) m = groups_by (ms @ [m]) []"
  unfolding add_memory_def get_spec_groups by (rule ext) (simp add: grouped_def)

lemma add_global_groups: "add_global (groups_by ms gs) g = groups_by ms (gs @ [g])"
  unfolding add_global_def get_spec_groups by (rule ext) (simp add: grouped_def)

lemma add_memories: "foldl add_memory Map.empty ms = groups_by ms []"
proof (induction ms rule: rev_induct)
  case (snoc m ms)
  then show ?case using add_memory_groups[of ms m] by simp
qed simp

lemma add_globals: "foldl add_global (groups_by ms []) gs = groups_by ms gs"
proof (induction gs rule: rev_induct)
  case (snoc g gs)
  then show ?case using add_global_groups[of ms gs g] by simp
qed simp

lemma all_groups: "foldl add_global (foldl add_memory Map.empty ms) gs = groups_by ms gs"
  by (simp only: add_memories add_globals)

section \<open>Properties\<close>

text \<open>C6: the module synthesised for a provider is read by the runtime's own decoder as exactly what the host
  state describes. Its imports are the function stubs under their names, each with an index that
  leads to the function's own type in a table of distinct types; its memory has the recorded
  limits; every global has its type, mutability and an initialiser that evaluates to the recorded
  value; the exports are the functions, the memory and the globals by name; and there is no code,
  data, element or start section that could run or write anything.\<close>

theorem provider_module_faithful:
  assumes "encode fo p = Inr bs" "length bs < 2 ^ 32" "provider_ok c p"
  shows "\<exists>m tvs. DecodeModule c bs = Inr m \<and>
    list_all2 (\<lambda>g tv. ImportedGlobal_decode fo g = Inr tv) (ps_globals p) tvs \<and>
    distinct (md_TypeSection m) \<and> length (md_ImportSection m) = length (ps_funcs p) \<and>
    (\<forall>k<length (ps_funcs p). imp_Module (md_ImportSection m ! k) = ps_stubModule p \<and>
       imp_Name (md_ImportSection m ! k) = ip_name (ps_funcs p ! k) \<and>
       (\<exists>i. imp_Desc (md_ImportSection m ! k) = DescFunc i \<and> unat i < length (md_TypeSection m) \<and>
          md_TypeSection m ! unat i = \<lparr>ft_Params = ip_paramTypes (ps_funcs p ! k), ft_Results = ip_resultTyps (ps_funcs p ! k)\<rparr>)) \<and>
    md_MemorySection m = map_option (memory_of c) (case ps_memories p of [] \<Rightarrow> None | m # _ \<Rightarrow> Some m) \<and>
    list_all2 (\<lambda>(g, t, v) x. gl_Type x = \<lparr>gt_ValType = ValueType t, gt_Mutable = ig_Mutable g\<rparr> \<and>
       global_initialize fr ig (gl_Init x) = (if t = TypeI32 \<or> t = TypeF32 then ucast (ucast (v_Bits v) :: u32) else v_Bits v))
      (zip (ps_globals p) tvs) (md_GlobalSection m) \<and>
    md_ExportSection m = provider_exports p \<and> md_Exports m = map_of (map (\<lambda>e. (ex_Name e, e)) (provider_exports p)) \<and>
    md_FunctionSection m = [] \<and> md_CodeSection m = [] \<and> md_DataSection m = [] \<and> md_ElementSection m = [] \<and> md_StartSection m = None"
proof -
  obtain gb where gb: "ps_globals p \<noteq> [] \<Longrightarrow> global_body fo p = Inr gb" and
    bs: "bs = [0x00, 0x61, 0x73, 0x6d, 0x01, 0x00, 0x00, 0x00] @ (if ps_funcs p \<noteq> [] then sec 1 (type_body p) @ sec 2 (import_body p) else []) @
       (if ps_memories p \<noteq> [] then sec 5 (memory_body p) else []) @ (if ps_globals p \<noteq> [] then sec 6 gb else []) @ sec 7 (export_body p)"
    using encode_Inr[OF assms(1)] by blast
  obtain tvs where tvs: "list_all2 (\<lambda>g tv. ImportedGlobal_decode fo g = Inr tv) (ps_globals p) tvs"
      "ps_globals p \<noteq> [] \<Longrightarrow> gb = count_bytes (length (ps_globals p)) @ concat (map2 (\<lambda>g. global_bytes (ig_Mutable g)) (ps_globals p) tvs)"
    using gb by (cases "ps_globals p = []") (auto simp: global_body_def run_global_steps appendULEB128_eq)
  have "decode_sections c Module0 (drop 8 bs) = Inr (provider_module c p tvs)"
    by (rule provider_sections[OF assms(3) _ _ tvs]) (use assms(2) in \<open>simp_all add: bs\<close>)
  then have dec: "DecodeModule c bs = Inr (provider_module c p tvs)"
    by (simp add: DecodeModule_def bs provider_module_fields)
  have "ps_funcs p \<noteq> [] \<longrightarrow> length (type_body p) < 2 ^ 32 \<and> length (import_body p) < 2 ^ 32"
    using assms(2) by (auto simp: bs sec_def)
  note funcs = provider_functions[OF assms(3) this refl]
  have globals: "list_all2 (\<lambda>(g, t, v) x. gl_Type x = \<lparr>gt_ValType = ValueType t, gt_Mutable = ig_Mutable g\<rparr> \<and>
       global_initialize fr ig (gl_Init x) = (if t = TypeI32 \<or> t = TypeF32 then ucast (ucast (v_Bits v) :: u32) else v_Bits v))
      (zip (ps_globals p) tvs) (map2 global_of (ps_globals p) tvs)"
    by (auto simp: list_all2_conv_all_nth global_of_def const_value split: prod.splits)
  show ?thesis
    by (rule exI[of _ "provider_module c p tvs"], rule exI[of _ tvs], intro conjI)
      (rule dec tvs(1) conjunct1[OF funcs] conjunct1[OF conjunct2[OF funcs]] conjunct2[OF conjunct2[OF funcs]] | simp only: provider_module_fields globals)+
qed

text \<open>The host module \<open>env\<close> of the example state, supplying also two functions of the same type.\<close>

definition ex_plan :: "string \<Rightarrow> importPlan" where
  "ex_plan n = \<lparr>ip_index = 0, ip_module = ''env'', ip_name = n, ip_sig = \<lparr>sig_Params = [TypeI32], sig_Results = []\<rparr>,
     ip_paramTypes = [0x7f], ip_resultTyps = []\<rparr>"

definition ex_provider :: providerSpec where
  "ex_provider = \<lparr>ps_module = ''env'', ps_memories = is_Memories (hs_Initial example_state), ps_globals = is_Globals (hs_Initial example_state),
     ps_funcs = [ex_plan ''f'', ex_plan ''h''], ps_stubModule = ''s''\<rparr>"

definition ex_config :: decode_config where
  "ex_config = \<lparr>dc_enabledFeatures = 0, dc_memoryLimitPages = 65536, dc_memoryCapacityFromMax = False, dc_dwarfEnabled = False,
     dc_storeCustomSections = False\<rparr>"

lemma ex_provider_ok: "provider_ok ex_config ex_provider"
  by (simp add: provider_ok_def provider_names_def ex_provider_def ex_plan_def ex_config_def example_state_def str_bytes_def
      valid_value_type_def ValueTypeI32_def MemoryLimitPages_def)

lemma ex_provider_encode: "\<exists>bs. encode zero_floats ex_provider = Inr bs \<and> length bs < 2 ^ 32"
  by (simp add: encode_def ex_provider_def ex_plan_def example_state_def global_body_def global_step_def ImportedGlobal_decode_def
      decode_global_text_def ParseScalarType_def example_digits append_simps appendULEB128_eq appendSLEB128_eq type_body_def import_body_eq memory_body_eq
      func_types_def encodeFuncType_def import_bytes_def limits_bytes_def export_body_def append_exports_eq export_bytes_def name_bytes_def
      str_bytes_def Let_def EncodeUint64.simps EncodeInt64.simps)

theorem provider_module_faithful_witness:
  "\<exists>bs m. encode zero_floats ex_provider = Inr bs \<and> DecodeModule ex_config bs = Inr m \<and> length (md_ImportSection m) = 2 \<and>
     (\<exists>e. md_Exports m ''memory'' = Some e \<and> ex_Type e = 2)"
proof -
  obtain bs where bs: "encode zero_floats ex_provider = Inr bs" "length bs < 2 ^ 32" using ex_provider_encode by blast
  show ?thesis
    using provider_module_faithful[OF bs ex_provider_ok, of "\<lambda>_. 0" "\<lambda>_. undefined"] bs(1)
    by (fastforce simp: ex_provider_def ex_plan_def example_state_def provider_exports_def exports_of_def)
qed

text \<open>C28: grouping the host state by module name loses nothing and mixes nothing: the names come once each, in
  byte order, and the specification of a name holds exactly the memories and the globals imported
  from it, in their order.\<close>

theorem provider_grouping:
  "case providerModules (Some h) of (names, specs) \<Rightarrow>
     sorted_wrt str_less names \<and> set names = im_Module ` set (is_Memories (hs_Initial h)) \<union> ig_Module ` set (is_Globals (hs_Initial h)) \<and>
     specs = (\<lambda>n. if n \<in> set names then Some \<lparr>ps_module = n,
        ps_memories = filter (\<lambda>m. im_Module m = n) (is_Memories (hs_Initial h)),
        ps_globals = filter (\<lambda>g. ig_Module g = n) (is_Globals (hs_Initial h)), ps_funcs = [], ps_stubModule = []\<rparr> else None)"
  using insert_names_spec[of "map im_Module (is_Memories (hs_Initial h)) @ map ig_Module (is_Globals (hs_Initial h))"]
  by (simp add: providerModules_def Let_def all_groups grouped_def cong: if_cong)

end
