(* ===== verification/Replays.thy ===== *)
theory Replays
  imports Manifests Providers
begin

text \<open>
  Replaying a recording (\<open>internal/boundarylog/replay.go\<close>). The guest is given by what it does at
  the boundary: \<open>act\<close> is one entry into it, the import calls it makes until it returns or traps,
  each with the operand stack it passes and the provider modules as it left them. Code outside this package
  that only the runtime executes is an argument (\<open>Runtime\<close>); the provider modules are built and read by the definitions
  of \<open>Providers\<close>, \<open>WasmModules\<close> and \<open>Memories\<close>. An error is a value that names the check it comes from; the partial counts that
  the source returns beside an error are dropped.
\<close>

section \<open>Definitions\<close>

subsection \<open>The runtime as the replayer sees it\<close>

record FunctionDefinition =
  fd_Module :: string
  fd_Name :: string
  fd_Params :: "byte list"
  fd_Results :: "byte list"

record CompiledModule =
  cm_ImportedFunctions :: "FunctionDefinition list"
  cm_ExportedFunctions :: "string \<rightharpoonup> FunctionDefinition"
  cm_ImportedMemories :: "(string \<times> string) list"

text \<open>An instantiated provider module: its memory, its globals with their current values, its exports.\<close>

record ModuleInstance =
  mi_Memory :: "MemoryInstance option"
  mi_Globals :: "(GlobalType \<times> u64) list"
  mi_Exports :: "string \<rightharpoonup> Export"

type_synonym store = "string \<rightharpoonup> ModuleInstance"

datatype 'g act =
    Returned 'g store "u64 list"
  | Trapped store
  | CallImport nat "u64 list" store "u64 list \<Rightarrow> store \<Rightarrow> 'g act"

record 'g Runtime =
  rt_config :: decode_config
  rt_accepts :: "string \<Rightarrow> bool"
  rt_instantiate :: "store \<Rightarrow> 'g act"
  rt_function :: "'g \<Rightarrow> string \<Rightarrow> FunctionDefinition option"
  rt_call :: "'g \<Rightarrow> string \<Rightarrow> u64 list \<Rightarrow> store \<Rightarrow> 'g act"

definition instantiate_provider :: "decode_config \<Rightarrow> byte list \<Rightarrow> ModuleInstance option" where
  "instantiate_provider cfg bin = (case DecodeModule cfg bin of
     Inl _ \<Rightarrow> None
   | Inr m \<Rightarrow> Some \<lparr>mi_Memory = map_option NewMemoryInstance (md_MemorySection m),
       mi_Globals = map (\<lambda>g. (gl_Type g, global_initialize (\<lambda>_. 0) (\<lambda>_. (gl_Type g, 0)) (gl_Init g))) (md_GlobalSection m),
       mi_Exports = md_Exports m\<rparr>)"

definition getExport :: "ModuleInstance \<Rightarrow> string \<Rightarrow> byte \<Rightarrow> Export option" where
  "getExport m name et = (case mi_Exports m name of None \<Rightarrow> None | Some e \<Rightarrow> if ex_Type e \<noteq> et then None else Some e)"

definition ExportedMemory :: "ModuleInstance \<Rightarrow> string \<Rightarrow> MemoryInstance option" where
  "ExportedMemory m name = (case getExport m name 0x02 of None \<Rightarrow> None | Some _ \<Rightarrow> mi_Memory m)"

text \<open>The index of an exported global and whether it can be set.\<close>

definition ExportedGlobal :: "ModuleInstance \<Rightarrow> string \<Rightarrow> (nat \<times> bool) option" where
  "ExportedGlobal m name = (case getExport m name 0x03 of None \<Rightarrow> None
     | Some e \<Rightarrow> Some (unat (ex_Index e), gt_Mutable (fst (mi_Globals m ! unat (ex_Index e)))))"

subsection \<open>State and errors\<close>

record 'g Options =
  op_Compiled :: CompiledModule
  op_Manifest :: "Manifest option"
  op_FromPoint :: int
  op_ToPoint :: int
  op_AtQuiescentPoint :: "(int \<Rightarrow> 'g \<Rightarrow> store \<Rightarrow> string option) option"
  op_Resume :: "('g \<Rightarrow> store \<Rightarrow> string + 'g \<times> store) option"

record Result =
  rs_ExportCalls :: nat
  rs_ImportCalls :: nat
  rs_UncheckedImportCalls :: nat
  rs_FromPoint :: nat
  rs_ToPoint :: nat

datatype divergence =
    ImportPastEnd u32 nat | KindMismatch Crossing u32 | IndexMismatch Crossing u32
  | ArgumentMismatch nat Crossing BValue BValue | ImportResultMissing Crossing nat
  | ExportArity Crossing nat | ExportResultMissing Crossing nat
  | CrossingOrder Crossing "Crossing option" | ReturnArity Crossing nat nat
  | ReturnMismatch nat Crossing BValue BValue | CrossingCount nat Crossing

datatype replay_error =
    Divergence divergence
  | InstrumentedModule string | UnsupportedSignature value_error | ManifestBoundaryError manifest_error
  | ManifestDisagrees string | UnnamedExport Crossing | NoSuchExport string
  | NestedExportCalls nat | UndescribedMemory string string
  | DuplicateImport string string | StubsRefused string | MemoryTooSmall string string
  | ProviderEncode provider_error | ProviderRefused string | GuestRefused
  | NoProvider string | NoSuchMemory string string | NoSuchGlobal string string | ImmutableGlobal string string
  | WriteOutOfRange string string | HostData host_error | BadTuple value_error | CallTrapped string
  | NoSuchPoint int | BadRange int int | NoResume int | ResumeFailed string | HookFailed int string
  | MixedRenderings Crossing | Unclassified replay_error | RecordingNotEmpty nat | RangeGiven
  | EmptyGroup | GroupNumbering nat nat | GroupTwoExports | GroupNoExport | GroupExportNotFirst
  | HostStateMismatch host_error | StreamFailed stream_error

record 'g replayer =
  rp_rec :: Recording
  rp_imports :: "importPlan list"
  rp_planned :: bool
  rp_cursor :: nat
  rp_err :: "replay_error option"
  rp_result :: Result
  rp_providers :: store
  rp_deferValuelessImports :: bool
  rp_deferredValueless :: "replay_error option"
  rp_points :: "(int \<times> 'g \<times> store) list"

text \<open>\<open>rp_points\<close> is the calls of the quiescent-point hook made so far.\<close>

definition newReplayer :: "Recording \<Rightarrow> bool \<Rightarrow> 'g replayer" where
  "newReplayer rec d = \<lparr>rp_rec = rec, rp_imports = [], rp_planned = False, rp_cursor = 0, rp_err = None,
     rp_result = \<lparr>rs_ExportCalls = 0, rs_ImportCalls = 0, rs_UncheckedImportCalls = 0, rs_FromPoint = 0, rs_ToPoint = 0\<rparr>,
     rp_providers = Map.empty, rp_deferValuelessImports = d, rp_deferredValueless = None, rp_points = []\<rparr>"

definition err_as :: "('a \<Rightarrow> 'b) \<Rightarrow> 'a + 'c \<Rightarrow> 'b + 'c" where
  "err_as f r = (case r of Inl e \<Rightarrow> Inl (f e) | Inr x \<Rightarrow> Inr x)"

text \<open>A run that keeps the state reached when a step fails.\<close>

fun run_until :: "('s \<Rightarrow> 'a \<Rightarrow> 'e + 's) \<Rightarrow> 's \<Rightarrow> 'a list \<Rightarrow> 's \<times> 'e option" where
  "run_until f s [] = (s, None)"
| "run_until f s (x # xs) = (case f s x of Inl e \<Rightarrow> (s, Some e) | Inr s' \<Rightarrow> run_until f s' xs)"

subsection \<open>Planning\<close>

definition hookModuleName :: string where "hookModuleName = ''__codetracer''"

definition signatureOf :: "FunctionDefinition \<Rightarrow> value_error + Signature" where
  "signatureOf d =
     bind_res (map_res ScalarTypeOf (fd_Params d)) (\<lambda>ps.
     bind_res (map_res ScalarTypeOf (fd_Results d)) (\<lambda>rs.
     Inr \<lparr>sig_Params = ps, sig_Results = rs\<rparr>))"

definition plan_import :: "Manifest option \<Rightarrow> nat \<times> FunctionDefinition \<Rightarrow> replay_error + importPlan" where
  "plan_import man = (\<lambda>(i, d).
     if fd_Module d = hookModuleName then Inl (InstrumentedModule (fd_Name d))
     else
       bind_res (err_as UnsupportedSignature (map_res ScalarTypeOf (fd_Params d))) (\<lambda>ps.
       bind_res (err_as UnsupportedSignature (map_res ScalarTypeOf (fd_Results d))) (\<lambda>rs.
       let plan = \<lparr>ip_index = word_of_nat i, ip_module = fd_Module d, ip_name = fd_Name d,
             ip_sig = \<lparr>sig_Params = ps, sig_Results = rs\<rparr>, ip_paramTypes = fd_Params d, ip_resultTyps = fd_Results d\<rparr> in
       case Manifest_Boundary man FuncKindImport (word_of_nat i) of
         None \<Rightarrow> Inr plan
       | Some b \<Rightarrow>
           bind_res (err_as ManifestBoundaryError (ManifestBoundary_Signature b)) (\<lambda>msig.
           if \<not> Signature_Equal msig (ip_sig plan) then Inl (ManifestDisagrees (fd_Name d))
           else if mb_Name b \<noteq> [] \<and> mb_Name b \<noteq> fd_Name d then Inl (ManifestDisagrees (fd_Name d))
           else Inr plan))))"

definition planImports :: "'g Options \<Rightarrow> 'g replayer \<Rightarrow> replay_error + 'g replayer" where
  "planImports opts r =
     (if rp_planned r then Inr r
      else let defs = cm_ImportedFunctions (op_Compiled opts) in
        bind_res (map_res (plan_import (op_Manifest opts)) (zip [0..<length defs] defs)) (\<lambda>plans.
        Inr (r\<lparr>rp_planned := True, rp_imports := rp_imports r @ plans\<rparr>)))"

definition checkExportCrossing :: "'g Options \<Rightarrow> Crossing \<Rightarrow> replay_error + unit" where
  "checkExportCrossing opts c =
     (if c_Name c = [] then Inl (UnnamedExport c)
      else case cm_ExportedFunctions (op_Compiled opts) (c_Name c) of
        None \<Rightarrow> Inl (NoSuchExport (c_Name c))
      | Some d \<Rightarrow>
          bind_res (err_as UnsupportedSignature (signatureOf d)) (\<lambda>sig.
          bind_res (case ExportBoundaryByName (op_Manifest opts) (c_Name c) of
              None \<Rightarrow> Inr ()
            | Some b \<Rightarrow> bind_res (err_as ManifestBoundaryError (ManifestBoundary_Signature b)) (\<lambda>msig.
                guard_res (Signature_Equal msig sig) (ManifestDisagrees (c_Name c)))) (\<lambda>_.
          if length (c_Args c) \<noteq> length (sig_Params sig) then Inl (Divergence (ExportArity c (length (sig_Params sig))))
          else if length (sig_Results sig) > 0 \<and> \<not> c_hasResults c
          then Inl (Divergence (ExportResultMissing c (length (sig_Results sig))))
          else Inr ())))"

definition checkExports :: "'g Options \<Rightarrow> Recording \<Rightarrow> replay_error + unit" where
  "checkExports opts rec = bind_res (map_res (checkExportCrossing opts) (TopLevelExports rec)) (\<lambda>_. Inr ())"

definition refuseNestedExports :: "Crossing list \<Rightarrow> replay_error + unit" where
  "refuseNestedExports nested = (if length nested = 0 then Inr () else Inl (NestedExportCalls (length nested)))"

definition undescribedImportedMemory :: "CompiledModule \<Rightarrow> Recording \<Rightarrow> (string \<times> string) option" where
  "undescribedImportedMemory cm rec =
     find (\<lambda>(m, n). \<not> (case r_HostState rec of None \<Rightarrow> False
       | Some h \<Rightarrow> (\<exists>x\<in>set (is_Memories (hs_Initial h)). im_Module x = m \<and> im_Name x = n))) (cm_ImportedMemories cm)"

definition checkImportedMemories :: "'g Options \<Rightarrow> 'g replayer \<Rightarrow> replay_error + unit" where
  "checkImportedMemories opts r = (case undescribedImportedMemory (op_Compiled opts) (rp_rec r) of
     None \<Rightarrow> Inr () | Some (m, n) \<Rightarrow> Inl (UndescribedMemory m n))"

subsection \<open>Host modules\<close>

definition stubModulePrefix :: string where
  "stubModulePrefix = CHR 0x00 # ''ct-replay-stubs'' @ [CHR 0x00]"

definition attach_func :: "string list \<times> (string \<rightharpoonup> providerSpec) \<Rightarrow> importPlan \<Rightarrow>
    replay_error + string list \<times> (string \<rightharpoonup> providerSpec)" where
  "attach_func = (\<lambda>(names, specs) p.
     let spec = get_spec specs (ip_module p);
         names' = (if specs (ip_module p) = None then names @ [ip_module p] else names) in
     if \<exists>f\<in>set (ps_funcs spec). ip_name f = ip_name p then Inl (DuplicateImport (ip_module p) (ip_name p))
     else Inr (names', specs(ip_module p \<mapsto> spec\<lparr>ps_funcs := ps_funcs spec @ [p]\<rparr>)))"

definition grow_region :: "ImportedMemory \<Rightarrow> MemoryRegion \<Rightarrow> replay_error + ImportedMemory" where
  "grow_region m d =
     bind_res (err_as HostData (region_decode d)) (\<lambda>bytes.
     let need = requiredPages (ucast (mr_Offset d) + word_of_nat (length bytes)) in
     Inr (if need > im_MinPages m then m\<lparr>im_MinPages := need\<rparr> else m))"

definition grow_memory :: "ImportedMemory \<Rightarrow> replay_error + ImportedMemory" where
  "grow_memory m =
     bind_res (run_steps grow_region m (im_Data m)) (\<lambda>m'.
     if (case im_MaxPages m' of None \<Rightarrow> False | Some mx \<Rightarrow> mx < im_MinPages m')
     then Inl (MemoryTooSmall (im_Module m') (im_Name m')) else Inr m')"

definition host_module :: "float_ops \<Rightarrow> 'g Runtime \<Rightarrow> (string \<rightharpoonup> providerSpec) \<Rightarrow> store \<Rightarrow> string \<Rightarrow> replay_error + store" where
  "host_module fo rt specs provs name =
     (let spec = get_spec specs name;
          needsProvider = (length (ps_memories spec) > 0 \<or> length (ps_globals spec) > 0);
          stubModule = (if needsProvider \<and> length (ps_funcs spec) > 0 then stubModulePrefix @ name else name);
          spec1 = (if needsProvider \<and> length (ps_funcs spec) > 0 then spec\<lparr>ps_stubModule := stubModule\<rparr> else spec) in
      bind_res (guard_res (length (ps_funcs spec) = 0 \<or> rt_accepts rt stubModule) (StubsRefused name)) (\<lambda>_.
      if \<not> needsProvider then Inr provs
      else
        bind_res (map_res grow_memory (ps_memories spec1)) (\<lambda>ms.
        bind_res (err_as ProviderEncode (encode fo (spec1\<lparr>ps_memories := ms\<rparr>))) (\<lambda>bin.
        case instantiate_provider (rt_config rt) bin of
          None \<Rightarrow> Inl (ProviderRefused name)
        | Some inst \<Rightarrow> if \<not> rt_accepts rt name then Inl (ProviderRefused name) else Inr (provs(name \<mapsto> inst))))))"

definition instantiateHostModules :: "float_ops \<Rightarrow> 'g Runtime \<Rightarrow> 'g replayer \<Rightarrow> replay_error + 'g replayer" where
  "instantiateHostModules fo rt r =
     bind_res (run_steps attach_func (providerModules (r_HostState (rp_rec r))) (rp_imports r)) (\<lambda>(names, specs).
     bind_res (run_steps (host_module fo rt specs) (rp_providers r) (foldr insert_name names [])) (\<lambda>provs.
     Inr (r\<lparr>rp_providers := provs\<rparr>)))"

definition importedMemory :: "store \<Rightarrow> string \<Rightarrow> string \<Rightarrow> replay_error + ModuleInstance \<times> MemoryInstance" where
  "importedMemory provs modname name = (case provs modname of
     None \<Rightarrow> Inl (NoProvider modname)
   | Some inst \<Rightarrow> (case ExportedMemory inst name of
       None \<Rightarrow> Inl (NoSuchMemory modname name) | Some mem \<Rightarrow> Inr (inst, mem)))"

definition write_memory :: "string \<Rightarrow> string \<Rightarrow> u32 \<Rightarrow> byte list \<Rightarrow> store \<Rightarrow> ModuleInstance \<times> MemoryInstance \<Rightarrow> replay_error + store" where
  "write_memory modname name off bytes provs = (\<lambda>(inst, mem). case Memory_Write mem off bytes of
     None \<Rightarrow> Inl (WriteOutOfRange modname name)
   | Some mem' \<Rightarrow> Inr (provs(modname \<mapsto> inst\<lparr>mi_Memory := Some mem'\<rparr>)))"

definition apply_region :: "string \<Rightarrow> string \<Rightarrow> store \<Rightarrow> MemoryRegion \<Rightarrow> replay_error + store" where
  "apply_region modname name provs d =
     bind_res (importedMemory provs modname name) (\<lambda>im.
     bind_res (err_as HostData (region_decode d)) (\<lambda>bytes.
     write_memory modname name (mr_Offset d) bytes provs im))"

definition apply_memory :: "store \<Rightarrow> ImportedMemory \<Rightarrow> replay_error + store" where
  "apply_memory provs m =
     bind_res (importedMemory provs (im_Module m) (im_Name m)) (\<lambda>_.
     run_steps (apply_region (im_Module m) (im_Name m)) provs (im_Data m))"

definition apply_initial :: "HostState option \<Rightarrow> store \<Rightarrow> replay_error + store" where
  "apply_initial state provs = (case state of None \<Rightarrow> Inr provs
     | Some h \<Rightarrow> run_steps apply_memory provs (is_Memories (hs_Initial h)))"

definition applyInitialMemory :: "'g replayer \<Rightarrow> replay_error + 'g replayer" where
  "applyInitialMemory r = bind_res (apply_initial (r_HostState (rp_rec r)) (rp_providers r)) (\<lambda>provs. Inr (r\<lparr>rp_providers := provs\<rparr>))"

subsection \<open>Servicing an import\<close>

definition zeroStack :: "u64 list \<Rightarrow> nat \<Rightarrow> u64 list" where
  "zeroStack stack results = replicate (min results (length stack)) 0 @ drop results stack"

text \<open>The runtime gives a stub a stack with a slot for every parameter and result; a slot that is not there
  would be an index out of range and is taken as a mismatch.\<close>

definition mismatch :: "BValue list \<Rightarrow> BValue list \<Rightarrow> nat option" where
  "mismatch want got = find (\<lambda>i. i \<ge> length got \<or> \<not> BValue_Equal (want ! i) (got ! i)) [0..<length want]"

definition matchImportCrossing :: "float_ops \<Rightarrow> 'g replayer \<Rightarrow> importPlan \<Rightarrow> u64 list \<Rightarrow> replay_error + Crossing" where
  "matchImportCrossing fo r plan stack =
     (let crossings = r_Crossings (rp_rec r) in
      if rp_cursor r \<ge> length crossings then Inl (Divergence (ImportPastEnd (ip_index plan) (length crossings)))
      else let c = crossings ! rp_cursor r in
        if c_Kind c \<noteq> CrossingImport then Inl (Divergence (KindMismatch c (ip_index plan)))
        else if c_Index c \<noteq> ip_index plan then Inl (Divergence (IndexMismatch c (ip_index plan)))
        else
          bind_res (err_as BadTuple (decodeTuple fo (c_Args c) (sig_Params (ip_sig plan)))) (\<lambda>wantArgs.
          let gotArgs = map2 FromWazero (sig_Params (ip_sig plan)) stack in
          case mismatch wantArgs gotArgs of
            Some i \<Rightarrow> Inl (Divergence (ArgumentMismatch i c (wantArgs ! i) (gotArgs ! i)))
          | None \<Rightarrow> Inr c))"

definition serviceUnwitnessedValuelessImport :: "float_ops \<Rightarrow> importPlan \<Rightarrow> 'g replayer \<Rightarrow> 'g replayer" where
  "serviceUnwitnessedValuelessImport fo plan r =
     (let r1 = (if rp_deferValuelessImports r \<and> rp_deferredValueless r = None
                then (case matchImportCrossing fo r plan [] of
                        Inl e \<Rightarrow> r\<lparr>rp_deferredValueless := Some e\<rparr>
                      | Inr c \<Rightarrow> r\<lparr>rp_deferredValueless := Some (MixedRenderings c)\<rparr>)
                else r) in
      r1\<lparr>rp_result := (rp_result r1)\<lparr>rs_UncheckedImportCalls := rs_UncheckedImportCalls (rp_result r1) + 1\<rparr>\<rparr>)"

definition apply_write :: "store \<Rightarrow> MemoryWrite \<Rightarrow> replay_error + store" where
  "apply_write provs w =
     bind_res (importedMemory provs (mw_Module w) (mw_Name w)) (\<lambda>im.
     bind_res (err_as HostData (MemoryWrite_decode w)) (\<lambda>bytes.
     write_memory (mw_Module w) (mw_Name w) (mw_Offset w) bytes provs im))"

definition apply_global :: "float_ops \<Rightarrow> store \<Rightarrow> GlobalSet \<Rightarrow> replay_error + store" where
  "apply_global fo provs s = (case provs (gs_Module s) of
     None \<Rightarrow> Inl (NoProvider (gs_Module s))
   | Some inst \<Rightarrow> (case ExportedGlobal inst (gs_Name s) of
       None \<Rightarrow> Inl (NoSuchGlobal (gs_Module s) (gs_Name s))
     | Some (i, mut) \<Rightarrow>
         if \<not> mut then Inl (ImmutableGlobal (gs_Module s) (gs_Name s))
         else bind_res (err_as HostData (GlobalSet_decode fo s)) (\<lambda>v.
           Inr (provs(gs_Module s \<mapsto> inst\<lparr>mi_Globals := (mi_Globals inst)[i := (fst (mi_Globals inst ! i), v_Bits v)]\<rparr>)))))"

text \<open>The writes of one mutation in order, memories before globals.\<close>

definition mutation_steps :: "float_ops \<Rightarrow> HostMutation \<Rightarrow> (store \<Rightarrow> replay_error + store) list" where
  "mutation_steps fo mu = map (\<lambda>w st. apply_write st w) (hm_MemoryWrites mu) @ map (\<lambda>s st. apply_global fo st s) (hm_GlobalSets mu)"

definition applyMutations :: "float_ops \<Rightarrow> HostState option \<Rightarrow> nat \<Rightarrow> store \<Rightarrow> store \<times> replay_error option" where
  "applyMutations fo h seq provs =
     run_until (\<lambda>st f. f st) provs (concat (map (mutation_steps fo) (MutationsFor h (int seq))))"

definition valueless :: "importPlan \<Rightarrow> bool" where
  "valueless plan \<longleftrightarrow> length (sig_Params (ip_sig plan)) = 0 \<and> length (sig_Results (ip_sig plan)) = 0"

definition serviceImport :: "float_ops \<Rightarrow> importPlan \<Rightarrow> 'g replayer \<Rightarrow> u64 list \<Rightarrow> 'g replayer \<times> u64 list" where
  "serviceImport fo plan r stack =
     (let zeroed = zeroStack stack (length (ip_resultTyps plan)) in
      if rp_err r \<noteq> None then (r, zeroed)
      else if valueless plan \<and> \<not> r_MarkersIdentifyImports (rp_rec r)
      then (serviceUnwitnessedValuelessImport fo plan r, stack)
      else case matchImportCrossing fo r plan stack of
        Inl e \<Rightarrow> (r\<lparr>rp_err := Some e\<rparr>, zeroed)
      | Inr c \<Rightarrow>
          (case applyMutations fo (r_HostState (rp_rec r)) (c_Seq c) (rp_providers r) of (provs, failed) \<Rightarrow>
           let r1 = r\<lparr>rp_providers := provs\<rparr> in
           case failed of
             Some e \<Rightarrow> (r1\<lparr>rp_err := Some e\<rparr>, zeroed)
           | None \<Rightarrow>
               if length (sig_Results (ip_sig plan)) > 0 \<and> \<not> c_hasResults c
               then (r1\<lparr>rp_err := Some (Divergence (ImportResultMissing c (length (sig_Results (ip_sig plan)))))\<rparr>, zeroed)
               else case decodeTuple fo (c_Results c) (sig_Results (ip_sig plan)) of
                 Inl e \<Rightarrow> (r1\<lparr>rp_err := Some (BadTuple e)\<rparr>, zeroed)
               | Inr results \<Rightarrow>
                   (r1\<lparr>rp_cursor := rp_cursor r1 + 1,
                       rp_result := (rp_result r1)\<lparr>rs_ImportCalls := rs_ImportCalls (rp_result r1) + 1\<rparr>\<rparr>,
                    map v_Bits results @ drop (length results) stack)))"

text \<open>One entry into the guest, its imports serviced by the stubs. A call that traps has no value.\<close>

primrec run_act :: "float_ops \<Rightarrow> 'g act \<Rightarrow> 'g replayer \<Rightarrow> 'g replayer \<times> ('g \<times> u64 list) option" where
  "run_act fo (Returned g st vs) = (\<lambda>r. (r\<lparr>rp_providers := st\<rparr>, Some (g, vs)))"
| "run_act fo (Trapped st) = (\<lambda>r. (r\<lparr>rp_providers := st\<rparr>, None))"
| "run_act fo (CallImport i stack st k) = (\<lambda>r.
     let (r1, stack1) = serviceImport fo (rp_imports r ! i) (r\<lparr>rp_providers := st\<rparr>) stack in
     run_act fo (k stack1 (rp_providers r1)) r1)"

subsection \<open>Driving the recorded calls\<close>

definition prepare :: "float_ops \<Rightarrow> 'g Runtime \<Rightarrow> 'g Options \<Rightarrow> 'g replayer \<Rightarrow> replay_error + 'g replayer \<times> 'g" where
  "prepare fo rt opts r =
     bind_res (planImports opts r) (\<lambda>r1.
     bind_res (checkImportedMemories opts r1) (\<lambda>_.
     bind_res (instantiateHostModules fo rt r1) (\<lambda>r2.
     case run_act fo (rt_instantiate rt (rp_providers r2)) r2 of
       (r3, None) \<Rightarrow> Inl GuestRefused
     | (r3, Some (guest, _)) \<Rightarrow> bind_res (applyInitialMemory r3) (\<lambda>r4. Inr (r4, guest)))))"

definition callExport :: "float_ops \<Rightarrow> 'g Runtime \<Rightarrow> 'g replayer \<Rightarrow> 'g \<Rightarrow> Crossing \<Rightarrow> replay_error + 'g replayer \<times> 'g" where
  "callExport fo rt r guest c =
     (let crossings = r_Crossings (rp_rec r) in
      if rp_cursor r \<ge> length crossings \<or> rp_cursor r \<noteq> c_Seq c
      then Inl (Divergence (CrossingOrder c (if rp_cursor r < length crossings then Some (crossings ! rp_cursor r) else None)))
      else case rt_function rt guest (c_Name c) of
        None \<Rightarrow> Inl (NoSuchExport (c_Name c))
      | Some d \<Rightarrow>
          bind_res (err_as UnsupportedSignature (signatureOf d)) (\<lambda>sig.
          bind_res (err_as BadTuple (decodeTuple fo (c_Args c) (sig_Params sig))) (\<lambda>args.
          let r1 = r\<lparr>rp_cursor := rp_cursor r + 1,
                rp_result := (rp_result r)\<lparr>rs_ExportCalls := rs_ExportCalls (rp_result r) + 1\<rparr>\<rparr> in
          case run_act fo (rt_call rt guest (c_Name c) (map v_Bits args) (rp_providers r1)) r1 of (r2, outcome) \<Rightarrow>
          (case rp_err r2 of
             Some e \<Rightarrow> Inl e
           | None \<Rightarrow>
               (case outcome of
                  None \<Rightarrow> Inl (CallTrapped (c_Name c))
                | Some (guest', got) \<Rightarrow>
                    bind_res (err_as BadTuple (decodeTuple fo (c_Results c) (sig_Results sig))) (\<lambda>want.
                    if length got \<noteq> length want then Inl (Divergence (ReturnArity c (length want) (length got)))
                    else let actual = map2 FromWazero (sig_Results sig) got in
                      case mismatch want actual of
                        Some i \<Rightarrow> Inl (Divergence (ReturnMismatch i c (want ! i) (actual ! i)))
                      | None \<Rightarrow> Inr (r2, guest')))))))"

definition resolveRange :: "'g Options \<Rightarrow> nat \<Rightarrow> replay_error + nat \<times> nat" where
  "resolveRange opts nExports =
     (let from = op_FromPoint opts;
          to = (if op_ToPoint opts = 0 then int nExports else op_ToPoint opts) in
      if from < 0 \<or> from > int nExports then Inl (NoSuchPoint from)
      else if to < from \<or> to > int nExports then Inl (BadRange from to)
      else if from > 0 \<and> op_Resume opts = None then Inl (NoResume from)
      else Inr (nat from, nat to))"

definition atQuiescentPoint :: "'g Options \<Rightarrow> nat \<Rightarrow> 'g \<Rightarrow> 'g replayer \<Rightarrow> replay_error + 'g replayer" where
  "atQuiescentPoint opts point guest r = (case op_AtQuiescentPoint opts of
     None \<Rightarrow> Inr r
   | Some hook \<Rightarrow> (case hook (int point) guest (rp_providers r) of
       Some e \<Rightarrow> Inl (HookFailed (int point) e)
     | None \<Rightarrow> Inr (r\<lparr>rp_points := rp_points r @ [(int point, guest, rp_providers r)]\<rparr>)))"

definition drive :: "float_ops \<Rightarrow> 'g Runtime \<Rightarrow> 'g Options \<Rightarrow> Crossing list \<Rightarrow> 'g replayer \<times> 'g \<Rightarrow> nat \<Rightarrow> replay_error + 'g replayer \<times> 'g" where
  "drive fo rt opts exports = (\<lambda>(r, guest) i.
     bind_res (callExport fo rt r guest (exports ! i)) (\<lambda>(r1, guest1).
     bind_res (atQuiescentPoint opts (i + 1) guest1 r1) (\<lambda>r2. Inr (r2, guest1))))"

definition seek :: "'g Options \<Rightarrow> Crossing list \<Rightarrow> nat \<Rightarrow> 'g replayer \<Rightarrow> 'g \<Rightarrow> replay_error + 'g replayer \<times> 'g" where
  "seek opts exports from r guest =
     (if from > 0 then
        let r1 = r\<lparr>rp_cursor := (if from < length exports then c_Seq (exports ! from) else length (r_Crossings (rp_rec r)))\<rparr> in
        case the (op_Resume opts) guest (rp_providers r1) of
          Inl e \<Rightarrow> Inl (ResumeFailed e)
        | Inr (guest', st) \<Rightarrow> Inr (r1\<lparr>rp_providers := st\<rparr>, guest')
      else Inr (r, guest))"

definition check_consumed :: "'g replayer \<Rightarrow> replay_error + unit" where
  "check_consumed r = guard_res (rp_cursor r = length (r_Crossings (rp_rec r)))
     (Divergence (CrossingCount (rp_cursor r) (r_Crossings (rp_rec r) ! rp_cursor r)))"

definition drive_range :: "float_ops \<Rightarrow> 'g Runtime \<Rightarrow> 'g Options \<Rightarrow> 'g replayer \<times> 'g \<Rightarrow> replay_error + 'g replayer \<times> 'g" where
  "drive_range fo rt opts = (\<lambda>(r, guest).
     let exports = TopLevelExports (rp_rec r) in
     bind_res (resolveRange opts (length exports)) (\<lambda>(from, to).
     bind_res (seek opts exports from r guest) (\<lambda>(r1, guest1).
     bind_res (atQuiescentPoint opts from guest1 r1) (\<lambda>r2.
     bind_res (run_steps (drive fo rt opts exports) (r2, guest1) [from..<to]) (\<lambda>(r3, guest3).
     let r4 = r3\<lparr>rp_result := (rp_result r3)\<lparr>rs_FromPoint := from, rs_ToPoint := to\<rparr>\<rparr> in
     if to \<noteq> length exports \<or> from \<noteq> 0 then Inr (r4, guest3)
     else bind_res (check_consumed r4) (\<lambda>_. Inr (r4, guest3)))))))"

definition run :: "float_ops \<Rightarrow> 'g Runtime \<Rightarrow> 'g Options \<Rightarrow> 'g replayer \<Rightarrow> replay_error + 'g replayer \<times> 'g" where
  "run fo rt opts r =
     bind_res (planImports opts r) (\<lambda>r1.
     bind_res (checkExports opts (rp_rec r1)) (\<lambda>_.
     bind_res (refuseNestedExports (NestedExports (rp_rec r1))) (\<lambda>_.
     bind_res (prepare fo rt opts r1) (drive_range fo rt opts))))"

definition Replay :: "float_ops \<Rightarrow> 'g Runtime \<Rightarrow> 'g Options \<Rightarrow> Recording \<Rightarrow> replay_error + 'g replayer \<times> 'g" where
  "Replay fo rt opts rec = run fo rt opts (newReplayer rec False)"

section \<open>What a replay has to reproduce\<close>

text \<open>\<open>plays\<close>: an entry into the guest makes exactly the import calls of a list of crossings, in that
  order, with the recorded arguments, when it is given the recorded host writes and results; \<open>n\<close> counts calls
  that an old recording leaves no crossing for.\<close>

inductive plays :: "float_ops \<Rightarrow> Recording \<Rightarrow> importPlan list \<Rightarrow> 'g act \<Rightarrow> Crossing list \<Rightarrow> nat \<Rightarrow> 'g \<Rightarrow> store \<Rightarrow> u64 list \<Rightarrow> bool"
  for fo rec ps where
  returned: "plays fo rec ps (Returned g st vs) [] 0 g st vs"
| unwitnessed: "valueless (ps ! i) \<Longrightarrow> \<not> r_MarkersIdentifyImports rec \<Longrightarrow> plays fo rec ps (k stack st) cs n g st' vs \<Longrightarrow>
    plays fo rec ps (CallImport i stack st k) cs (Suc n) g st' vs"
| recorded: "\<not> (valueless (ps ! i) \<and> \<not> r_MarkersIdentifyImports rec) \<Longrightarrow>
    c_Kind c = CrossingImport \<Longrightarrow> c_Index c = ip_index (ps ! i) \<Longrightarrow>
    decodeTuple fo (c_Args c) (sig_Params (ip_sig (ps ! i))) = Inr (map2 FromWazero (sig_Params (ip_sig (ps ! i))) stack) \<Longrightarrow>
    applyMutations fo (r_HostState rec) (c_Seq c) st = (st1, None) \<Longrightarrow>
    (sig_Results (ip_sig (ps ! i)) \<noteq> [] \<longrightarrow> c_hasResults c) \<Longrightarrow>
    decodeTuple fo (c_Results c) (sig_Results (ip_sig (ps ! i))) = Inr res \<Longrightarrow>
    plays fo rec ps (k (map v_Bits res @ drop (length res) stack) st1) cs n g st' vs \<Longrightarrow>
    plays fo rec ps (CallImport i stack st k) (c # cs) n g st' vs"

text \<open>\<open>calls\<close>: one exported call with the recorded arguments and results, making the import calls \<open>cs\<close>.\<close>

definition calls :: "float_ops \<Rightarrow> 'g Runtime \<Rightarrow> Recording \<Rightarrow> importPlan list \<Rightarrow> 'g \<Rightarrow> store \<Rightarrow> Crossing \<Rightarrow> Crossing list \<Rightarrow> nat \<Rightarrow> 'g \<Rightarrow> store \<Rightarrow> bool" where
  "calls fo rt rec ps g st c cs n g' st' \<longleftrightarrow> (\<exists>d sig args got.
     rt_function rt g (c_Name c) = Some d \<and> signatureOf d = Inr sig \<and>
     decodeTuple fo (c_Args c) (sig_Params sig) = Inr args \<and>
     plays fo rec ps (rt_call rt g (c_Name c) (map v_Bits args) st) cs n g' st' got \<and>
     length got = length (sig_Results sig) \<and>
     decodeTuple fo (c_Results c) (sig_Results sig) = Inr (map2 FromWazero (sig_Results sig) got))"

text \<open>\<open>performs\<close>: a list of crossings is top-level exported calls, each followed by the import calls it made; \<open>qs\<close> is the
  states of the guest and of the providers after each call.\<close>

inductive performs :: "float_ops \<Rightarrow> 'g Runtime \<Rightarrow> Recording \<Rightarrow> importPlan list \<Rightarrow> 'g \<Rightarrow> store \<Rightarrow> Crossing list \<Rightarrow> ('g \<times> store) list \<Rightarrow> nat \<Rightarrow> bool"
  for fo rt rec ps where
  finished: "performs fo rt rec ps g st [] [] 0"
| call: "c_Kind c = CrossingExport \<Longrightarrow> c_Depth c = 0 \<Longrightarrow> calls fo rt rec ps g st c cs n g1 st1 \<Longrightarrow>
    performs fo rt rec ps g1 st1 rest qs m \<Longrightarrow> performs fo rt rec ps g st (c # cs @ rest) ((g1, st1) # qs) (n + m)"

text \<open>\<open>reproduces\<close>: the host modules the recording describes can be built, and instantiating the guest against them and making the
  recorded calls crosses the boundary exactly as recorded; \<open>qs\<close> is the states at the quiescent points.\<close>

definition reproduces :: "float_ops \<Rightarrow> 'g Runtime \<Rightarrow> 'g Options \<Rightarrow> Recording \<Rightarrow> ('g \<times> store) list \<Rightarrow> nat \<Rightarrow> bool" where
  "reproduces fo rt opts rec qs n \<longleftrightarrow> (\<exists>r1 r2 cs0 n0 g0 st0 vs st1 cs m.
     planImports opts (newReplayer rec False) = Inr r1 \<and> checkExports opts rec = Inr () \<and> NestedExports rec = [] \<and>
     checkImportedMemories opts r1 = Inr () \<and> instantiateHostModules fo rt r1 = Inr r2 \<and>
     plays fo rec (rp_imports r1) (rt_instantiate rt (rp_providers r2)) cs0 n0 g0 st0 vs \<and>
     apply_initial (r_HostState rec) st0 = Inr st1 \<and>
     performs fo rt rec (rp_imports r1) g0 st1 cs (tl qs) m \<and>
     qs \<noteq> [] \<and> hd qs = (g0, st1) \<and> r_Crossings rec = cs0 @ cs \<and> n = n0 + m)"

definition numbered :: "Recording \<Rightarrow> bool" where
  "numbered rec \<longleftrightarrow> map c_Seq (r_Crossings rec) = [0..<length (r_Crossings rec)]"

text \<open>The quiescent-point hook, if there is one, reports no error.\<close>

definition hook_accepts :: "'g Options \<Rightarrow> bool" where
  "hook_accepts opts \<longleftrightarrow> (\<forall>hook. op_AtQuiescentPoint opts = Some hook \<longrightarrow> hook = (\<lambda>p g st. None))"

end
