(* ===== verification/ReplayProofs.thy ===== *)
theory ReplayProofs
  imports Replays
begin

text \<open>
  What a replay does: the driver of \<open>Replays\<close> accepts exactly the executions that \<open>reproduces\<close> describes, and stopping and
  resuming at quiescent points compose.
\<close>

section \<open>Lemmas\<close>


lemma err_as_simps [simp]:
  "err_as f (Inl e) = Inl (f e)" "err_as f (Inr x) = Inr x"
  "err_as f r = Inr y \<longleftrightarrow> r = Inr y"
  by (auto simp: err_as_def split: sum.splits)

lemma decodeTuple_length: "decodeTuple fo raws ts = Inr vs \<Longrightarrow> length vs = length ts"
  by (auto simp: decodeTuple_def split: if_splits dest: map_res_length)

lemma mismatch_None:
  assumes "length got \<le> length want"
  shows "mismatch want got = None \<longleftrightarrow> want = got"
proof
  assume "mismatch want got = None"
  then have "\<forall>i<length want. i < length got \<and> want ! i = got ! i"
    unfolding mismatch_def find_None_iff by (force simp: BValue_Equal_iff)
  then show "want = got" using assms by (metis le_antisym linorder_not_less nth_equalityI order_refl)
qed (auto simp: mismatch_def find_None_iff BValue_Equal_iff)

lemma mismatch_refl [simp]: "mismatch want want = None"
  by (simp add: mismatch_None)

lemma mismatch_args: "decodeTuple fo raws ts = Inr want \<Longrightarrow> mismatch want (map2 FromWazero ts stack) = None \<longleftrightarrow> want = map2 FromWazero ts stack"
  by (rule mismatch_None) (simp add: decodeTuple_length)

text \<open>The replayer after some import crossings have been consumed.\<close>

definition advance :: "'g replayer \<Rightarrow> nat \<Rightarrow> nat \<Rightarrow> store \<Rightarrow> 'g replayer" where
  "advance r k n st = r\<lparr>rp_providers := st, rp_cursor := rp_cursor r + k,
     rp_result := (rp_result r)\<lparr>rs_ImportCalls := rs_ImportCalls (rp_result r) + k,
       rs_UncheckedImportCalls := rs_UncheckedImportCalls (rp_result r) + n\<rparr>\<rparr>"

lemma advance_fields [simp]:
  "rp_rec (advance r k n st) = rp_rec r" "rp_imports (advance r k n st) = rp_imports r" "rp_planned (advance r k n st) = rp_planned r"
  "rp_cursor (advance r k n st) = rp_cursor r + k" "rp_err (advance r k n st) = rp_err r" "rp_providers (advance r k n st) = st"
  "rp_deferValuelessImports (advance r k n st) = rp_deferValuelessImports r"
  "rp_deferredValueless (advance r k n st) = rp_deferredValueless r" "rp_points (advance r k n st) = rp_points r"
  by (simp_all add: advance_def)

lemma advance_advance [simp]: "advance (advance r k n st) k' n' st' = advance r (k + k') (n + n') st'"
  by (simp add: advance_def add.assoc)

lemma advance_0: "advance r 0 0 (rp_providers r) = r"
  by (simp add: advance_def)

lemma matchImportCrossing_Inr: "matchImportCrossing fo r plan stack = Inr c \<longleftrightarrow>
    rp_cursor r < length (r_Crossings (rp_rec r)) \<and> c = r_Crossings (rp_rec r) ! rp_cursor r \<and>
    c_Kind c = CrossingImport \<and> c_Index c = ip_index plan \<and>
    decodeTuple fo (c_Args c) (sig_Params (ip_sig plan)) = Inr (map2 FromWazero (sig_Params (ip_sig plan)) stack)"
  by (auto simp: matchImportCrossing_def Let_def bind_res_eq_Inr mismatch_args split: if_splits option.splits)

lemma serviceImport_unwitnessed:
  "rp_err r = None \<Longrightarrow> valueless plan \<Longrightarrow> \<not> r_MarkersIdentifyImports (rp_rec r) \<Longrightarrow> \<not> rp_deferValuelessImports r \<Longrightarrow>
   serviceImport fo plan r stack = (advance r 0 1 (rp_providers r), stack)"
  by (simp add: serviceImport_def serviceUnwitnessedValuelessImport_def advance_def)

lemma serviceImport_recorded:
  assumes "rp_err r = None" "\<not> (valueless plan \<and> \<not> r_MarkersIdentifyImports (rp_rec r))"
  shows "serviceImport fo plan r stack = (r', stack') \<and> rp_err r' = None \<longleftrightarrow>
    (\<exists>c st res. rp_cursor r < length (r_Crossings (rp_rec r)) \<and> c = r_Crossings (rp_rec r) ! rp_cursor r \<and>
      c_Kind c = CrossingImport \<and> c_Index c = ip_index plan \<and>
      decodeTuple fo (c_Args c) (sig_Params (ip_sig plan)) = Inr (map2 FromWazero (sig_Params (ip_sig plan)) stack) \<and>
      applyMutations fo (r_HostState (rp_rec r)) (c_Seq c) (rp_providers r) = (st, None) \<and>
      (sig_Results (ip_sig plan) \<noteq> [] \<longrightarrow> c_hasResults c) \<and>
      decodeTuple fo (c_Results c) (sig_Results (ip_sig plan)) = Inr res \<and>
      r' = advance r 1 0 st \<and> stack' = map v_Bits res @ drop (length res) stack)"
proof (cases "matchImportCrossing fo r plan stack")
  case (Inl e)
  then show ?thesis using assms matchImportCrossing_Inr[of fo r plan stack] by (auto simp: serviceImport_def Let_def)
next
  case (Inr c)
  obtain st failed where ap: "applyMutations fo (r_HostState (rp_rec r)) (c_Seq c) (rp_providers r) = (st, failed)" by force
  have eq: "serviceImport fo plan r stack =
      (let r1 = r\<lparr>rp_providers := st\<rparr>; zeroed = zeroStack stack (length (ip_resultTyps plan)) in case failed of
         Some e \<Rightarrow> (r1\<lparr>rp_err := Some e\<rparr>, zeroed)
       | None \<Rightarrow> if sig_Results (ip_sig plan) \<noteq> [] \<and> \<not> c_hasResults c
           then (r1\<lparr>rp_err := Some (Divergence (ImportResultMissing c (length (sig_Results (ip_sig plan)))))\<rparr>, zeroed)
           else case decodeTuple fo (c_Results c) (sig_Results (ip_sig plan)) of
             Inl e \<Rightarrow> (r1\<lparr>rp_err := Some (BadTuple e)\<rparr>, zeroed)
           | Inr res \<Rightarrow> (advance r 1 0 st, map v_Bits res @ drop (length res) stack))"
    unfolding serviceImport_def Let_def if_not_P[OF assms(2)] Inr ap using assms(1)
    by (simp add: ap advance_def cong: if_cong option.case_cong sum.case_cong)
  note c = Inr[unfolded matchImportCrossing_Inr]
  show ?thesis
  proof (cases "failed = None \<and> \<not> (sig_Results (ip_sig plan) \<noteq> [] \<and> \<not> c_hasResults c) \<and>
      (\<exists>res. decodeTuple fo (c_Results c) (sig_Results (ip_sig plan)) = Inr res)")
    case True
    then obtain res where res: "failed = None" "\<not> (sig_Results (ip_sig plan) \<noteq> [] \<and> \<not> c_hasResults c)"
      "decodeTuple fo (c_Results c) (sig_Results (ip_sig plan)) = Inr res" by blast
    then have "serviceImport fo plan r stack = (advance r 1 0 st, map v_Bits res @ drop (length res) stack)"
      unfolding eq Let_def if_not_P[OF res(2)] by simp
    then show ?thesis using assms(1) ap c res by auto
  next
    case False
    then show ?thesis using ap c unfolding eq by (auto simp: Let_def split: option.splits sum.splits if_splits)
  qed
qed

lemma serviceImport_err: "rp_err r = Some e \<Longrightarrow> fst (serviceImport fo plan r stack) = r"
  by (simp add: serviceImport_def Let_def)

lemma act_induct [case_names Returned Trapped CallImport]:
  assumes "\<And>g st vs. P (Returned g st vs)" "\<And>st. P (Trapped st)"
    "\<And>i stack st k. (\<And>x y. P (k x y)) \<Longrightarrow> P (CallImport i stack st k)"
  shows "P a"
proof (induction a)
  case (CallImport i stack st k)
  show ?case by (rule assms(3)) (rule CallImport.IH[OF rangeI rangeI])
qed (rule assms)+

lemma run_act_err: "rp_err r = Some e \<Longrightarrow> rp_err (fst (run_act fo a r)) = Some e"
proof (induction a arbitrary: r rule: act_induct)
  case (CallImport i stack st k)
  obtain r1 stack1 where s: "serviceImport fo (rp_imports r ! i) (r\<lparr>rp_providers := st\<rparr>) stack = (r1, stack1)" by force
  with CallImport.prems serviceImport_err[of "r\<lparr>rp_providers := st\<rparr>" e fo "rp_imports r ! i" stack] have "rp_err r1 = Some e" by auto
  with CallImport.IH s show ?case by auto
qed simp_all

inductive_simps plays_returned: "plays fo rec ps (Returned g0 st0 vs0) cs n g st vs"
inductive_simps plays_trapped: "plays fo rec ps (Trapped st0) cs n g st vs"
inductive_simps plays_import: "plays fo rec ps (CallImport i stack st0 k) cs n g st vs"

lemma prefix_drop_Cons: "prefix (c # cs) (drop k xs) \<longleftrightarrow> k < length xs \<and> xs ! k = c \<and> prefix cs (drop (Suc k) xs)"
  by (cases "k < length xs") (auto simp: Cons_nth_drop_Suc[symmetric])

lemma prefix_drop_append: "prefix (xs @ ys) (drop k zs) \<longleftrightarrow> prefix xs (drop k zs) \<and> prefix ys (drop (k + length xs) zs)"
proof -
  have "prefix (xs @ ys) d \<longleftrightarrow> prefix xs d \<and> prefix ys (drop (length xs) d)" for d by (auto simp: prefix_def)
  from this[of "drop k zs"] show ?thesis by (simp add: add.commute)
qed

lemma run_act_complete:
  "plays fo rec ps a cs n g st vs \<Longrightarrow> rp_rec r = rec \<Longrightarrow> rp_imports r = ps \<Longrightarrow> rp_err r = None \<Longrightarrow> \<not> rp_deferValuelessImports r \<Longrightarrow>
   prefix cs (drop (rp_cursor r) (r_Crossings rec)) \<Longrightarrow> run_act fo a r = (advance r (length cs) n st, Some (g, vs))"
proof (induction arbitrary: r rule: plays.induct)
  case (returned g st vs)
  then show ?case by (simp add: advance_def)
next
  case (unwitnessed i k stack st cs n g st' vs)
  let ?r = "r\<lparr>rp_providers := st\<rparr>"
  have "serviceImport fo (ps ! i) ?r stack = (advance ?r 0 1 st, stack)"
    using serviceImport_unwitnessed[of ?r "ps ! i" fo stack] unwitnessed by simp
  then show ?case using unwitnessed.IH[of "advance ?r 0 1 st"] unwitnessed.prems by (simp add: advance_def)
next
  case (recorded i c stack st st1 res k cs n g st' vs)
  let ?r = "r\<lparr>rp_providers := st\<rparr>"
  have p: "rp_cursor r < length (r_Crossings rec)" "r_Crossings rec ! rp_cursor r = c" "prefix cs (drop (Suc (rp_cursor r)) (r_Crossings rec))"
    using recorded.prems(5) by (auto simp: prefix_drop_Cons)
  have "serviceImport fo (ps ! i) ?r stack = (advance ?r 1 0 st1, map v_Bits res @ drop (length res) stack)"
    using serviceImport_recorded[of ?r "ps ! i" fo stack "advance ?r 1 0 st1" "map v_Bits res @ drop (length res) stack"]
      recorded.hyps recorded.prems p(1,2) by auto
  then show ?case using recorded.IH[of "advance ?r 1 0 st1"] recorded.prems p(3) by (simp add: advance_def)
qed

lemma run_act_sound:
  "run_act fo a r = (r', Some (g, vs)) \<Longrightarrow> rp_err r' = None \<Longrightarrow> rp_err r = None \<Longrightarrow> \<not> rp_deferValuelessImports r \<Longrightarrow>
   \<exists>cs n st. plays fo (rp_rec r) (rp_imports r) a cs n g st vs \<and> prefix cs (drop (rp_cursor r) (r_Crossings (rp_rec r))) \<and>
       r' = advance r (length cs) n st"
proof (induction a arbitrary: r rule: act_induct)
  case (Returned g0 st0 vs0)
  then show ?case by (auto simp: plays_returned advance_def)
next
  case (CallImport i stack st0 k)
  let ?p = "rp_imports r ! i" and ?r = "r\<lparr>rp_providers := st0\<rparr>"
  obtain r1 stack1 where s: "serviceImport fo ?p ?r stack = (r1, stack1)" by force
  with CallImport.prems(1) have rest: "run_act fo (k stack1 (rp_providers r1)) r1 = (r', Some (g, vs))" by simp
  have ok: "rp_err r1 = None" using run_act_err[of r1 _ fo "k stack1 (rp_providers r1)"] rest CallImport.prems(2) by (cases "rp_err r1") auto
  show ?case
  proof (cases "valueless ?p \<and> \<not> r_MarkersIdentifyImports (rp_rec r)")
    case True
    then have r1: "r1 = advance ?r 0 1 st0" "stack1 = stack"
      using s serviceImport_unwitnessed[of ?r ?p fo stack] CallImport.prems by auto
    obtain cs n st where "plays fo (rp_rec r) (rp_imports r) (k stack st0) cs n g st vs"
      "prefix cs (drop (rp_cursor r) (r_Crossings (rp_rec r)))" "r' = advance r1 (length cs) n st"
      using CallImport.IH[OF rest CallImport.prems(2) ok] CallImport.prems(4) by (auto simp: r1)
    moreover from this(1) have "plays fo (rp_rec r) (rp_imports r) (CallImport i stack st0 k) cs (Suc n) g st vs"
      using True by (intro plays.unwitnessed) auto
    ultimately show ?thesis unfolding r1 by (force simp: advance_def)
  next
    case False
    then obtain c st res where c: "rp_cursor r < length (r_Crossings (rp_rec r))" "c = r_Crossings (rp_rec r) ! rp_cursor r"
      "c_Kind c = CrossingImport" "c_Index c = ip_index ?p"
      "decodeTuple fo (c_Args c) (sig_Params (ip_sig ?p)) = Inr (map2 FromWazero (sig_Params (ip_sig ?p)) stack)"
      "applyMutations fo (r_HostState (rp_rec r)) (c_Seq c) st0 = (st, None)"
      "sig_Results (ip_sig ?p) \<noteq> [] \<longrightarrow> c_hasResults c"
      "decodeTuple fo (c_Results c) (sig_Results (ip_sig ?p)) = Inr res"
      and r1: "r1 = advance ?r 1 0 st" "stack1 = map v_Bits res @ drop (length res) stack"
      using s ok CallImport.prems(3) serviceImport_recorded[of ?r ?p fo stack r1 stack1] by auto
    obtain cs n st' where "plays fo (rp_rec r) (rp_imports r) (k stack1 st) cs n g st' vs"
      "prefix cs (drop (Suc (rp_cursor r)) (r_Crossings (rp_rec r)))" "r' = advance r1 (length cs) n st'"
      using CallImport.IH[OF rest CallImport.prems(2) ok] CallImport.prems(4) by (auto simp: r1)
    moreover from this(1) have "plays fo (rp_rec r) (rp_imports r) (CallImport i stack st0 k) (c # cs) n g st' vs"
      using False c(3-8) unfolding r1(2) by (intro plays.recorded)
    moreover have "prefix (c # cs) (drop (rp_cursor r) (r_Crossings (rp_rec r)))" using c(1,2) calculation(2) by (simp add: prefix_drop_Cons)
    ultimately show ?thesis unfolding r1(1) by (force simp: advance_def)
  qed
qed simp


text \<open>The replayer once an exported call has been entered.\<close>

definition entered :: "'g replayer \<Rightarrow> 'g replayer" where
  "entered r = r\<lparr>rp_cursor := rp_cursor r + 1, rp_result := (rp_result r)\<lparr>rs_ExportCalls := rs_ExportCalls (rp_result r) + 1\<rparr>\<rparr>"

lemma entered_fields [simp]:
  "rp_rec (entered r) = rp_rec r" "rp_imports (entered r) = rp_imports r" "rp_planned (entered r) = rp_planned r"
  "rp_cursor (entered r) = rp_cursor r + 1" "rp_err (entered r) = rp_err r" "rp_providers (entered r) = rp_providers r"
  "rp_deferValuelessImports (entered r) = rp_deferValuelessImports r"
  "rp_deferredValueless (entered r) = rp_deferredValueless r" "rp_points (entered r) = rp_points r"
  by (simp_all add: entered_def)

lemma callExport_entered:
  "callExport fo rt r guest c =
     (if rp_cursor r \<ge> length (r_Crossings (rp_rec r)) \<or> rp_cursor r \<noteq> c_Seq c
      then Inl (Divergence (CrossingOrder c (if rp_cursor r < length (r_Crossings (rp_rec r)) then Some (r_Crossings (rp_rec r) ! rp_cursor r) else None)))
      else case rt_function rt guest (c_Name c) of
        None \<Rightarrow> Inl (NoSuchExport (c_Name c))
      | Some d \<Rightarrow>
          bind_res (err_as UnsupportedSignature (signatureOf d)) (\<lambda>sig.
          bind_res (err_as BadTuple (decodeTuple fo (c_Args c) (sig_Params sig))) (\<lambda>args.
          case run_act fo (rt_call rt guest (c_Name c) (map v_Bits args) (rp_providers r)) (entered r) of (r2, outcome) \<Rightarrow>
          (case rp_err r2 of
             Some e \<Rightarrow> Inl e
           | None \<Rightarrow>
               (case outcome of
                  None \<Rightarrow> Inl (CallTrapped (c_Name c))
                | Some (guest', got) \<Rightarrow>
                    bind_res (err_as BadTuple (decodeTuple fo (c_Results c) (sig_Results sig))) (\<lambda>want.
                    if length got \<noteq> length want then Inl (Divergence (ReturnArity c (length want) (length got)))
                    else case mismatch want (map2 FromWazero (sig_Results sig) got) of
                        Some i \<Rightarrow> Inl (Divergence (ReturnMismatch i c (want ! i) (map2 FromWazero (sig_Results sig) got ! i)))
                      | None \<Rightarrow> Inr (r2, guest')))))))"
  by (simp only: callExport_def Let_def entered_def[symmetric] entered_fields)

lemma callExport_InrE:
  assumes "callExport fo rt r g c = Inr (r', g')"
  obtains d sig args got want where "rp_cursor r = c_Seq c" "rp_cursor r < length (r_Crossings (rp_rec r))"
    "rt_function rt g (c_Name c) = Some d" "signatureOf d = Inr sig" "decodeTuple fo (c_Args c) (sig_Params sig) = Inr args"
    "run_act fo (rt_call rt g (c_Name c) (map v_Bits args) (rp_providers r)) (entered r) = (r', Some (g', got))" "rp_err r' = None"
    "decodeTuple fo (c_Results c) (sig_Results sig) = Inr want" "length got = length want"
    "mismatch want (map2 FromWazero (sig_Results sig) got) = None"
proof -
  have pos: "\<not> (rp_cursor r \<ge> length (r_Crossings (rp_rec r)) \<or> rp_cursor r \<noteq> c_Seq c)"
    by (rule ccontr) (use assms(1) in \<open>simp add: callExport_entered\<close>)
  note e = assms(1)[unfolded callExport_entered if_not_P[OF pos]]
  obtain d where d: "rt_function rt g (c_Name c) = Some d" using e by (cases "rt_function rt g (c_Name c)") auto
  obtain sig where sig: "signatureOf d = Inr sig" using e d by (cases "signatureOf d") auto
  obtain args where args: "decodeTuple fo (c_Args c) (sig_Params sig) = Inr args" using e d sig by (cases "decodeTuple fo (c_Args c) (sig_Params sig)") auto
  obtain r2 outcome where go: "run_act fo (rt_call rt g (c_Name c) (map v_Bits args) (rp_providers r)) (entered r) = (r2, outcome)" by force
  obtain g2 got where ok: "rp_err r2 = None" "outcome = Some (g2, got)"
    using e d sig args go by (cases "rp_err r2"; cases outcome) auto
  obtain want where want: "decodeTuple fo (c_Results c) (sig_Results sig) = Inr want"
    using e d sig args go ok by (cases "decodeTuple fo (c_Results c) (sig_Results sig)") auto
  show ?thesis using that[of d sig args got want] pos e d sig args go ok want by (auto split: if_splits option.splits)
qed

lemma callExport_no_err: "callExport fo rt r g c = Inr (r', g') \<Longrightarrow> rp_err r = None"
proof (rule ccontr)
  assume c: "callExport fo rt r g c = Inr (r', g')" and "rp_err r \<noteq> None"
  then obtain e where "rp_err (entered r) = Some e" by auto
  note err = run_act_err[OF this]
  from c show False
  proof (rule callExport_InrE)
    fix d sig args got
    assume "run_act fo (rt_call rt g (c_Name c) (map v_Bits args) (rp_providers r)) (entered r) = (r', Some (g', got))" "rp_err r' = None"
    then show False using err[of fo "rt_call rt g (c_Name c) (map v_Bits args) (rp_providers r)"] by simp
  qed
qed

lemma callExport_sound:
  assumes "callExport fo rt r g c = Inr (r', g')" "\<not> rp_deferValuelessImports r"
  shows "rp_cursor r = c_Seq c \<and> rp_cursor r < length (r_Crossings (rp_rec r)) \<and>
    (\<exists>cs n st. calls fo rt (rp_rec r) (rp_imports r) g (rp_providers r) c cs n g' st \<and>
       prefix cs (drop (rp_cursor r + 1) (r_Crossings (rp_rec r))) \<and> r' = advance (entered r) (length cs) n st)"
  using assms(1)
proof (rule callExport_InrE)
  fix d sig args got want
  assume pos: "rp_cursor r = c_Seq c" "rp_cursor r < length (r_Crossings (rp_rec r))"
    and d: "rt_function rt g (c_Name c) = Some d" "signatureOf d = Inr sig" "decodeTuple fo (c_Args c) (sig_Params sig) = Inr args"
    and go: "run_act fo (rt_call rt g (c_Name c) (map v_Bits args) (rp_providers r)) (entered r) = (r', Some (g', got))" "rp_err r' = None"
    and want: "decodeTuple fo (c_Results c) (sig_Results sig) = Inr want" "length got = length want"
      "mismatch want (map2 FromWazero (sig_Results sig) got) = None"
  from run_act_sound[OF go] assms(2) callExport_no_err[OF assms(1)] obtain cs n st where
    "plays fo (rp_rec r) (rp_imports r) (rt_call rt g (c_Name c) (map v_Bits args) (rp_providers r)) cs n g' st got"
    "prefix cs (drop (rp_cursor r + 1) (r_Crossings (rp_rec r)))" "r' = advance (entered r) (length cs) n st" by auto
  with pos d want mismatch_args[OF want(1)] show ?thesis
    by (force simp: calls_def decodeTuple_length[OF want(1)])
qed

lemma callExport_complete:
  assumes "calls fo rt (rp_rec r) (rp_imports r) g (rp_providers r) c cs n g' st" "\<not> rp_deferValuelessImports r" "rp_err r = None"
    "rp_cursor r = c_Seq c" "rp_cursor r < length (r_Crossings (rp_rec r))" "prefix cs (drop (rp_cursor r + 1) (r_Crossings (rp_rec r)))"
  shows "callExport fo rt r g c = Inr (advance (entered r) (length cs) n st, g')"
proof -
  obtain d sig args got where d: "rt_function rt g (c_Name c) = Some d" "signatureOf d = Inr sig" "decodeTuple fo (c_Args c) (sig_Params sig) = Inr args"
    and p: "plays fo (rp_rec r) (rp_imports r) (rt_call rt g (c_Name c) (map v_Bits args) (rp_providers r)) cs n g' st got"
    and res: "length got = length (sig_Results sig)" "decodeTuple fo (c_Results c) (sig_Results sig) = Inr (map2 FromWazero (sig_Results sig) got)"
    using assms(1) by (auto simp: calls_def)
  have "run_act fo (rt_call rt g (c_Name c) (map v_Bits args) (rp_providers r)) (entered r) = (advance (entered r) (length cs) n st, Some (g', got))"
    using run_act_complete[OF p, of "entered r"] assms(2,3,6) by simp
  then show ?thesis using d res mismatch_args[OF res(2)] assms(3-5)
    by (simp add: callExport_entered)
qed


subsection \<open>Sequences of calls\<close>

definition toplevel :: "Crossing \<Rightarrow> bool" where
  "toplevel c \<longleftrightarrow> c_Kind c = CrossingExport \<and> c_Depth c = 0"

lemma TopLevelExports_filter: "TopLevelExports rec = filter toplevel (r_Crossings rec)"
  by (simp add: TopLevelExports_def toplevel_def[abs_def])

lemma numbered_nth: "numbered rec \<Longrightarrow> i < length (r_Crossings rec) \<Longrightarrow> c_Seq (r_Crossings rec ! i) = i"
  by (metis add_0 diff_zero length_map length_upt nth_map nth_upt numbered_def)

lemma numbered_in: "numbered rec \<Longrightarrow> c \<in> set (r_Crossings rec) \<Longrightarrow> c_Seq c < length (r_Crossings rec) \<and> r_Crossings rec ! c_Seq c = c"
  by (metis in_set_conv_nth numbered_nth)

lemma plays_imports: "plays fo rec ps a cs n g st vs \<Longrightarrow> \<forall>c\<in>set cs. c_Kind c = CrossingImport"
  by (induction rule: plays.induct) auto

lemma calls_imports: "calls fo rt rec ps g st c cs n g' st' \<Longrightarrow> filter toplevel cs = []"
  by (fastforce simp: calls_def toplevel_def filter_empty_conv dest: plays_imports)

lemma performs_exports: "performs fo rt rec ps g st cs qs n \<Longrightarrow> length (filter toplevel cs) = length qs \<and> length qs \<le> length cs"
  by (induction rule: performs.induct) (auto simp: calls_imports, simp add: toplevel_def)

definition hook_log :: "'g Options \<Rightarrow> nat \<Rightarrow> ('g \<times> store) list \<Rightarrow> (int \<times> 'g \<times> store) list" where
  "hook_log opts i qs = (if op_AtQuiescentPoint opts = None then [] else zip (map int [i..<i + length qs]) qs)"

lemma hook_log_simps [simp]: "hook_log opts i [] = []"
  "hook_log opts i [q] @ hook_log opts (Suc i) qs = hook_log opts i (q # qs)"
  by (auto simp: hook_log_def upt_conv_Cons simp del: upt_Suc)

lemma atQuiescentPoint_accepts:
  "hook_accepts opts \<Longrightarrow> atQuiescentPoint opts i g r = Inr (r\<lparr>rp_points := rp_points r @ hook_log opts i [(g, rp_providers r)]\<rparr>)"
  by (auto simp: atQuiescentPoint_def hook_accepts_def hook_log_def split: option.split)

text \<open>The replayer after the calls of \<open>cs\<close>, which left the states \<open>qs\<close>; the first is call \<open>i\<close>.\<close>

definition after_calls :: "'g Options \<Rightarrow> nat \<Rightarrow> 'g \<Rightarrow> Crossing list \<Rightarrow> ('g \<times> store) list \<Rightarrow> nat \<Rightarrow> 'g replayer \<Rightarrow> 'g replayer" where
  "after_calls opts i g cs qs n r = r\<lparr>rp_providers := snd (last ((g, rp_providers r) # qs)), rp_cursor := rp_cursor r + length cs,
     rp_result := (rp_result r)\<lparr>rs_ExportCalls := rs_ExportCalls (rp_result r) + length qs,
       rs_ImportCalls := rs_ImportCalls (rp_result r) + (length cs - length qs),
       rs_UncheckedImportCalls := rs_UncheckedImportCalls (rp_result r) + n\<rparr>,
     rp_points := rp_points r @ hook_log opts (Suc i) qs\<rparr>"

lemma after_calls_fields [simp]:
  "rp_rec (after_calls opts i g cs qs n r) = rp_rec r" "rp_imports (after_calls opts i g cs qs n r) = rp_imports r"
  "rp_err (after_calls opts i g cs qs n r) = rp_err r" "rp_cursor (after_calls opts i g cs qs n r) = rp_cursor r + length cs"
  "rp_deferValuelessImports (after_calls opts i g cs qs n r) = rp_deferValuelessImports r"
  "rp_providers (after_calls opts i g cs qs n r) = snd (last ((g, rp_providers r) # qs))"
  "rp_points (after_calls opts i g cs qs n r) = rp_points r @ hook_log opts (Suc i) qs"
  by (simp_all add: after_calls_def)

lemma after_none [simp]: "after_calls opts i g [] [] 0 r = r"
  by (simp add: after_calls_def)

text \<open>One driven call.\<close>

abbreviation driven :: "'g Options \<Rightarrow> nat \<Rightarrow> 'g \<Rightarrow> Crossing list \<Rightarrow> nat \<Rightarrow> store \<Rightarrow> 'g replayer \<Rightarrow> 'g replayer" where
  "driven opts i g cs n st r \<equiv> (let r1 = advance (entered r) (length cs) n st in r1\<lparr>rp_points := rp_points r1 @ hook_log opts (Suc i) [(g, st)]\<rparr>)"

lemma driven_fields [simp]:
  "rp_rec (driven opts i g cs n st r) = rp_rec r" "rp_imports (driven opts i g cs n st r) = rp_imports r"
  "rp_err (driven opts i g cs n st r) = rp_err r" "rp_cursor (driven opts i g cs n st r) = Suc (rp_cursor r + length cs)"
  "rp_deferValuelessImports (driven opts i g cs n st r) = rp_deferValuelessImports r"
  "rp_providers (driven opts i g cs n st r) = st"
  by (simp_all add: Let_def)

lemma after_driven:
  assumes "length qs \<le> length rest"
  shows "after_calls opts (Suc i) g1 rest qs m (driven opts i g1 cs n st r) = after_calls opts i g (c # cs @ rest) ((g1, st) # qs) (n + m) r"
  using assms by (simp add: after_calls_def advance_def entered_def Let_def add.assoc)

lemma drive_call:
  assumes "hook_accepts opts" "\<not> rp_deferValuelessImports r" "rp_err r = None"
  shows "drive fo rt opts E (r, g) i = Inr (r', g') \<longleftrightarrow>
    rp_cursor r = c_Seq (E ! i) \<and> rp_cursor r < length (r_Crossings (rp_rec r)) \<and>
    (\<exists>cs n st. calls fo rt (rp_rec r) (rp_imports r) g (rp_providers r) (E ! i) cs n g' st \<and>
       prefix cs (drop (Suc (rp_cursor r)) (r_Crossings (rp_rec r))) \<and> r' = driven opts i g' cs n st r)"
proof
  assume "drive fo rt opts E (r, g) i = Inr (r', g')"
  then obtain r1 where "callExport fo rt r g (E ! i) = Inr (r1, g')" "atQuiescentPoint opts (Suc i) g' r1 = Inr r'"
    by (auto simp: drive_def bind_res_eq_Inr)
  then show "rp_cursor r = c_Seq (E ! i) \<and> rp_cursor r < length (r_Crossings (rp_rec r)) \<and>
    (\<exists>cs n st. calls fo rt (rp_rec r) (rp_imports r) g (rp_providers r) (E ! i) cs n g' st \<and>
       prefix cs (drop (Suc (rp_cursor r)) (r_Crossings (rp_rec r))) \<and> r' = driven opts i g' cs n st r)"
    using callExport_sound[of fo rt r g "E ! i" r1 g'] assms atQuiescentPoint_accepts[OF assms(1), of "Suc i" g' r1]
    by (auto simp: Let_def) blast
next
  assume "rp_cursor r = c_Seq (E ! i) \<and> rp_cursor r < length (r_Crossings (rp_rec r)) \<and>
    (\<exists>cs n st. calls fo rt (rp_rec r) (rp_imports r) g (rp_providers r) (E ! i) cs n g' st \<and>
       prefix cs (drop (Suc (rp_cursor r)) (r_Crossings (rp_rec r))) \<and> r' = driven opts i g' cs n st r)"
  then show "drive fo rt opts E (r, g) i = Inr (r', g')"
    using callExport_complete[of fo rt r g "E ! i" _ _ g'] assms atQuiescentPoint_accepts[OF assms(1)] by (auto simp: drive_def Let_def)
qed


lemma drive_sound:
  "run_steps (drive fo rt opts E) (r, g) [i..<j] = Inr (r', g') \<Longrightarrow> i \<le> j \<Longrightarrow> j \<le> length E \<Longrightarrow> E = TopLevelExports (rp_rec r) \<Longrightarrow>
   numbered (rp_rec r) \<Longrightarrow> hook_accepts opts \<Longrightarrow> \<not> rp_deferValuelessImports r \<Longrightarrow> rp_err r = None \<Longrightarrow>
   \<exists>cs qs n. performs fo rt (rp_rec r) (rp_imports r) g (rp_providers r) cs qs n \<and> prefix cs (drop (rp_cursor r) (r_Crossings (rp_rec r))) \<and>
     length qs = j - i \<and> g' = fst (last ((g, rp_providers r) # qs)) \<and> r' = after_calls opts i g cs qs n r"
proof (induction "j - i" arbitrary: i r g)
  case 0
  then have "r' = r" "g' = g" by auto
  moreover have "performs fo rt (rp_rec r) (rp_imports r) g (rp_providers r) [] [] 0" by (rule performs.finished)
  ultimately show ?case using 0 by force
next
  case (Suc k)
  then have "i < j" by simp
  then obtain r1 g1 where d: "drive fo rt opts E (r, g) i = Inr (r1, g1)" and rest: "run_steps (drive fo rt opts E) (r1, g1) [Suc i..<j] = Inr (r', g')"
    using Suc.prems(1) by (auto simp: upt_conv_Cons bind_res_eq_Inr)
  let ?c = "E ! i"
  obtain cs n st where c: "rp_cursor r = c_Seq ?c" "calls fo rt (rp_rec r) (rp_imports r) g (rp_providers r) ?c cs n g1 st"
      "prefix cs (drop (Suc (rp_cursor r)) (r_Crossings (rp_rec r)))" and r1: "r1 = driven opts i g1 cs n st r"
    using d drive_call[OF Suc.prems(6-8)] by blast
  have "?c \<in> set E" using \<open>i < j\<close> Suc.prems(3) by simp
  then have top: "toplevel ?c" "?c \<in> set (r_Crossings (rp_rec r))" unfolding Suc.prems(4) TopLevelExports_filter by auto
  then have at: "rp_cursor r < length (r_Crossings (rp_rec r))" "r_Crossings (rp_rec r) ! rp_cursor r = ?c"
    using numbered_in[OF Suc.prems(5)] c(1) by auto
  have k: "k = j - Suc i" using Suc.hyps(2) by simp
  obtain cs' qs m where p: "performs fo rt (rp_rec r) (rp_imports r) g1 st cs' qs m"
      "prefix cs' (drop (Suc (rp_cursor r + length cs)) (r_Crossings (rp_rec r)))" "length qs = j - Suc i"
      "g' = fst (last ((g1, st) # qs))" "r' = after_calls opts (Suc i) g1 cs' qs m r1"
    using Suc.hyps(1)[OF k rest] Suc.prems \<open>i < j\<close> unfolding r1 driven_fields by auto
  have "performs fo rt (rp_rec r) (rp_imports r) g (rp_providers r) (?c # cs @ cs') ((g1, st) # qs) (n + m)"
    using top(1) c(2) p(1) by (intro performs.call) (auto simp: toplevel_def)
  moreover have "prefix (?c # cs @ cs') (drop (rp_cursor r) (r_Crossings (rp_rec r)))"
    using at c(3) p(2) by (simp add: prefix_drop_Cons prefix_drop_append)
  moreover have "r' = after_calls opts i g (?c # cs @ cs') ((g1, st) # qs) (n + m) r"
    unfolding p(5) r1 using performs_exports[OF p(1)] by (intro after_driven) simp
  ultimately show ?case using p(3,4) \<open>i < j\<close> by (intro exI[of _ "?c # cs @ cs'"] exI[of _ "(g1, st) # qs"] exI[of _ "n + m"]) auto
qed


lemma drive_complete:
  "performs fo rt rec ps g st cs qs n \<Longrightarrow> rp_rec r = rec \<Longrightarrow> rp_imports r = ps \<Longrightarrow> rp_providers r = st \<Longrightarrow>
   prefix cs (drop (rp_cursor r) (r_Crossings rec)) \<Longrightarrow> prefix (filter toplevel cs) (drop i E) \<Longrightarrow>
   numbered rec \<Longrightarrow> hook_accepts opts \<Longrightarrow> \<not> rp_deferValuelessImports r \<Longrightarrow> rp_err r = None \<Longrightarrow>
   run_steps (drive fo rt opts E) (r, g) [i..<i + length qs] = Inr (after_calls opts i g cs qs n r, fst (last ((g, st) # qs)))"
proof (induction arbitrary: i r rule: performs.induct)
  case (finished g st)
  then show ?case by simp
next
  case (call c g st cs n g1 st1 rest qs m)
  have top: "toplevel c" using call.hyps(1,2) by (simp add: toplevel_def)
  have at: "rp_cursor r < length (r_Crossings rec)" "r_Crossings rec ! rp_cursor r = c"
      "prefix (cs @ rest) (drop (Suc (rp_cursor r)) (r_Crossings rec))"
    using call.prems(4) by (auto simp: prefix_drop_Cons)
  have ei: "i < length E" "E ! i = c" "prefix (filter toplevel rest) (drop (Suc i) E)"
    using call.prems(5) top calls_imports[OF call.hyps(3)] by (auto simp: prefix_drop_Cons)
  have rest: "prefix cs (drop (Suc (rp_cursor r)) (r_Crossings rec))" "prefix rest (drop (Suc (rp_cursor r + length cs)) (r_Crossings rec))"
    using at(3) by (simp_all add: prefix_drop_append)
  have "drive fo rt opts E (r, g) i = Inr (driven opts i g1 cs n st1 r, g1)"
    using drive_call[OF call.prems(7,8,9)] call.prems(1-3) call.hyps(3) at ei rest(1) numbered_nth[OF call.prems(6) at(1)] by auto
  moreover have "run_steps (drive fo rt opts E) (driven opts i g1 cs n st1 r, g1) [Suc i..<Suc i + length qs] =
      Inr (after_calls opts (Suc i) g1 rest qs m (driven opts i g1 cs n st1 r), fst (last ((g1, st1) # qs)))"
    by (rule call.IH) (use call.prems rest(2) ei(3) in simp_all)
  moreover have "[i..<i + length ((g1, st1) # qs)] = i # [Suc i..<Suc i + length qs]" by (simp add: upt_conv_Cons del: upt_Suc)
  ultimately show ?case using after_driven[OF conjunct2[OF performs_exports[OF call.hyps(4)]], where i=i and cs=cs and r=r]
    by (simp del: upt_Suc)
qed


subsection \<open>Whole replays\<close>

lemma planImports_new:
  assumes "planImports opts (newReplayer rec d) = Inr r1"
  shows "rp_rec r1 = rec" "rp_planned r1" "rp_cursor r1 = 0" "rp_err r1 = None" "rp_deferValuelessImports r1 = d" "rp_points r1 = []"
    "rp_providers r1 = Map.empty" "rp_result r1 = \<lparr>rs_ExportCalls = 0, rs_ImportCalls = 0, rs_UncheckedImportCalls = 0, rs_FromPoint = 0, rs_ToPoint = 0\<rparr>"
  using assms by (auto simp: planImports_def newReplayer_def bind_res_eq_Inr Let_def)

lemma instantiateHostModules_fields: "instantiateHostModules fo rt r = Inr r' \<Longrightarrow> \<exists>st. r' = r\<lparr>rp_providers := st\<rparr>"
  by (auto simp: instantiateHostModules_def bind_res_eq_Inr)

lemma prepare_planned:
  assumes "rp_planned r1"
  shows "prepare fo rt opts r1 = Inr (r, g) \<longleftrightarrow> (\<exists>r2 r3 vs st. checkImportedMemories opts r1 = Inr () \<and> instantiateHostModules fo rt r1 = Inr r2 \<and>
    run_act fo (rt_instantiate rt (rp_providers r2)) r2 = (r3, Some (g, vs)) \<and>
    apply_initial (r_HostState (rp_rec r3)) (rp_providers r3) = Inr st \<and> r = r3\<lparr>rp_providers := st\<rparr>)" (is "?L \<longleftrightarrow> ?R")
proof
  have plan: "planImports opts r1 = Inr r1" using assms by (simp add: planImports_def)
  assume l: ?L
  have m: "checkImportedMemories opts r1 = Inr ()" using l plan by (cases "checkImportedMemories opts r1") (auto simp: prepare_def)
  obtain r2 where h: "instantiateHostModules fo rt r1 = Inr r2" using l plan m by (cases "instantiateHostModules fo rt r1") (auto simp: prepare_def)
  obtain r3 outcome where a: "run_act fo (rt_instantiate rt (rp_providers r2)) r2 = (r3, outcome)" by force
  obtain g' vs where o: "outcome = Some (g', vs)" using l plan m h a by (cases outcome) (auto simp: prepare_def)
  show ?R using l plan m h a o by (auto simp: prepare_def applyInitialMemory_def bind_res_eq_Inr)
next
  have plan: "planImports opts r1 = Inr r1" using assms by (simp add: planImports_def)
  assume ?R
  then show ?L by (elim exE conjE) (simp add: prepare_def plan applyInitialMemory_def)
qed

lemma run_act_fixed: "rp_rec (fst (run_act fo a r)) = rp_rec r \<and> rp_imports (fst (run_act fo a r)) = rp_imports r \<and>
    rp_points (fst (run_act fo a r)) = rp_points r \<and> rp_deferValuelessImports (fst (run_act fo a r)) = rp_deferValuelessImports r \<and>
    rp_planned (fst (run_act fo a r)) = rp_planned r"
proof (induction a arbitrary: r rule: act_induct)
  case (CallImport i stack st k)
  let ?r = "r\<lparr>rp_providers := st\<rparr>" and ?p = "rp_imports r ! i"
  obtain r1 stack1 where s: "serviceImport fo ?p ?r stack = (r1, stack1)" by force
  then have "rp_rec r1 = rp_rec r \<and> rp_imports r1 = rp_imports r \<and> rp_points r1 = rp_points r \<and>
      rp_deferValuelessImports r1 = rp_deferValuelessImports r \<and> rp_planned r1 = rp_planned r"
    by (auto simp: serviceImport_def serviceUnwitnessedValuelessImport_def Let_def split: if_splits sum.splits option.splits prod.splits)
  with CallImport.IH[of stack1 "rp_providers r1" r1] s show ?case by simp
qed simp_all

lemma prepare_fields:
  assumes "prepare fo rt opts r1 = Inr (r, g)" "rp_planned r1"
  shows "rp_rec r = rp_rec r1" "rp_imports r = rp_imports r1" "rp_points r = rp_points r1" "rp_deferValuelessImports r = rp_deferValuelessImports r1"
proof -
  obtain r2 r3 vs st where p: "instantiateHostModules fo rt r1 = Inr r2" "run_act fo (rt_instantiate rt (rp_providers r2)) r2 = (r3, Some (g, vs))"
      "r = r3\<lparr>rp_providers := st\<rparr>"
    using assms by (auto simp: prepare_planned)
  obtain st' where "r2 = r1\<lparr>rp_providers := st'\<rparr>" using instantiateHostModules_fields[OF p(1)] by blast
  then show "rp_rec r = rp_rec r1" "rp_imports r = rp_imports r1" "rp_points r = rp_points r1" "rp_deferValuelessImports r = rp_deferValuelessImports r1"
    using run_act_fixed[of fo "rt_instantiate rt (rp_providers r2)" r2] p(2,3) by auto
qed

lemma check_consumed_Inr: "(if b then Inr x else bind_res (check_consumed q) (\<lambda>_. Inr x)) = Inr y \<longleftrightarrow>
    (\<not> b \<longrightarrow> rp_cursor q = length (r_Crossings (rp_rec q))) \<and> y = x"
  by (auto simp: check_consumed_def guard_res_def)

lemma Replay_Inr: "Replay fo rt opts rec = Inr (r, g) \<longleftrightarrow> (\<exists>r1 r2 g0.
    planImports opts (newReplayer rec False) = Inr r1 \<and> checkExports opts rec = Inr () \<and> NestedExports rec = [] \<and>
    prepare fo rt opts r1 = Inr (r2, g0) \<and> rp_rec r2 = rec \<and> drive_range fo rt opts (r2, g0) = Inr (r, g))"
proof -
  have "rp_rec r1 = rec \<and> (\<forall>r2 g0. prepare fo rt opts r1 = Inr (r2, g0) \<longrightarrow> rp_rec r2 = rec)"
    if "planImports opts (newReplayer rec False) = Inr r1" for r1 :: "'a replayer"
    using planImports_new[OF that] prepare_fields(1)[of fo rt opts r1] by auto
  moreover have nested: "refuseNestedExports xs = Inr u \<longleftrightarrow> xs = []" for xs u by (simp add: refuseNestedExports_def)
  have "Replay fo rt opts rec = Inr (r, g) \<longleftrightarrow> (\<exists>r1. planImports opts (newReplayer rec False) = Inr r1 \<and> checkExports opts (rp_rec r1) = Inr () \<and>
     NestedExports (rp_rec r1) = [] \<and> (\<exists>x. prepare fo rt opts r1 = Inr x \<and> drive_range fo rt opts x = Inr (r, g)))"
    by (simp add: Replay_def run_def bind_res_eq_Inr nested)
  ultimately show ?thesis by auto
qed

lemma drive_range_Inr: "drive_range fo rt opts (r, g) = Inr (r', g') \<longleftrightarrow> (\<exists>lo hi r1 g1 r2 r3.
    resolveRange opts (length (TopLevelExports (rp_rec r))) = Inr (lo, hi) \<and>
    seek opts (TopLevelExports (rp_rec r)) lo r g = Inr (r1, g1) \<and> atQuiescentPoint opts lo g1 r1 = Inr r2 \<and>
    run_steps (drive fo rt opts (TopLevelExports (rp_rec r))) (r2, g1) [lo..<hi] = Inr (r3, g') \<and>
    (hi = length (TopLevelExports (rp_rec r)) \<and> lo = 0 \<longrightarrow> rp_cursor r3 = length (r_Crossings (rp_rec r3))) \<and>
    r' = r3\<lparr>rp_result := (rp_result r3)\<lparr>rs_FromPoint := lo, rs_ToPoint := hi\<rparr>\<rparr>)" (is "?L \<longleftrightarrow> ?R")
proof
  let ?E = "TopLevelExports (rp_rec r)"
  assume l: ?L
  obtain lo hi where ft: "resolveRange opts (length ?E) = Inr (lo, hi)"
    using l by (cases "resolveRange opts (length ?E)") (auto simp: drive_range_def)
  obtain r1 g1 where s: "seek opts ?E lo r g = Inr (r1, g1)"
    using l ft by (cases "seek opts ?E lo r g") (auto simp: drive_range_def)
  obtain r2 where q: "atQuiescentPoint opts lo g1 r1 = Inr r2"
    using l ft s by (cases "atQuiescentPoint opts lo g1 r1") (auto simp: drive_range_def)
  obtain r3 g3 where d: "run_steps (drive fo rt opts ?E) (r2, g1) [lo..<hi] = Inr (r3, g3)"
    using l ft s q by (cases "run_steps (drive fo rt opts ?E) (r2, g1) [lo..<hi]") (auto simp: drive_range_def)
  have "r' = r3\<lparr>rp_result := (rp_result r3)\<lparr>rs_FromPoint := lo, rs_ToPoint := hi\<rparr>\<rparr> \<and> g3 = g' \<and>
      (hi = length ?E \<and> lo = 0 \<longrightarrow> rp_cursor r3 = length (r_Crossings (rp_rec r3)))"
    using l unfolding drive_range_def Let_def prod.case ft s q d bind_res_simps check_consumed_Inr by simp
  then show ?R using ft s q d by blast
next
  assume ?R
  then show ?L unfolding drive_range_def Let_def prod.case by (elim exE conjE) (simp only: bind_res_simps prod.case check_consumed_Inr, simp)
qed


definition whole :: "'g Options \<Rightarrow> bool" where
  "whole opts \<longleftrightarrow> op_FromPoint opts = 0 \<and> op_ToPoint opts = 0"

lemma whole_range: "whole opts \<Longrightarrow> resolveRange opts n = Inr (0, n)" "seek opts E 0 r g = Inr (r, g)"
  by (simp_all add: whole_def resolveRange_def seek_def)

definition at_point :: "'g Options \<Rightarrow> nat \<Rightarrow> 'g \<Rightarrow> 'g replayer \<Rightarrow> 'g replayer" where
  "at_point opts i g r = r\<lparr>rp_points := rp_points r @ hook_log opts i [(g, rp_providers r)]\<rparr>"

lemma at_point_fields [simp]:
  "rp_rec (at_point opts i g r) = rp_rec r" "rp_imports (at_point opts i g r) = rp_imports r" "rp_err (at_point opts i g r) = rp_err r"
  "rp_cursor (at_point opts i g r) = rp_cursor r" "rp_deferValuelessImports (at_point opts i g r) = rp_deferValuelessImports r"
  "rp_providers (at_point opts i g r) = rp_providers r" "rp_result (at_point opts i g r) = rp_result r"
  "rp_points (at_point opts i g r) = rp_points r @ hook_log opts i [(g, rp_providers r)]"
  by (simp_all add: at_point_def)

lemma drive_range_whole:
  assumes "whole opts" "hook_accepts opts"
  shows "drive_range fo rt opts (r, g) = Inr (r', g') \<longleftrightarrow> (\<exists>r3. run_steps (drive fo rt opts (TopLevelExports (rp_rec r))) (at_point opts 0 g r, g)
      [0..<length (TopLevelExports (rp_rec r))] = Inr (r3, g') \<and> rp_cursor r3 = length (r_Crossings (rp_rec r3)) \<and>
    r' = r3\<lparr>rp_result := (rp_result r3)\<lparr>rs_FromPoint := 0, rs_ToPoint := length (TopLevelExports (rp_rec r))\<rparr>\<rparr>)"
  unfolding drive_range_Inr whole_range(1)[OF assms(1)]
  by (simp add: whole_range(2) atQuiescentPoint_accepts[OF assms(2)] at_point_def)

lemma prepare_reproduces:
  assumes "planImports opts (newReplayer rec False) = Inr r1"
  shows "prepare fo rt opts r1 = Inr (r2, g) \<and> rp_err r2 = None \<longleftrightarrow> (\<exists>r3 cs0 n0 st0 vs st1.
     checkImportedMemories opts r1 = Inr () \<and> instantiateHostModules fo rt r1 = Inr r3 \<and>
     plays fo rec (rp_imports r1) (rt_instantiate rt (rp_providers r3)) cs0 n0 g st0 vs \<and> prefix cs0 (r_Crossings rec) \<and>
     apply_initial (r_HostState rec) st0 = Inr st1 \<and> r2 = advance r3 (length cs0) n0 st1)" (is "?L \<longleftrightarrow> ?R")
proof
  note n = planImports_new[OF assms]
  assume l: ?L
  then obtain r3 r4 vs st where p: "checkImportedMemories opts r1 = Inr ()" "instantiateHostModules fo rt r1 = Inr r3"
    "run_act fo (rt_instantiate rt (rp_providers r3)) r3 = (r4, Some (g, vs))" "rp_err r4 = None"
    "apply_initial (r_HostState (rp_rec r4)) (rp_providers r4) = Inr st" "r2 = r4\<lparr>rp_providers := st\<rparr>"
    using prepare_planned[OF n(2)] by auto
  obtain sto where r3: "r3 = r1\<lparr>rp_providers := sto\<rparr>" using instantiateHostModules_fields[OF p(2)] by blast
  then obtain cs n0 st0 where "plays fo rec (rp_imports r1) (rt_instantiate rt (rp_providers r3)) cs n0 g st0 vs"
     "prefix cs (r_Crossings rec)" "r4 = advance r3 (length cs) n0 st0"
    using run_act_sound[OF p(3,4)] n by auto
  moreover from this p(6) have "r2 = advance r3 (length cs) n0 st" by (simp add: advance_def)
  ultimately show ?R using p n(1) by (auto simp: r3)
next
  note n = planImports_new[OF assms]
  assume ?R
  then obtain r3 cs0 n0 st0 vs st1 where p: "checkImportedMemories opts r1 = Inr ()" "instantiateHostModules fo rt r1 = Inr r3"
    "plays fo rec (rp_imports r1) (rt_instantiate rt (rp_providers r3)) cs0 n0 g st0 vs" "prefix cs0 (r_Crossings rec)"
    "apply_initial (r_HostState rec) st0 = Inr st1" "r2 = advance r3 (length cs0) n0 st1" by blast
  obtain sto where r3: "r3 = r1\<lparr>rp_providers := sto\<rparr>" using instantiateHostModules_fields[OF p(2)] by blast
  have "run_act fo (rt_instantiate rt (rp_providers r3)) r3 = (advance r3 (length cs0) n0 st0, Some (g, vs))"
    using run_act_complete[OF p(3), of r3] p(4) n by (simp add: r3)
  then show ?L using p(1,2,5,6) n prepare_planned[OF n(2), of fo rt opts r2 g]
    by (auto simp: advance_def r3)
qed

text \<open>What a replay of a whole recording reports, \<open>n\<close> of the calls unchecked.\<close>

definition counts :: "Recording \<Rightarrow> nat \<Rightarrow> Result" where
  "counts rec n = \<lparr>rs_ExportCalls = length (TopLevelExports rec), rs_ImportCalls = length (r_Crossings rec) - length (TopLevelExports rec),
     rs_UncheckedImportCalls = n, rs_FromPoint = 0, rs_ToPoint = length (TopLevelExports rec)\<rparr>"

lemma replay_complete:
  assumes "numbered rec" "hook_accepts opts" "whole opts" "reproduces fo rt opts rec qs n"
  shows "\<exists>r. Replay fo rt opts rec = Inr (r, fst (last qs)) \<and> rp_providers r = snd (last qs) \<and> rp_points r = hook_log opts 0 qs \<and> rp_result r = counts rec n"
proof -
  obtain r1 r2 cs0 n0 g0 st0 vs st1 cs m where p: "planImports opts (newReplayer rec False) = Inr r1" "checkExports opts rec = Inr ()" "NestedExports rec = []"
     "checkImportedMemories opts r1 = Inr ()" "instantiateHostModules fo rt r1 = Inr r2"
     "plays fo rec (rp_imports r1) (rt_instantiate rt (rp_providers r2)) cs0 n0 g0 st0 vs"
     "apply_initial (r_HostState rec) st0 = Inr st1" "performs fo rt rec (rp_imports r1) g0 st1 cs (tl qs) m"
     and qs: "(g0, st1) # tl qs = qs" and cr: "r_Crossings rec = cs0 @ cs" and n: "n = n0 + m"
    using assms(4) unfolding reproduces_def by (metis list.collapse)
  define r3 where "r3 = advance r2 (length cs0) n0 st1"
  have pr: "prepare fo rt opts r1 = Inr (r3, g0)" "rp_err r3 = None"
  proof -
    have "prefix cs0 (r_Crossings rec)" by (simp add: cr)
    then have "prepare fo rt opts r1 = Inr (r3, g0) \<and> rp_err r3 = None"
      unfolding prepare_reproduces[OF p(1)] using p(4-7) r3_def by blast
    then show "prepare fo rt opts r1 = Inr (r3, g0)" "rp_err r3 = None" by auto
  qed
  obtain sto where "r2 = r1\<lparr>rp_providers := sto\<rparr>" using instantiateHostModules_fields[OF p(5)] by blast
  then have f: "rp_rec r3 = rec" "rp_imports r3 = rp_imports r1" "rp_providers r3 = st1" "rp_cursor r3 = length cs0" "\<not> rp_deferValuelessImports r3"
      "rp_points r3 = []" "rp_result r3 = \<lparr>rs_ExportCalls = 0, rs_ImportCalls = length cs0, rs_UncheckedImportCalls = n0, rs_FromPoint = 0, rs_ToPoint = 0\<rparr>"
    using planImports_new[OF p(1)] by (simp_all add: r3_def advance_def)
  let ?E = "TopLevelExports rec" and ?r = "at_point opts 0 g0 r3"
  let ?fin = "after_calls opts 0 g0 cs (tl qs) m ?r"
  have e: "?E = filter toplevel cs" using plays_imports[OF p(6)] by (auto simp: TopLevelExports_filter cr toplevel_def)
  have l: "length ?E = length (tl qs)" "length (tl qs) \<le> length cs" using performs_exports[OF p(8)] e by simp_all
  have "run_steps (drive fo rt opts ?E) (?r, g0) [0..<0 + length (tl qs)] = Inr (?fin, fst (last ((g0, st1) # tl qs)))"
    by (rule drive_complete[OF p(8)]) (use f e cr pr(2) assms(1,2) in simp_all)
  then have "run_steps (drive fo rt opts (TopLevelExports (rp_rec r3))) (?r, g0) [0..<length (TopLevelExports (rp_rec r3))] = Inr (?fin, fst (last qs))"
    unfolding f(1) l(1) qs by simp
  moreover have "rp_cursor ?fin = length (r_Crossings (rp_rec ?fin))" by (simp add: f cr)
  ultimately have "drive_range fo rt opts (r3, g0) = Inr (?fin\<lparr>rp_result := (rp_result ?fin)\<lparr>rs_FromPoint := 0, rs_ToPoint := length ?E\<rparr>\<rparr>, fst (last qs))"
    unfolding drive_range_whole[OF assms(3,2)] f(1) by blast
  then have "Replay fo rt opts rec = Inr (?fin\<lparr>rp_result := (rp_result ?fin)\<lparr>rs_FromPoint := 0, rs_ToPoint := length ?E\<rparr>\<rparr>, fst (last qs))"
    using p(1-3) pr(1) f(1) unfolding Replay_Inr by blast
  moreover have "rp_providers ?fin = snd (last qs)" "rp_points ?fin = hook_log opts 0 qs"
    unfolding after_calls_fields at_point_fields f append_Nil hook_log_simps qs by simp_all
  moreover have "(rp_result ?fin)\<lparr>rs_FromPoint := 0, rs_ToPoint := length ?E\<rparr> = counts rec n"
    using l by (simp add: after_calls_def f counts_def cr n)
  ultimately show ?thesis by (intro exI[of _ "?fin\<lparr>rp_result := (rp_result ?fin)\<lparr>rs_FromPoint := 0, rs_ToPoint := length ?E\<rparr>\<rparr>"]) simp
qed

lemma drive_no_err: "run_steps (drive fo rt opts E) (r, g) [i..<j] = Inr x \<Longrightarrow> i < j \<Longrightarrow> rp_err r = None"
  by (auto simp: upt_conv_Cons drive_def bind_res_eq_Inr dest: callExport_no_err)

lemma replay_sound:
  assumes "numbered rec" "hook_accepts opts" "TopLevelExports rec \<noteq> []" "whole opts" "Replay fo rt opts rec = Inr (r, g)"
  shows "\<exists>qs n. reproduces fo rt opts rec qs n \<and> last qs = (g, rp_providers r) \<and> length qs = Suc (length (TopLevelExports rec)) \<and>
    rp_points r = hook_log opts 0 qs \<and> rp_result r = counts rec n"
proof -
  let ?E = "TopLevelExports rec"
  obtain r1 r2 g0 where p: "planImports opts (newReplayer rec False) = Inr r1" "checkExports opts rec = Inr ()" "NestedExports rec = []"
    "prepare fo rt opts r1 = Inr (r2, g0)" "rp_rec r2 = rec" "drive_range fo rt opts (r2, g0) = Inr (r, g)"
    using assms(5) unfolding Replay_Inr by blast
  define r3 where "r3 = at_point opts 0 g0 r2"
  obtain r4 where d: "run_steps (drive fo rt opts ?E) (r3, g0) [0..<length ?E] = Inr (r4, g)" "rp_cursor r4 = length (r_Crossings (rp_rec r4))"
    "r = r4\<lparr>rp_result := (rp_result r4)\<lparr>rs_FromPoint := 0, rs_ToPoint := length ?E\<rparr>\<rparr>"
    using p(6) unfolding drive_range_whole[OF assms(4,2)] p(5) r3_def by blast
  note n = planImports_new[OF p(1)] and f = prepare_fields[OF p(4)]
  have "rp_err r2 = None" using drive_no_err[OF d(1)] assms(3) by (simp add: r3_def)
  with p(4) have "prepare fo rt opts r1 = Inr (r2, g0) \<and> rp_err r2 = None" by simp
  then obtain r5 cs0 n0 st0 vs st1 where h: "checkImportedMemories opts r1 = Inr ()" "instantiateHostModules fo rt r1 = Inr r5"
     "plays fo rec (rp_imports r1) (rt_instantiate rt (rp_providers r5)) cs0 n0 g0 st0 vs" "prefix cs0 (r_Crossings rec)"
     "apply_initial (r_HostState rec) st0 = Inr st1" "r2 = advance r5 (length cs0) n0 st1"
    unfolding prepare_reproduces[OF p(1)] by blast
  obtain sto where r5: "r5 = r1\<lparr>rp_providers := sto\<rparr>" using instantiateHostModules_fields[OF h(2)] by blast
  have r3f: "rp_rec r3 = rec" "rp_imports r3 = rp_imports r1" "rp_providers r3 = st1" "rp_cursor r3 = length cs0" "\<not> rp_deferValuelessImports r3"
      "rp_err r3 = None" "rp_points r3 = hook_log opts 0 [(g0, st1)]"
      "rp_result r3 = \<lparr>rs_ExportCalls = 0, rs_ImportCalls = length cs0, rs_UncheckedImportCalls = n0, rs_FromPoint = 0, rs_ToPoint = 0\<rparr>"
    using n by (simp_all add: r3_def h(6) r5 advance_def)
  have "?E = TopLevelExports (rp_rec r3)" "numbered (rp_rec r3)" using r3f(1) assms(1) by simp_all
  from drive_sound[OF d(1) le0 order_refl this assms(2) r3f(5,6), unfolded r3f]
  obtain cs qs m where c: "performs fo rt rec (rp_imports r1) g0 st1 cs qs m" "prefix cs (drop (length cs0) (r_Crossings rec))"
     "length qs = length ?E" "g = fst (last ((g0, st1) # qs))" "r4 = after_calls opts 0 g0 cs qs m r3"
    unfolding diff_zero by blast
  obtain rest where "r_Crossings rec = cs0 @ cs @ rest" using h(4) c(2) by (auto simp: prefix_def)
  moreover from this d(2) have "rest = []" by (simp add: c(5) r3f)
  ultimately have all: "r_Crossings rec = cs0 @ cs" by simp
  have q: "length qs \<le> length cs" using performs_exports[OF c(1)] by simp
  have "reproduces fo rt opts rec ((g0, st1) # qs) (n0 + m)"
    unfolding reproduces_def list.sel using p(1-3) h(1-3,5) c(1) all list.distinct(2) by blast
  moreover have "rp_result r = counts rec (n0 + m)"
    using q c(3) unfolding d(3) c(5) after_calls_def counts_def by (simp add: r3f all)
  moreover have "last ((g0, st1) # qs) = (g, rp_providers r)" "rp_points r = hook_log opts 0 ((g0, st1) # qs)"
    unfolding d(3) c(5) using c(4) by (simp_all add: r3f)
  ultimately show ?thesis using c(3) by (intro exI[of _ "(g0, st1) # qs"] exI[of _ "n0 + m"]) simp
qed


subsection \<open>Seeking\<close>

lemma performs_split:
  "performs fo rt rec ps g st cs qs n \<Longrightarrow> j \<le> length qs \<Longrightarrow> \<exists>cs1 cs2 n1 n2. cs = cs1 @ cs2 \<and> performs fo rt rec ps g st cs1 (take j qs) n1 \<and>
     performs fo rt rec ps (fst (((g, st) # qs) ! j)) (snd (((g, st) # qs) ! j)) cs2 (drop j qs) n2"
proof (induction arbitrary: j rule: performs.induct)
  case (finished g st)
  then show ?case using performs.finished[of fo rt rec ps g st] by auto
next
  case (call c g st cs n g1 st1 rest qs m)
  show ?case
  proof (cases j)
    case 0
    have "performs fo rt rec ps g st (c # cs @ rest) ((g1, st1) # qs) (n + m)" using call.hyps by (rule performs.call)
    then show ?thesis using performs.finished[of fo rt rec ps g st] 0 by fastforce
  next
    case (Suc i)
    obtain cs1 cs2 n1 n2 where i: "rest = cs1 @ cs2" "performs fo rt rec ps g1 st1 cs1 (take i qs) n1"
      "performs fo rt rec ps (fst (((g1, st1) # qs) ! i)) (snd (((g1, st1) # qs) ! i)) cs2 (drop i qs) n2"
      using call.IH[of i] call.prems Suc by auto
    have "performs fo rt rec ps g st (c # cs @ cs1) ((g1, st1) # take i qs) (n + n1)"
      using call.hyps(1-3) i(2) by (rule performs.call)
    then show ?thesis using i Suc by (intro exI[of _ "c # cs @ cs1"] exI[of _ cs2]) auto
  qed
qed

lemma performs_first: "performs fo rt rec ps g st cs qs n \<Longrightarrow> if qs = [] then cs = [] else \<exists>c rest. cs = c # rest \<and> toplevel c"
  by (induction rule: performs.induct) (auto simp: toplevel_def)

lemma options_irrelevant:
  assumes "op_Compiled o1 = op_Compiled o2" "op_Manifest o1 = op_Manifest o2"
  shows "planImports o1 = planImports o2" "checkExports o1 = checkExports o2" "prepare fo rt o1 = prepare fo rt o2"
proof -
  show p: "planImports o1 = planImports o2" by (rule ext) (simp only: planImports_def assms)
  have "checkExportCrossing o1 = checkExportCrossing o2" by (rule ext) (simp only: checkExportCrossing_def assms)
  then show "checkExports o1 = checkExports o2" by (intro ext) (simp only: checkExports_def)
  show "prepare fo rt o1 = prepare fo rt o2" by (rule ext) (simp only: prepare_def checkImportedMemories_def p assms)
qed

lemma Replay_from:
  assumes "planImports opts (newReplayer rec False) = Inr r1" "checkExports opts rec = Inr ()" "NestedExports rec = []"
    "prepare fo rt opts r1 = Inr (r2, g0)" "rp_rec r2 = rec" "numbered rec" "hook_accepts opts" "\<not> rp_deferValuelessImports r3" "rp_err r3 = None" "rp_rec r3 = rec"
    "resolveRange opts (length (TopLevelExports rec)) = Inr (lo, lo + length qs)" "seek opts (TopLevelExports rec) lo r2 g0 = Inr (r3, g)"
    "performs fo rt rec (rp_imports r3) g (rp_providers r3) cs qs n" "prefix cs (drop (rp_cursor r3) (r_Crossings rec))"
    "prefix (filter toplevel cs) (drop lo (TopLevelExports rec))"
    "lo = 0 \<and> length qs = length (TopLevelExports rec) \<longrightarrow> rp_cursor r3 + length cs = length (r_Crossings rec)"
  shows "\<exists>r. Replay fo rt opts rec = Inr (r, fst (last ((g, rp_providers r3) # qs))) \<and> rp_providers r = snd (last ((g, rp_providers r3) # qs)) \<and>
    rp_points r = rp_points r3 @ hook_log opts lo ((g, rp_providers r3) # qs) \<and> rp_cursor r = rp_cursor r3 + length cs"
proof -
  let ?E = "TopLevelExports rec" and ?r = "after_calls opts lo g cs qs n (at_point opts lo g r3)"
  have "run_steps (drive fo rt opts ?E) (at_point opts lo g r3, g) [lo..<lo + length qs] = Inr (?r, fst (last ((g, rp_providers r3) # qs)))"
    using drive_complete[OF assms(13), of "at_point opts lo g r3" lo ?E opts] assms(6-10,14,15) by simp
  moreover have "lo + length qs = length ?E \<and> lo = 0 \<longrightarrow> rp_cursor ?r = length (r_Crossings (rp_rec ?r))"
    using assms(10,16) by simp
  ultimately have "drive_range fo rt opts (r2, g0) = Inr (?r\<lparr>rp_result := (rp_result ?r)\<lparr>rs_FromPoint := lo, rs_ToPoint := lo + length qs\<rparr>\<rparr>,
      fst (last ((g, rp_providers r3) # qs)))"
    unfolding drive_range_Inr assms(5)
    using assms(11,12) atQuiescentPoint_accepts[OF assms(7), of lo g r3, folded at_point_def] by blast
  then have "Replay fo rt opts rec = Inr (?r\<lparr>rp_result := (rp_result ?r)\<lparr>rs_FromPoint := lo, rs_ToPoint := lo + length qs\<rparr>\<rparr>,
      fst (last ((g, rp_providers r3) # qs)))"
    unfolding Replay_Inr using assms(1-5) by blast
  then show ?thesis by (intro exI[of _ "?r\<lparr>rp_result := (rp_result ?r)\<lparr>rs_FromPoint := lo, rs_ToPoint := lo + length qs\<rparr>\<rparr>"]) simp
qed


lemma replay_split:
  assumes "numbered rec" "op_AtQuiescentPoint opts = Some (\<lambda>p g st. None)" "whole opts"
    "Replay fo rt opts rec = Inr (r, g)" "0 < k" "k \<le> length (TopLevelExports rec)" "rp_points r ! k = (int k, gk, stk)"
  obtains r1 r3 g0 cs1 cs2 qs n1 n2 where
    "planImports opts (newReplayer rec False) = Inr r1" "checkExports opts rec = Inr ()" "NestedExports rec = []" "prepare fo rt opts r1 = Inr (r3, g0)"
    "rp_rec r3 = rec" "\<not> rp_deferValuelessImports r3" "rp_err r3 = None" "rp_points r3 = []"
    "performs fo rt rec (rp_imports r3) g0 (rp_providers r3) cs1 (take k qs) n1" "performs fo rt rec (rp_imports r3) gk stk cs2 (drop k qs) n2"
    "drop (rp_cursor r3) (r_Crossings rec) = cs1 @ cs2" "rp_cursor r3 + length cs1 + length cs2 = length (r_Crossings rec)" "TopLevelExports rec = filter toplevel cs1 @ filter toplevel cs2"
    "length qs = length (TopLevelExports rec)" "last qs = (g, rp_providers r)" "qs ! (k - 1) = (gk, stk)"
    "rp_points r = zip (map int [0..<Suc (length qs)]) ((g0, rp_providers r3) # qs)"
proof -
  let ?E = "TopLevelExports rec"
  have hook: "hook_accepts opts" and "?E \<noteq> []" using assms(2,5,6) by (auto simp: hook_accepts_def)
  obtain qs n where rep: "reproduces fo rt opts rec qs n" "last qs = (g, rp_providers r)" "length qs = Suc (length ?E)" "rp_points r = hook_log opts 0 qs"
    using replay_sound[OF assms(1) hook \<open>?E \<noteq> []\<close> assms(3,4)] by blast
  then obtain r1 r2 cs0 n0 g0 st0 vs st1 cs m qs' where p: "planImports opts (newReplayer rec False) = Inr r1" "checkExports opts rec = Inr ()" "NestedExports rec = []"
     "checkImportedMemories opts r1 = Inr ()" "instantiateHostModules fo rt r1 = Inr r2"
     "plays fo rec (rp_imports r1) (rt_instantiate rt (rp_providers r2)) cs0 n0 g0 st0 vs"
     "apply_initial (r_HostState rec) st0 = Inr st1" "performs fo rt rec (rp_imports r1) g0 st1 cs qs' m"
     and qs: "qs = (g0, st1) # qs'" and cr: "r_Crossings rec = cs0 @ cs"
    unfolding reproduces_def by (metis list.collapse list.sel(3))
  have log: "rp_points r = zip (map int [0..<length qs]) qs" using rep(4) assms(2) by (simp add: hook_log_def)
  have qk: "qs ! k = (gk, stk)" using assms(6,7) rep(3) unfolding log by simp
  define r3 where "r3 = advance r2 (length cs0) n0 st1"
  have "prefix cs0 (r_Crossings rec)" by (simp add: cr)
  then have pr: "prepare fo rt opts r1 = Inr (r3, g0)" "rp_err r3 = None"
    using prepare_reproduces[OF p(1), of fo rt r3 g0] p(4-7) r3_def by blast+
  obtain sto where "r2 = r1\<lparr>rp_providers := sto\<rparr>" using instantiateHostModules_fields[OF p(5)] by blast
  then have f: "rp_rec r3 = rec" "rp_imports r3 = rp_imports r1" "rp_providers r3 = st1" "rp_cursor r3 = length cs0" "\<not> rp_deferValuelessImports r3" "rp_points r3 = []"
    using planImports_new[OF p(1)] by (simp_all add: r3_def)
  have e: "?E = filter toplevel cs" using plays_imports[OF p(6)] by (auto simp: TopLevelExports_filter cr toplevel_def)
  obtain cs1 cs2 n1 n2 where sp: "cs = cs1 @ cs2" "performs fo rt rec (rp_imports r1) g0 st1 cs1 (take k qs') n1"
     "performs fo rt rec (rp_imports r1) gk stk cs2 (drop k qs') n2"
    using performs_split[OF p(8), of k] assms(6) rep(3) qs qk by auto
  have "qs' \<noteq> []" using rep(3) qs \<open>?E \<noteq> []\<close> by auto
  then have q: "length qs' = length ?E" "last qs' = (g, rp_providers r)" "qs' ! (k - 1) = (gk, stk)"
      "rp_points r = zip (map int [0..<Suc (length qs')]) ((g0, rp_providers r3) # qs')"
    using rep(2,3) qk assms(5) \<open>?E \<noteq> []\<close> log f(3) unfolding qs by (auto simp: nth_Cons')
  show ?thesis
    by (rule that[of r1 r3 g0 cs1 "qs'" n1 cs2 n2]) (use p(1-3) pr f sp e q cr in simp_all)
qed


lemma state_list:
  assumes "0 < k" "k \<le> length qs"
  shows "drop k (q # qs) = qs ! (k - 1) # drop k qs" "last (qs ! (k - 1) # drop k qs) = last qs" "take (Suc k) (q # qs) = q # take k qs"
    "last (q # take k qs) = qs ! (k - 1)"
  using assms by (cases k; simp add: Cons_nth_drop_Suc last_drop take_Suc_conv_app_nth)+

lemma seek_resumes:
  assumes "numbered rec" "op_AtQuiescentPoint opts = Some (\<lambda>p g st. None)" "whole opts"
    "Replay fo rt opts rec = Inr (r, g)" "0 < k" "k \<le> length (TopLevelExports rec)" "rp_points r ! k = (int k, gk, stk)"
  shows "\<exists>r'. Replay fo rt (opts\<lparr>op_FromPoint := int k, op_Resume := Some (\<lambda>_ _. Inr (gk, stk))\<rparr>) rec = Inr (r', g) \<and>
      rp_providers r' = rp_providers r \<and> rp_points r' = drop k (rp_points r)"
  using assms
proof (rule replay_split)
  let ?o = "opts\<lparr>op_FromPoint := int k, op_Resume := Some (\<lambda>_ _. Inr (gk, stk))\<rparr>" and ?E = "TopLevelExports rec"
  fix r1 r3 g0 cs1 cs2 qs n1 n2
  assume p: "planImports opts (newReplayer rec False) = Inr r1" "checkExports opts rec = Inr ()" "NestedExports rec = []" "prepare fo rt opts r1 = Inr (r3, g0)"
    and f: "rp_rec r3 = rec" "\<not> rp_deferValuelessImports r3" "rp_err r3 = None" "rp_points r3 = []"
    and c: "performs fo rt rec (rp_imports r3) g0 (rp_providers r3) cs1 (take k qs) n1" "performs fo rt rec (rp_imports r3) gk stk cs2 (drop k qs) n2"
    and cs: "drop (rp_cursor r3) (r_Crossings rec) = cs1 @ cs2" "rp_cursor r3 + length cs1 + length cs2 = length (r_Crossings rec)" and e: "?E = filter toplevel cs1 @ filter toplevel cs2"
    and q: "length qs = length ?E" "last qs = (g, rp_providers r)" "qs ! (k - 1) = (gk, stk)"
    and log: "rp_points r = zip (map int [0..<Suc (length qs)]) ((g0, rp_providers r3) # qs)"
  define pos where "pos = rp_cursor r3 + length cs1"
  have at: "drop pos (r_Crossings rec) = cs2" "pos + length cs2 = length (r_Crossings rec)"
    using arg_cong[OF cs(1), of "drop (length cs1)"] cs(2) by (simp_all add: pos_def add.commute)
  have l1: "length (filter toplevel cs1) = k" using performs_exports[OF c(1)] assms(6) q(1) by simp
  have cur: "(if k < length ?E then c_Seq (?E ! k) else length (r_Crossings rec)) = pos"
  proof (cases "k < length ?E")
    case True
    then obtain d rest where d: "cs2 = d # rest" "toplevel d" using performs_first[OF c(2)] q(1) by (auto split: if_splits)
    then have "?E ! k = d" using l1 e by (simp add: nth_append)
    moreover have "pos < length (r_Crossings rec)" "r_Crossings rec ! pos = d" using at(1) d(1)
      by (metis drop_eq_Nil2 list.distinct(1) not_le, metis Cons_nth_drop_Suc drop_eq_Nil2 list.inject list.distinct(1) not_le)
    ultimately show ?thesis using True numbered_nth[OF assms(1), of pos] by simp
  next
    case False
    then show ?thesis using performs_first[OF c(2)] q(1) at(2) by simp
  qed
  have oe: "planImports ?o = planImports opts" "checkExports ?o = checkExports opts" "prepare fo rt ?o = prepare fo rt opts" "hook_accepts ?o"
    using options_irrelevant[of ?o opts] assms(2) by (simp_all add: hook_accepts_def)
  define r4 where "r4 = r3\<lparr>rp_cursor := pos, rp_providers := stk\<rparr>"
  have "seek ?o ?E k r3 g0 = Inr (r4, gk)" unfolding seek_def Let_def f(1) cur r4_def using assms(5) by simp
  moreover have "resolveRange ?o (length ?E) = Inr (k, k + length (drop k qs))"
    using assms(3,5,6) q(1) by (simp add: resolveRange_def whole_def)
  ultimately have "\<exists>r. Replay fo rt ?o rec = Inr (r, fst (last ((gk, rp_providers r4) # drop k qs))) \<and>
      rp_providers r = snd (last ((gk, rp_providers r4) # drop k qs)) \<and>
      rp_points r = rp_points r4 @ hook_log ?o k ((gk, rp_providers r4) # drop k qs) \<and> rp_cursor r = rp_cursor r4 + length cs2"
    by (intro Replay_from[where ?r2.0=r3 and ?r1.0=r1 and ?g0.0=g0])
      (use p f c(2) at l1 e assms(1,5) in \<open>simp_all add: oe r4_def\<close>)
  moreover have kq: "k \<le> length qs" using assms(6) q(1) by simp
  moreover have "last ((gk, stk) # drop k qs) = (g, rp_providers r)" using state_list(2)[OF assms(5) kq] unfolding q(2,3) .
  moreover have "hook_log ?o k ((gk, stk) # drop k qs) = drop k (rp_points r)"
    using state_list(1)[OF assms(5), of qs "(g0, rp_providers r3)"] assms(2,6) q(1,3)
    unfolding log by (simp add: hook_log_def drop_zip drop_map del: upt_Suc)
  ultimately show ?thesis using f(4) by (auto simp: r4_def)
qed


lemma stop_at:
  assumes "numbered rec" "op_AtQuiescentPoint opts = Some (\<lambda>p g st. None)" "whole opts"
    "Replay fo rt opts rec = Inr (r, g)" "0 < k" "k \<le> length (TopLevelExports rec)" "rp_points r ! k = (int k, gk, stk)"
  shows "\<exists>r'. Replay fo rt (opts\<lparr>op_ToPoint := int k\<rparr>) rec = Inr (r', gk) \<and> rp_providers r' = stk \<and> rp_points r' = take (Suc k) (rp_points r)"
  using assms
proof (rule replay_split)
  let ?o = "opts\<lparr>op_ToPoint := int k\<rparr>" and ?E = "TopLevelExports rec"
  fix r1 r3 g0 cs1 cs2 qs n1 n2
  assume p: "planImports opts (newReplayer rec False) = Inr r1" "checkExports opts rec = Inr ()" "NestedExports rec = []" "prepare fo rt opts r1 = Inr (r3, g0)"
    and f: "rp_rec r3 = rec" "\<not> rp_deferValuelessImports r3" "rp_err r3 = None" "rp_points r3 = []"
    and c: "performs fo rt rec (rp_imports r3) g0 (rp_providers r3) cs1 (take k qs) n1" "performs fo rt rec (rp_imports r3) gk stk cs2 (drop k qs) n2"
    and cs: "drop (rp_cursor r3) (r_Crossings rec) = cs1 @ cs2" "rp_cursor r3 + length cs1 + length cs2 = length (r_Crossings rec)" and e: "?E = filter toplevel cs1 @ filter toplevel cs2"
    and q: "length qs = length ?E" "qs ! (k - 1) = (gk, stk)"
    and log: "rp_points r = zip (map int [0..<Suc (length qs)]) ((g0, rp_providers r3) # qs)"
  have oe: "planImports ?o = planImports opts" "checkExports ?o = checkExports opts" "prepare fo rt ?o = prepare fo rt opts" "hook_accepts ?o"
    using options_irrelevant[of ?o opts] assms(2) by (simp_all add: hook_accepts_def)
  have rr: "resolveRange ?o (length ?E) = Inr (0, 0 + length (take k qs))"
    using assms(3,5,6) q(1) by (simp add: resolveRange_def whole_def)
  have fin: "(0 :: nat) = 0 \<and> length (take k qs) = length ?E \<longrightarrow> rp_cursor r3 + length cs1 = length (r_Crossings rec)"
  proof
    assume "(0 :: nat) = 0 \<and> length (take k qs) = length ?E"
    then have "drop k qs = []" unfolding q(1)[symmetric] by simp
    then have "cs2 = []" using performs_first[OF c(2)] by simp
    then show "rp_cursor r3 + length cs1 = length (r_Crossings rec)" using cs(2) by simp
  qed
  have pre: "prefix cs1 (drop (rp_cursor r3) (r_Crossings rec))" "prefix (filter toplevel cs1) (drop 0 ?E)" unfolding cs(1) e by simp_all
  have "\<exists>r. Replay fo rt ?o rec = Inr (r, fst (last ((g0, rp_providers r3) # take k qs))) \<and>
      rp_providers r = snd (last ((g0, rp_providers r3) # take k qs)) \<and>
      rp_points r = rp_points r3 @ hook_log ?o 0 ((g0, rp_providers r3) # take k qs) \<and> rp_cursor r = rp_cursor r3 + length cs1"
    by (rule Replay_from[OF p(1)[folded oe(1)] p(2)[folded oe(2)] p(3) p(4)[folded oe(3)] f(1) assms(1) oe(4) f(2,3,1) rr whole_range(2) c(1) pre fin])
  moreover have "hook_log ?o 0 ((g0, rp_providers r3) # take k qs) = take (Suc k) (rp_points r)"
    using assms(2,6) q(1) unfolding log by (simp add: hook_log_def take_zip take_map min_absorb2 del: upt_Suc)
  ultimately show ?thesis using f(4) state_list(4)[OF assms(5), of qs "(g0, rp_providers r3)"] q assms(6) by auto
qed

lemma replay_iff:
  assumes "numbered rec" "hook_accepts opts" "TopLevelExports rec \<noteq> []" "whole opts"
  shows "(\<exists>r. Replay fo rt opts rec = Inr (r, g) \<and> rp_providers r = st \<and> rp_points r = pts \<and> rp_result r = res) \<longleftrightarrow>
    (\<exists>qs n. reproduces fo rt opts rec qs n \<and> last qs = (g, st) \<and> pts = hook_log opts 0 qs \<and> res = counts rec n)"
  using replay_sound[OF assms] replay_complete[OF assms(1,2,4)] by (metis fst_conv snd_conv)

section \<open>Properties\<close>

text \<open>C1: a replay of a whole recording succeeds exactly when the guest reproduces it, and then it reports what it reproduced.
  To reproduce it, the host modules must be buildable from the recording, and from instantiation to the last call the guest must cross the boundary
  exactly as recorded: the crossings are the import calls of its instantiation and then, for every top-level call in turn, that call followed by
  the import calls it makes, with every argument, every result handed back, every host write and every return
  value as recorded. The replay then ends in that guest and in those provider modules, reports the counts of the recording, and has shown the hook every
  quiescent point in order.\<close>

theorem replay_exact:
  assumes "numbered rec" "hook_accepts opts" "TopLevelExports rec \<noteq> []" "whole opts"
  shows "(\<exists>r. Replay fo rt opts rec = Inr (r, g) \<and> rp_providers r = st \<and> rp_points r = pts \<and> rp_result r = res) \<longleftrightarrow>
    (\<exists>qs n. reproduces fo rt opts rec qs n \<and> last qs = (g, st) \<and> pts = hook_log opts 0 qs \<and> res = counts rec n)"
  by (rule replay_iff[OF assms])

text \<open>A guest that calls its import with its argument plus one and returns the import's result plus one, and a recording of two calls.\<close>

definition ex_crossing :: "nat \<Rightarrow> CrossingKind \<Rightarrow> string \<Rightarrow> string \<Rightarrow> Crossing" where
  "ex_crossing i k a b = \<lparr>c_Seq = i, c_Depth = (if k = CrossingExport then 0 else 1), c_Kind = k, c_Name = (if k = CrossingExport then ''f'' else []), c_Index = 0,
     c_Args = [\<lparr>rv_Kind = ''Int'', rv_Text = a\<rparr>], c_Results = [\<lparr>rv_Kind = ''Int'', rv_Text = b\<rparr>], c_hasResults = True, c_markerBracketed = True\<rparr>"

definition ex_recording :: Recording where
  "ex_recording = \<lparr>r_Program = [], r_Workdir = [], r_Recorder = [], r_Paths = [],
     r_Crossings = [ex_crossing 0 CrossingExport ''2'' ''5'', ex_crossing 1 CrossingImport ''3'' ''4'',
                    ex_crossing 2 CrossingExport ''7'' ''1'', ex_crossing 3 CrossingImport ''8'' ''0''],
     r_HostState = None, r_MarkersIdentifyImports = True\<rparr>"

definition ex_function :: FunctionDefinition where
  "ex_function = \<lparr>fd_Module = ''env'', fd_Name = ''f'', fd_Params = [0x7f], fd_Results = [0x7f]\<rparr>"

definition ex_runtime :: "nat Runtime" where
  "ex_runtime = \<lparr>rt_config = ex_config, rt_accepts = (\<lambda>_. True), rt_instantiate = (\<lambda>st. Returned 0 st []),
     rt_function = (\<lambda>g n. if n = ''f'' then Some ex_function else None),
     rt_call = (\<lambda>g n args st. CallImport 0 [hd args + 1] st (\<lambda>stack st. Returned (Suc g) st [hd stack + 1]))\<rparr>"

definition ex_options :: "nat Options" where
  "ex_options = \<lparr>op_Compiled = \<lparr>cm_ImportedFunctions = [ex_function], cm_ExportedFunctions = [''f'' \<mapsto> ex_function], cm_ImportedMemories = []\<rparr>,
     op_Manifest = None, op_FromPoint = 0, op_ToPoint = 0, op_AtQuiescentPoint = Some (\<lambda>_ _ _. None), op_Resume = None\<rparr>"

lemma ex_digits: "decode fo \<lparr>rv_Kind = ''Int'', rv_Text = [c]\<rparr> TypeI32 = Inr \<lparr>v_Type = TypeI32, v_Bits = word_of_nat (digit_val c)\<rparr>"
  if "c \<in> set ''01234578''"
  using that by (auto simp: decode_def decode_int_def TrimSpace_graphic graphic_def ParseInt_def ParseUint_def digit_val_def)

lemma ex_replay: "case Replay zero_floats ex_runtime ex_options ex_recording of Inl _ \<Rightarrow> False
    | Inr (r, g) \<Rightarrow> g = 2 \<and> rs_ImportCalls (rp_result r) = 2 \<and> map (\<lambda>(i, g, _). (i, g)) (rp_points r) = [(0, 0), (1, 1), (2, 2)]"
  by (simp add: Replay_def run_def planImports_def newReplayer_def ex_options_def ex_function_def plan_import_def hookModuleName_def ScalarTypeOf_def
      Manifest_Boundary_def Let_def ex_recording_def ex_crossing_def checkExports_def TopLevelExports_def NestedExports_def checkExportCrossing_def
      signatureOf_def ExportBoundaryByName_def refuseNestedExports_def prepare_def checkImportedMemories_def undescribedImportedMemory_def
      instantiateHostModules_def providerModules_def attach_func_def get_spec_def host_module_def ex_runtime_def guard_res_def
      applyInitialMemory_def apply_initial_def drive_range_def resolveRange_def seek_def atQuiescentPoint_def drive_def callExport_def
      decodeTuple_def ex_digits serviceImport_def valueless_def matchImportCrossing_def mismatch_def FromWazero_def BValue_Equal_def
      applyMutations_def MutationsFor_def check_consumed_def upt_rec digit_val_def)

lemma ex_conditions: "numbered ex_recording" "hook_accepts ex_options" "TopLevelExports ex_recording \<noteq> []" "whole ex_options"
  by (simp_all add: numbered_def ex_recording_def ex_crossing_def hook_accepts_def ex_options_def TopLevelExports_def whole_def)

theorem replay_exact_witness:
  "\<exists>r qs n. Replay zero_floats ex_runtime ex_options ex_recording = Inr (r, 2) \<and> reproduces zero_floats ex_runtime ex_options ex_recording qs n \<and>
     fst (last qs) = 2 \<and> rp_result r = counts ex_recording n"
proof -
  obtain r where r: "Replay zero_floats ex_runtime ex_options ex_recording = Inr (r, 2)"
    using ex_replay by (auto split: sum.splits)
  then show ?thesis
    using iffD1[OF replay_exact[OF ex_conditions, of zero_floats ex_runtime 2 "rp_providers r" "rp_points r" "rp_result r"]]
    by (metis fst_conv)
qed

text \<open>C3: seeking is equivalent to replaying from the start. If the whole recording replays, then a replay stopped
  at quiescent point \<open>k\<close> ends in exactly the state the whole replay had there, and a replay resumed
  from that state at \<open>k\<close> passes through the same remaining quiescent points and ends in the same state as the whole replay.\<close>

theorem seek_equivalence:
  assumes "numbered rec" "op_AtQuiescentPoint opts = Some (\<lambda>p g st. None)" "whole opts"
    "Replay fo rt opts rec = Inr (r, g)" "0 < k" "k \<le> length (TopLevelExports rec)" "rp_points r ! k = (int k, gk, stk)"
  shows "(\<exists>r'. Replay fo rt (opts\<lparr>op_ToPoint := int k\<rparr>) rec = Inr (r', gk) \<and> rp_providers r' = stk \<and> rp_points r' = take (Suc k) (rp_points r)) \<and>
    (\<exists>r'. Replay fo rt (opts\<lparr>op_FromPoint := int k, op_Resume := Some (\<lambda>_ _. Inr (gk, stk))\<rparr>) rec = Inr (r', g) \<and>
      rp_providers r' = rp_providers r \<and> rp_points r' = drop k (rp_points r))"
  using stop_at[OF assms] seek_resumes[OF assms] by blast

theorem seek_equivalence_witness:
  "\<exists>r st r'. Replay zero_floats ex_runtime ex_options ex_recording = Inr (r, 2) \<and> rp_points r ! 1 = (1, 1, st) \<and>
     Replay zero_floats ex_runtime (ex_options\<lparr>op_FromPoint := 1, op_Resume := Some (\<lambda>_ _. Inr (1, st))\<rparr>) ex_recording = Inr (r', 2)"
proof -
  obtain r where r: "Replay zero_floats ex_runtime ex_options ex_recording = Inr (r, 2)" "map (\<lambda>(i, g, _). (i, g)) (rp_points r) = [(0, 0), (1, 1), (2, 2)]"
    using ex_replay by (auto split: sum.splits)
  then obtain st where st: "rp_points r ! 1 = (int 1, 1, st)" by (auto simp: map_eq_Cons_conv)
  have h: "op_AtQuiescentPoint ex_options = Some (\<lambda>p g st. None)" "(1 :: nat) \<le> length (TopLevelExports ex_recording)"
    by (simp_all add: ex_options_def TopLevelExports_def ex_recording_def ex_crossing_def)
  show ?thesis using seek_equivalence[OF ex_conditions(1) h(1) ex_conditions(4) r(1) zero_less_one h(2) st] r(1) st by auto
qed

text \<open>A divergence while the guest is instantiated is kept in the replayer's error and reported by the next exported call.
  With no such call it is not reported: here the start function calls an import that the empty recording does not have.\<close>

theorem start_divergence_unreported:
  "\<exists>r. Replay zero_floats (ex_runtime\<lparr>rt_instantiate := \<lambda>st. CallImport 0 [1] st (\<lambda>_ st. Returned 0 st [])\<rparr>) ex_options
      (ex_recording\<lparr>r_Crossings := []\<rparr>) = Inr (r, 0) \<and> rp_err r = Some (Divergence (ImportPastEnd 0 0))"
  by (simp add: Replay_def run_def planImports_def newReplayer_def ex_options_def ex_function_def plan_import_def hookModuleName_def ScalarTypeOf_def
      Manifest_Boundary_def Let_def ex_recording_def checkExports_def TopLevelExports_def NestedExports_def
      refuseNestedExports_def prepare_def checkImportedMemories_def undescribedImportedMemory_def
      instantiateHostModules_def providerModules_def attach_func_def get_spec_def host_module_def ex_runtime_def guard_res_def
      applyInitialMemory_def apply_initial_def drive_range_def resolveRange_def seek_def atQuiescentPoint_def
      serviceImport_def valueless_def matchImportCrossing_def check_consumed_def)

end
