(* ===== verification/StreamReplays.thy ===== *)
theory StreamReplays
  imports ReplayProofs
begin

text \<open>
  Replaying a recording while it is produced (\<open>internal/boundarylog/stream_replay.go\<close>): the driver takes
  call groups from a \<open>StreamReader\<close>, appends their crossings to the recording and drives one exported call per group with the
  operations of \<open>Replays\<close>. The recording's host state may be the very object the reader goes on filling;
  \<open>ss_shared\<close> says so, and what the reader has folded into it is then visible to the replayer at the next group.
\<close>

section \<open>Definitions\<close>

record 'g stream_state =
  ss_r :: "'g replayer"
  ss_guest :: "'g option"
  ss_point :: nat
  ss_shared :: bool

definition prepareOnce :: "float_ops \<Rightarrow> 'g Runtime \<Rightarrow> 'g Options \<Rightarrow> HostState option \<Rightarrow> 'g stream_state \<Rightarrow> replay_error + 'g stream_state" where
  "prepareOnce fo rt opts streamed st = (case ss_guest st of
     Some _ \<Rightarrow> Inr st
   | None \<Rightarrow>
       let rec = rp_rec (ss_r st) in
       bind_res (err_as HostStateMismatch (reconcileHostState (r_HostState rec) streamed)) (\<lambda>state.
       bind_res (prepare fo rt opts ((ss_r st)\<lparr>rp_rec := rec\<lparr>r_HostState := state\<rparr>\<rparr>)) (\<lambda>(r1, g).
       bind_res (atQuiescentPoint opts (ss_point st) g r1) (\<lambda>r2.
       Inr (st\<lparr>ss_r := r2, ss_guest := Some g, ss_shared := (r_HostState rec = None \<and> streamed \<noteq> None)\<rparr>)))))"

text \<open>The recording so far, the index of the group's top-level call and the nested exported calls.\<close>

definition append_one :: "nat \<Rightarrow> Recording \<times> nat option \<times> Crossing list \<Rightarrow> nat \<times> Crossing \<Rightarrow>
    replay_error + Recording \<times> nat option \<times> Crossing list" where
  "append_one base = (\<lambda>(rec, found, nested) (i, c).
     let rec1 = (if c_markerBracketed c then rec\<lparr>r_MarkersIdentifyImports := True\<rparr> else rec);
         rec2 = rec1\<lparr>r_Crossings := r_Crossings rec1 @ [c]\<rparr> in
     if c_Seq c \<noteq> base + i then Inl (GroupNumbering (c_Seq c) (base + i))
     else if c_Kind c = CrossingExport then
       if c_Depth c > 0 then Inr (rec2, found, nested @ [c])
       else if found \<noteq> None then Inl GroupTwoExports
       else Inr (rec2, Some (length (r_Crossings rec1)), nested)
     else Inr (rec2, found, nested))"

definition appendGroup :: "Recording \<Rightarrow> Crossing list \<Rightarrow> replay_error + Recording \<times> nat" where
  "appendGroup rec grp =
     (if length grp = 0 then Inl EmptyGroup
      else let base = length (r_Crossings rec) in
        bind_res (run_steps (append_one base) (rec, None, []) (zip [0..<length grp] grp)) (\<lambda>(rec1, found, nested).
        bind_res (refuseNestedExports nested) (\<lambda>_.
        case found of
          None \<Rightarrow> Inl GroupNoExport
        | Some t \<Rightarrow> if t \<noteq> base then Inl GroupExportNotFirst else Inr (rec1, t))))"

definition sync_host :: "HostState option \<Rightarrow> 'g stream_state \<Rightarrow> 'g stream_state" where
  "sync_host streamed st = (if ss_shared st
     then st\<lparr>ss_r := (ss_r st)\<lparr>rp_rec := (rp_rec (ss_r st))\<lparr>r_HostState := streamed\<rparr>\<rparr>\<rparr> else st)"

definition stream_group :: "float_ops \<Rightarrow> 'g Runtime \<Rightarrow> 'g Options \<Rightarrow> HostState option \<Rightarrow> Crossing list \<Rightarrow> 'g stream_state \<Rightarrow>
    replay_error + 'g stream_state" where
  "stream_group fo rt opts streamed grp st =
     bind_res (prepareOnce fo rt opts streamed (sync_host streamed st)) (\<lambda>st1.
     bind_res (appendGroup (rp_rec (ss_r st1)) grp) (\<lambda>(rec, idx).
     let c = r_Crossings rec ! idx in
     bind_res (checkExportCrossing opts c) (\<lambda>_.
     bind_res (callExport fo rt ((ss_r st1)\<lparr>rp_rec := rec\<rparr>) (the (ss_guest st1)) c) (\<lambda>(r1, g).
     bind_res (atQuiescentPoint opts (ss_point st1 + 1) g r1) (\<lambda>r2.
     Inr (st1\<lparr>ss_r := r2, ss_guest := Some g, ss_point := ss_point st1 + 1\<rparr>))))))"

definition undelivered :: "StreamReader \<Rightarrow> nat" where
  "undelivered s = groups (sr_asm s) - sr_next s"

lemma next_loop_progress:
  "next_loop fo js s = (s', Inr (Some g)) \<Longrightarrow> reader_measure s' < reader_measure s \<or> reader_measure s' = reader_measure s \<and> undelivered s' < undelivered s"
proof (induction fo js s rule: next_loop.induct)
  case (1 fo js s)
  consider (ready) "groups (sr_asm s) > sr_next s" | (over) "\<not> groups (sr_asm s) > sr_next s" "sr_eof s" "\<not> sr_closed s"
    | (shut) "\<not> groups (sr_asm s) > sr_next s" "sr_eof s" "sr_closed s" | (more) "\<not> groups (sr_asm s) > sr_next s" "\<not> sr_eof s" by blast
  then show ?case
  proof cases
    case ready
    then have "s' = s\<lparr>sr_next := sr_next s + 1\<rparr>" using "1.prems" by (simp add: next_loop.simps)
    then show ?thesis using ready by (simp add: reader_measure_def undelivered_def)
  next
    case over
    then obtain s1 where s1: "finishStream (s\<lparr>sr_closed := True\<rparr>) = Inr s1" "next_loop fo js s1 = (s', Inr (Some g))"
      using "1.prems" by (subst (asm) next_loop.simps) (auto split: sum.splits)
    show ?thesis using "1.IH"(1)[OF over s1] finishStream_measure[OF s1(1) over(2,3)] by linarith
  next
    case shut
    then show ?thesis using "1.prems" by (simp add: next_loop.simps)
  next
    case more
    then obtain s1 where s1: "pump fo js s = Inr s1" "next_loop fo js s1 = (s', Inr (Some g))"
      using "1.prems" by (subst (asm) next_loop.simps) (auto split: sum.splits)
    show ?thesis using "1.IH"(2)[OF more s1] pump_measure[OF more(2) s1(1)] by linarith
  qed
qed

lemma NextGroup_progress:
  "NextGroup fo js s = (s', Inr (Some g)) \<Longrightarrow> ((reader_measure s', undelivered s'), reader_measure s, undelivered s) \<in> less_than <*lex*> less_than"
  by (auto simp: NextGroup_def split: option.splits dest: next_loop_progress)

text \<open>The value is the reader and the state after the last group, and how the stream was cut short if it was.\<close>

function stream_loop :: "float_ops \<Rightarrow> (string \<Rightarrow> json option) \<Rightarrow> 'g Runtime \<Rightarrow> 'g Options \<Rightarrow> StreamReader \<Rightarrow> 'g stream_state \<Rightarrow>
    replay_error + StreamReader \<times> 'g stream_state \<times> TruncationError option" where
  "stream_loop fo js rt opts src st = (case NextGroup fo js src of
     (src1, Inr None) \<Rightarrow> Inr (src1, st, None)
   | (src1, Inl e) \<Rightarrow> (case IsTruncation e of Some t \<Rightarrow> Inr (src1, st, Some t) | None \<Rightarrow> Inl (StreamFailed e))
   | (src1, Inr (Some grp)) \<Rightarrow>
       (case stream_group fo rt opts (StreamReader_HostState src1) grp st of
          Inl e \<Rightarrow> Inl e
        | Inr st1 \<Rightarrow> stream_loop fo js rt opts src1 st1))"
  by pat_completeness auto
termination
  by (relation "inv_image (less_than <*lex*> less_than) (\<lambda>(fo, js, rt, opts, src, st). (reader_measure src, undelivered src))")
    (auto dest: NextGroup_progress[OF sym])

declare stream_loop.simps [simp del]

definition resolveDeferredValuelessImports :: "'g replayer \<Rightarrow> TruncationError option \<Rightarrow> replay_error + unit" where
  "resolveDeferredValuelessImports r trunc = (case rp_deferredValueless r of
     None \<Rightarrow> Inr ()
   | Some e \<Rightarrow>
       if r_MarkersIdentifyImports (rp_rec r) then Inl e
       else if trunc \<noteq> None then Inl (Unclassified e)
       else Inr ())"

definition StreamingReplay :: "float_ops \<Rightarrow> (string \<Rightarrow> json option) \<Rightarrow> 'g Runtime \<Rightarrow> 'g Options \<Rightarrow> Recording \<Rightarrow> StreamReader \<Rightarrow>
    replay_error + 'g stream_state \<times> TruncationError option" where
  "StreamingReplay fo js rt opts rec src =
     (if length (r_Crossings rec) \<noteq> 0 then Inl (RecordingNotEmpty (length (r_Crossings rec)))
      else if op_FromPoint opts \<noteq> 0 \<or> op_ToPoint opts \<noteq> 0 \<or> op_Resume opts \<noteq> None then Inl RangeGiven
      else
        let st = \<lparr>ss_r = newReplayer rec True, ss_guest = None, ss_point = 0, ss_shared = False\<rparr> in
        bind_res (case undescribedImportedMemory (op_Compiled opts) rec of
            None \<Rightarrow> prepareOnce fo rt opts (StreamReader_HostState src) st | Some _ \<Rightarrow> Inr st) (\<lambda>st1.
        bind_res (stream_loop fo js rt opts src st1) (\<lambda>(src2, st2, trunc).
        bind_res (prepareOnce fo rt opts (StreamReader_HostState src2) (sync_host (StreamReader_HostState src2) st2)) (\<lambda>st3.
        let r = (ss_r st3)\<lparr>rp_result := (rp_result (ss_r st3))\<lparr>rs_FromPoint := 0, rs_ToPoint := ss_point st3\<rparr>\<rparr> in
        bind_res (resolveDeferredValuelessImports r trunc) (\<lambda>_.
        if trunc = None \<and> rp_cursor r \<noteq> length (r_Crossings (rp_rec r))
        then Inl (Divergence (CrossingCount (rp_cursor r) (r_Crossings (rp_rec r) ! rp_cursor r)))
        else Inr (st3\<lparr>ss_r := r\<rparr>, trunc))))))"

end
