(* ===== verification/StreamProofs.thy ===== *)
theory StreamProofs
  imports StreamReplays
begin

text \<open>
  Streaming replay against batch replay. Deferring the judgement of a valueless import call changes only what is deferred (\<open>erase\<close>);
  a stream of groups is driven as the batch driver drives the same crossings (\<open>stream_sound\<close>, \<open>stream_complete\<close>);
  the two drivers then agree on every stream that ends. Also: reading a stream ends.
\<close>

section \<open>Lemmas\<close>

subsection \<open>Deferring changes only what is deferred\<close>

definition erase :: "'g replayer \<Rightarrow> 'g replayer" where
  "erase r = r\<lparr>rp_deferValuelessImports := False, rp_deferredValueless := None\<rparr>"

lemma erase_fields [simp]:
  "rp_rec (erase r) = rp_rec r" "rp_imports (erase r) = rp_imports r" "rp_planned (erase r) = rp_planned r" "rp_cursor (erase r) = rp_cursor r"
  "rp_err (erase r) = rp_err r" "rp_result (erase r) = rp_result r" "rp_providers (erase r) = rp_providers r"
  "\<not> rp_deferValuelessImports (erase r)" "rp_deferredValueless (erase r) = None" "rp_points (erase r) = rp_points r"
  by (simp_all add: erase_def)

lemma erase_updates:
  "erase (r\<lparr>rp_providers := a\<rparr>) = (erase r)\<lparr>rp_providers := a\<rparr>" "erase (r\<lparr>rp_err := b\<rparr>) = (erase r)\<lparr>rp_err := b\<rparr>"
  "erase (r\<lparr>rp_cursor := c\<rparr>) = (erase r)\<lparr>rp_cursor := c\<rparr>" "erase (r\<lparr>rp_result := d\<rparr>) = (erase r)\<lparr>rp_result := d\<rparr>"
  "erase (r\<lparr>rp_points := e\<rparr>) = (erase r)\<lparr>rp_points := e\<rparr>" "erase (r\<lparr>rp_rec := f\<rparr>) = (erase r)\<lparr>rp_rec := f\<rparr>"
  "erase (r\<lparr>rp_planned := h\<rparr>) = (erase r)\<lparr>rp_planned := h\<rparr>" "erase (r\<lparr>rp_imports := i\<rparr>) = (erase r)\<lparr>rp_imports := i\<rparr>"
  "erase (r\<lparr>rp_deferredValueless := g\<rparr>) = erase r"
  by (simp_all add: erase_def)

lemma matchImportCrossing_erase: "matchImportCrossing fo (erase r) plan stack = matchImportCrossing fo r plan stack"
  by (simp only: matchImportCrossing_def erase_fields)

lemma serviceUnwitnessed_erase:
  "serviceUnwitnessedValuelessImport fo plan (erase r) = erase (serviceUnwitnessedValuelessImport fo plan r)"
  by (simp add: serviceUnwitnessedValuelessImport_def Let_def erase_updates split: sum.split)

lemma serviceImport_erase:
  "serviceImport fo plan (erase r) stack = (erase (fst (serviceImport fo plan r stack)), snd (serviceImport fo plan r stack))"
proof (cases "rp_err r \<noteq> None \<or> valueless plan \<and> \<not> r_MarkersIdentifyImports (rp_rec r)")
  case True
  then show ?thesis by (auto simp: serviceImport_def Let_def serviceUnwitnessed_erase)
next
  case False
  then have f: "\<not> rp_err r \<noteq> None" "\<not> (valueless plan \<and> \<not> r_MarkersIdentifyImports (rp_rec r))" by auto
  show ?thesis unfolding serviceImport_def Let_def erase_fields matchImportCrossing_erase if_not_P[OF f(1)] if_not_P[OF f(2)]
    by (auto simp: erase_updates split: sum.split prod.split option.split)
qed

lemma run_act_erase: "run_act fo a (erase r) = (erase (fst (run_act fo a r)), snd (run_act fo a r))"
proof (induction a arbitrary: r rule: act_induct)
  case (CallImport i stack st k)
  let ?r = "r\<lparr>rp_providers := st\<rparr>"
  obtain r1 stack1 where s: "serviceImport fo (rp_imports r ! i) ?r stack = (r1, stack1)" by force
  then have "serviceImport fo (rp_imports r ! i) (erase ?r) stack = (erase r1, stack1)" by (simp add: serviceImport_erase)
  then show ?case using s CallImport.IH[of stack1 "rp_providers r1" r1] by (simp add: erase_updates)
qed (simp_all add: erase_updates)

lemma entered_erase: "entered (erase r) = erase (entered r)"
  by (simp add: entered_def erase_updates)

lemma callExport_erase: "callExport fo rt r g c = Inr (r', g') \<Longrightarrow> callExport fo rt (erase r) g c = Inr (erase r', g')"
  by (erule callExport_InrE) (simp add: callExport_entered entered_erase run_act_erase)

lemma callExport_unerase:
  assumes "callExport fo rt (erase r) g c = Inr (r1, g')"
  obtains r' where "callExport fo rt r g c = Inr (r', g')" "r1 = erase r'"
  using assms
proof (rule callExport_InrE)
  fix d sig args got want
  assume h: "rp_cursor (erase r) = c_Seq c" "rp_cursor (erase r) < length (r_Crossings (rp_rec (erase r)))"
    "rt_function rt g (c_Name c) = Some d" "signatureOf d = Inr sig" "decodeTuple fo (c_Args c) (sig_Params sig) = Inr args"
    "run_act fo (rt_call rt g (c_Name c) (map v_Bits args) (rp_providers (erase r))) (entered (erase r)) = (r1, Some (g', got))" "rp_err r1 = None"
    "decodeTuple fo (c_Results c) (sig_Results sig) = Inr want" "length got = length want"
    "mismatch want (map2 FromWazero (sig_Results sig) got) = None"
  obtain r' where r': "run_act fo (rt_call rt g (c_Name c) (map v_Bits args) (rp_providers r)) (entered r) = (r', Some (g', got))" "r1 = erase r'"
    using h(6) by (cases "run_act fo (rt_call rt g (c_Name c) (map v_Bits args) (rp_providers r)) (entered r)") (auto simp: entered_erase run_act_erase)
  then have "callExport fo rt r g c = Inr (r', g')" using h by (simp add: callExport_entered)
  then show thesis using that r'(2) by blast
qed

text \<open>Something is deferred exactly when some call went unchecked.\<close>

definition defers :: "'g replayer \<Rightarrow> bool" where
  "defers r \<longleftrightarrow> rp_deferValuelessImports r \<and> (rp_deferredValueless r = None \<longleftrightarrow> rs_UncheckedImportCalls (rp_result r) = 0)"

lemma serviceImport_defers:
  assumes "defers r"
  shows "defers (fst (serviceImport fo plan r stack))"
proof (cases "rp_err r \<noteq> None \<or> valueless plan \<and> \<not> r_MarkersIdentifyImports (rp_rec r)")
  case True
  then show ?thesis using assms
    by (auto simp: serviceImport_def Let_def serviceUnwitnessedValuelessImport_def defers_def split: sum.split)
next
  case False
  then have f: "\<not> rp_err r \<noteq> None" "\<not> (valueless plan \<and> \<not> r_MarkersIdentifyImports (rp_rec r))" by auto
  show ?thesis unfolding serviceImport_def Let_def if_not_P[OF f(1)] if_not_P[OF f(2)]
    using assms by (auto simp: defers_def split: sum.split prod.split option.split)
qed

lemma run_act_defers: "defers r \<Longrightarrow> defers (fst (run_act fo a r))"
proof (induction a arbitrary: r rule: act_induct)
  case (CallImport i stack st k)
  let ?r = "r\<lparr>rp_providers := st\<rparr>"
  obtain r1 stack1 where s: "serviceImport fo (rp_imports r ! i) ?r stack = (r1, stack1)" by force
  have "defers ?r" using CallImport.prems by (simp add: defers_def)
  from serviceImport_defers[OF this, of fo "rp_imports r ! i" stack] s have "defers r1" by simp
  from CallImport.IH[OF this] s show ?case by simp
qed (simp_all add: defers_def)

lemma callExport_defers: "callExport fo rt r g c = Inr (r', g') \<Longrightarrow> defers r \<Longrightarrow> defers r'"
proof (erule callExport_InrE)
  fix args got
  assume "defers r" and a: "run_act fo (rt_call rt g (c_Name c) (map v_Bits args) (rp_providers r)) (entered r) = (r', Some (g', got))"
  then have "defers (entered r)" by (simp add: defers_def entered_def)
  from run_act_defers[OF this, of fo "rt_call rt g (c_Name c) (map v_Bits args) (rp_providers r)"] a show "defers r'" by simp
qed

subsection \<open>The flag of the recording\<close>

lemma plays_flag_same:
  "plays fo rec ps a cs n g st vs \<Longrightarrow> r_HostState rec' = r_HostState rec \<Longrightarrow> r_MarkersIdentifyImports rec' = r_MarkersIdentifyImports rec \<Longrightarrow>
   plays fo rec' ps a cs n g st vs"
  by (induction rule: plays.induct) (auto intro: plays.intros)

lemma plays_checked:
  "plays fo rec ps a cs n g st vs \<Longrightarrow> n = 0 \<Longrightarrow> r_HostState rec' = r_HostState rec \<Longrightarrow> r_MarkersIdentifyImports rec' \<Longrightarrow>
   plays fo rec' ps a cs 0 g st vs"
  by (induction rule: plays.induct) (auto intro: plays.intros)

lemma plays_strict: "plays fo rec ps a cs n g st vs \<Longrightarrow> r_MarkersIdentifyImports rec \<Longrightarrow> n = 0"
  by (induction rule: plays.induct) auto

lemma decodeTuple_Nil: "decodeTuple fo raws [] = Inr vs \<Longrightarrow> raws = []"
  by (simp add: decodeTuple_def split: if_splits)

lemma plays_valued:
  "plays fo rec ps a cs n g st vs \<Longrightarrow> \<forall>c\<in>set cs. c_Args c \<noteq> [] \<or> c_Results c \<noteq> [] \<Longrightarrow> r_HostState rec' = r_HostState rec \<Longrightarrow>
   r_MarkersIdentifyImports rec \<Longrightarrow> plays fo rec' ps a cs n g st vs"
proof (induction rule: plays.induct)
  case (recorded i c stack st st1 res k cs n g st' vs)
  have "\<not> (valueless (ps ! i) \<and> \<not> r_MarkersIdentifyImports rec')"
    using recorded.hyps(4,7) recorded.prems(1) by (auto simp: valueless_def dest!: decodeTuple_Nil)
  then show ?case using recorded by (intro plays.recorded) auto
qed (auto intro: plays.intros)

subsection \<open>Groups\<close>

definition nested :: "Crossing \<Rightarrow> bool" where "nested c \<longleftrightarrow> c_Kind c = CrossingExport \<and> c_Depth c > 0"

text \<open>A group opens with its top-level call and numbers its crossings from \<open>base\<close>.\<close>

definition group_ok :: "nat \<Rightarrow> Crossing list \<Rightarrow> bool" where
  "group_ok base grp \<longleftrightarrow> grp \<noteq> [] \<and> toplevel (hd grp) \<and> list_all (\<lambda>c. \<not> toplevel c) (tl grp) \<and> map c_Seq grp = [base..<base + length grp]"

fun groups_ok :: "nat \<Rightarrow> Crossing list list \<Rightarrow> bool" where
  "groups_ok base [] = True"
| "groups_ok base (grp # gs) = (group_ok base grp \<and> groups_ok (base + length grp) gs)"

definition extended :: "Recording \<Rightarrow> Crossing list \<Rightarrow> Recording" where
  "extended rec cs = rec\<lparr>r_Crossings := r_Crossings rec @ cs, r_MarkersIdentifyImports := r_MarkersIdentifyImports rec \<or> (\<exists>c\<in>set cs. c_markerBracketed c)\<rparr>"

lemma extended_fields [simp]: "r_Crossings (extended rec cs) = r_Crossings rec @ cs" "r_HostState (extended rec cs) = r_HostState rec"
  "r_MarkersIdentifyImports (extended rec cs) \<longleftrightarrow> r_MarkersIdentifyImports rec \<or> (\<exists>c\<in>set cs. c_markerBracketed c)"
  by (simp_all add: extended_def)

lemma extended_extended: "extended (extended rec cs) ds = extended rec (cs @ ds)" "extended rec [] = rec"
  by (simp_all add: extended_def bex_Un)

lemma append_one_ok:
  "c_Seq c = base + i \<Longrightarrow> \<not> toplevel c \<Longrightarrow> append_one base (rec, found, nst) (i, c) = Inr (extended rec [c], found, nst @ filter nested [c])"
  "c_Seq c = base + i \<Longrightarrow> toplevel c \<Longrightarrow> append_one base (rec, None, nst) (i, c) = Inr (extended rec [c], Some (length (r_Crossings rec)), nst)"
  by (auto simp: append_one_def toplevel_def nested_def extended_def Let_def)

lemma append_ones:
  "map c_Seq cs = [base + i..<base + i + length cs] \<Longrightarrow> list_all (\<lambda>c. \<not> toplevel c) cs \<Longrightarrow>
   run_steps (append_one base) (rec, found, nst) (zip [i..<i + length cs] cs) = Inr (extended rec cs, found, nst @ filter nested cs)"
proof (induction cs arbitrary: i rec nst)
  case (Cons c cs)
  have c: "c_Seq c = base + i" "map c_Seq cs = [base + Suc i..<base + Suc i + length cs]"
    using Cons.prems(1) by (simp_all add: upt_conv_Cons del: upt_Suc)
  have z: "zip [i..<i + length (c # cs)] (c # cs) = (i, c) # zip [Suc i..<Suc i + length cs] cs" by (simp add: upt_conv_Cons del: upt_Suc)
  show ?case unfolding z using Cons.IH[OF c(2), of "extended rec [c]" "nst @ filter nested [c]"] Cons.prems(2) append_one_ok(1)[OF c(1)]
    by (simp add: extended_extended)
qed (simp add: extended_extended)

lemma appendGroup_ok:
  assumes "group_ok (length (r_Crossings rec)) grp"
  shows "appendGroup rec grp = (if filter nested grp = [] then Inr (extended rec grp, length (r_Crossings rec)) else Inl (NestedExportCalls (length (filter nested grp))))"
proof -
  let ?b = "length (r_Crossings rec)"
  obtain c cs where g: "grp = c # cs" "toplevel c" "list_all (\<lambda>c. \<not> toplevel c) cs" "c_Seq c = ?b" "map c_Seq cs = [?b + 1..<?b + 1 + length cs]"
    using assms by (cases grp) (auto simp: group_ok_def upt_conv_Cons simp del: upt_Suc)
  have z: "zip [0..<length grp] grp = (0, c) # zip [1..<1 + length cs] cs" unfolding g(1) by (simp add: upt_conv_Cons del: upt_Suc)
  have "run_steps (append_one ?b) (rec, None, []) (zip [0..<length grp] grp) = Inr (extended rec grp, Some ?b, filter nested cs)"
    unfolding z using append_one_ok(2)[of c ?b 0 rec "[]"] g append_ones[OF g(5,3), of "extended rec [c]" "Some ?b" "[]"]
    by (simp add: extended_extended)
  moreover have "filter nested grp = filter nested cs" using g(1,2) by (simp add: nested_def toplevel_def)
  ultimately show ?thesis using g(1) by (simp add: appendGroup_def refuseNestedExports_def Let_def)
qed

lemma stream_group_ok:
  assumes "ss_guest st = Some g" "\<not> ss_shared st" "hook_accepts opts" "group_ok (length (r_Crossings (rp_rec (ss_r st)))) grp"
  shows "stream_group fo rt opts None grp st = Inr st' \<longleftrightarrow> filter nested grp = [] \<and> checkExportCrossing opts (hd grp) = Inr () \<and>
    (\<exists>r g'. callExport fo rt ((ss_r st)\<lparr>rp_rec := extended (rp_rec (ss_r st)) grp\<rparr>) g (hd grp) = Inr (r, g') \<and>
       st' = st\<lparr>ss_r := at_point opts (Suc (ss_point st)) g' r, ss_guest := Some g', ss_point := Suc (ss_point st)\<rparr>)"
proof -
  have "grp \<noteq> []" using assms(4) by (simp add: group_ok_def)
  then have h: "(r_Crossings (rp_rec (ss_r st)) @ grp) ! length (r_Crossings (rp_rec (ss_r st))) = hd grp" by (simp add: nth_append hd_conv_nth)
  have "stream_group fo rt opts None grp st = (if filter nested grp = [] then bind_res (checkExportCrossing opts (hd grp)) (\<lambda>_.
      bind_res (callExport fo rt ((ss_r st)\<lparr>rp_rec := extended (rp_rec (ss_r st)) grp\<rparr>) g (hd grp)) (\<lambda>(r, g').
      Inr (st\<lparr>ss_r := at_point opts (Suc (ss_point st)) g' r, ss_guest := Some g', ss_point := Suc (ss_point st)\<rparr>)))
    else Inl (NestedExportCalls (length (filter nested grp))))"
    using assms(1,2) by (simp add: stream_group_def prepareOnce_def sync_host_def appendGroup_ok[OF assms(4)] h Let_def
        atQuiescentPoint_accepts[OF assms(3)] at_point_def)
  then show ?thesis by (auto simp: bind_res_eq_Inr)
qed

text \<open>What streaming has done once \<open>gs\<close> is driven: the state \<open>st'\<close> reached from \<open>st\<close>.\<close>

definition streamed_to :: "'g Options \<Rightarrow> 'g \<Rightarrow> Crossing list list \<Rightarrow> ('g \<times> store) list \<Rightarrow> nat \<Rightarrow> 'g stream_state \<Rightarrow> 'g stream_state \<Rightarrow> bool" where
  "streamed_to opts g gs qs n st st' \<longleftrightarrow>
     erase (ss_r st') = (after_calls opts (ss_point st) g (concat gs) qs n (erase (ss_r st)))\<lparr>rp_rec := extended (rp_rec (ss_r st)) (concat gs)\<rparr> \<and>
     ss_guest st' = Some (fst (last ((g, rp_providers (ss_r st)) # qs))) \<and> ss_point st' = ss_point st + length gs \<and> \<not> ss_shared st' \<and> defers (ss_r st')"

lemma streamed_to_none: "ss_guest st = Some g \<Longrightarrow> \<not> ss_shared st \<Longrightarrow> defers (ss_r st) \<Longrightarrow> streamed_to opts g [] [] 0 st st"
  by (simp add: streamed_to_def extended_extended)

lemma calls_cong: "calls fo rt rec ps g st c cs n g' st' \<Longrightarrow> (\<And>a vs. plays fo rec ps a cs n g' st' vs \<Longrightarrow> plays fo rec' ps a cs n g' st' vs) \<Longrightarrow>
    calls fo rt rec' ps g st c cs n g' st'"
  unfolding calls_def by blast

lemma calls_strict: "calls fo rt rec ps g st c cs n g' st' \<Longrightarrow> r_MarkersIdentifyImports rec \<Longrightarrow> n = 0"
  unfolding calls_def by (blast dest: plays_strict)

text \<open>One group driven, its call \<open>c\<close> having made the import calls \<open>cs\<close>.\<close>

definition stepped :: "'g Options \<Rightarrow> Crossing list \<Rightarrow> 'g \<Rightarrow> Crossing list \<Rightarrow> nat \<Rightarrow> store \<Rightarrow> 'g stream_state \<Rightarrow> 'g stream_state \<Rightarrow> bool" where
  "stepped opts grp g cs n prov st st' \<longleftrightarrow>
     erase (ss_r st') = (driven opts (ss_point st) g cs n prov (erase (ss_r st)))\<lparr>rp_rec := extended (rp_rec (ss_r st)) grp\<rparr> \<and>
     ss_guest st' = Some g \<and> ss_point st' = Suc (ss_point st) \<and> \<not> ss_shared st' \<and> defers (ss_r st')"

lemma stepped_fields:
  assumes "stepped opts grp g cs n prov st st'"
  shows "rp_rec (ss_r st') = extended (rp_rec (ss_r st)) grp" "rp_imports (ss_r st') = rp_imports (ss_r st)" "rp_providers (ss_r st') = prov"
    "rp_cursor (ss_r st') = Suc (rp_cursor (ss_r st) + length cs)" "rp_err (ss_r st') = rp_err (ss_r st)"
    "rs_UncheckedImportCalls (rp_result (ss_r st')) = rs_UncheckedImportCalls (rp_result (ss_r st)) + n"
proof -
  have e: "erase (ss_r st') = (driven opts (ss_point st) g cs n prov (erase (ss_r st)))\<lparr>rp_rec := extended (rp_rec (ss_r st)) grp\<rparr>"
    using assms by (simp add: stepped_def)
  show "rp_rec (ss_r st') = extended (rp_rec (ss_r st)) grp" "rp_imports (ss_r st') = rp_imports (ss_r st)" "rp_providers (ss_r st') = prov"
    "rp_cursor (ss_r st') = Suc (rp_cursor (ss_r st) + length cs)" "rp_err (ss_r st') = rp_err (ss_r st)"
    using arg_cong[OF e, of rp_rec] arg_cong[OF e, of rp_imports] arg_cong[OF e, of rp_providers] arg_cong[OF e, of rp_cursor] arg_cong[OF e, of rp_err]
    by (simp_all add: Let_def)
  show "rs_UncheckedImportCalls (rp_result (ss_r st')) = rs_UncheckedImportCalls (rp_result (ss_r st)) + n"
    using arg_cong[OF e, of rp_result] by (simp add: Let_def advance_def entered_def)
qed

lemma defers_at_point [simp]: "defers (at_point opts i g r) = defers r"
  by (simp add: defers_def at_point_def)

lemma stepped_call:
  assumes "erase r = advance (entered (erase ((ss_r st)\<lparr>rp_rec := extended (rp_rec (ss_r st)) grp\<rparr>))) (length cs) n prov" "defers r" "\<not> ss_shared st"
  shows "stepped opts grp g cs n prov st (st\<lparr>ss_r := at_point opts (Suc (ss_point st)) g r, ss_guest := Some g, ss_point := Suc (ss_point st)\<rparr>)"
proof -
  have f: "rp_providers r = prov" "rp_points r = rp_points (ss_r st)"
    using arg_cong[OF assms(1), of rp_providers] arg_cong[OF assms(1), of rp_points] by simp_all
  have "erase (at_point opts (Suc (ss_point st)) g r) = (erase r)\<lparr>rp_points := rp_points (ss_r st) @ hook_log opts (Suc (ss_point st)) [(g, prov)]\<rparr>"
    by (simp add: at_point_def erase_updates f)
  then show ?thesis using assms(2,3) unfolding assms(1)
    by (simp add: stepped_def erase_updates Let_def advance_def entered_def)
qed

lemma stream_step_sound:
  assumes "ss_guest st = Some g" "\<not> ss_shared st" "hook_accepts opts" "group_ok (length (r_Crossings (rp_rec (ss_r st)))) (c # cs)" "defers (ss_r st)"
    "stream_group fo rt opts None (c # cs) st = Inr st1"
  shows "filter nested (c # cs) = [] \<and> checkExportCrossing opts c = Inr () \<and> rp_cursor (ss_r st) = length (r_Crossings (rp_rec (ss_r st))) \<and>
    (\<exists>cs1 n g1 prov. calls fo rt (extended (rp_rec (ss_r st)) (c # cs)) (rp_imports (ss_r st)) g (rp_providers (ss_r st)) c cs1 n g1 prov \<and>
       prefix cs1 cs \<and> stepped opts (c # cs) g1 cs1 n prov st st1)"
proof -
  let ?r0 = "(ss_r st)\<lparr>rp_rec := extended (rp_rec (ss_r st)) (c # cs)\<rparr>"
  obtain r1 g1 where nn: "filter nested (c # cs) = []" "checkExportCrossing opts c = Inr ()" and call: "callExport fo rt ?r0 g c = Inr (r1, g1)"
    and s1: "st1 = st\<lparr>ss_r := at_point opts (Suc (ss_point st)) g1 r1, ss_guest := Some g1, ss_point := Suc (ss_point st)\<rparr>"
    using iffD1[OF stream_group_ok[OF assms(1-4)] assms(6)] unfolding list.sel by blast
  from callExport_sound[OF callExport_erase[OF call]] obtain cs1 n1 prov where
    c: "rp_cursor (ss_r st) = c_Seq c" "calls fo rt (extended (rp_rec (ss_r st)) (c # cs)) (rp_imports (ss_r st)) g (rp_providers (ss_r st)) c cs1 n1 g1 prov"
      "prefix cs1 (drop (Suc (rp_cursor (ss_r st))) (r_Crossings (rp_rec (ss_r st)) @ c # cs))" and r1: "erase r1 = advance (entered (erase ?r0)) (length cs1) n1 prov"
    by (auto simp: erase_updates)
  have b: "rp_cursor (ss_r st) = length (r_Crossings (rp_rec (ss_r st)))" using c(1) assms(4) by (simp add: group_ok_def upt_conv_Cons del: upt_Suc)
  have d: "defers r1" using callExport_defers[OF call] assms(5) by (simp add: defers_def)
  have "prefix cs1 cs" using c(3) by (simp add: b)
  then show ?thesis using nn b c(2) stepped_call[OF r1 d assms(2)] unfolding s1 by blast
qed

lemma stream_step_complete:
  assumes "ss_guest st = Some g" "\<not> ss_shared st" "hook_accepts opts" "group_ok (length (r_Crossings (rp_rec (ss_r st)))) (c # cs)" "defers (ss_r st)"
    "filter nested (c # cs) = []" "checkExportCrossing opts c = Inr ()" "rp_cursor (ss_r st) = length (r_Crossings (rp_rec (ss_r st)))" "rp_err (ss_r st) = None"
    "calls fo rt (extended (rp_rec (ss_r st)) (c # cs)) (rp_imports (ss_r st)) g (rp_providers (ss_r st)) c cs n g1 prov"
  shows "\<exists>st1. stream_group fo rt opts None (c # cs) st = Inr st1 \<and> stepped opts (c # cs) g1 cs n prov st st1"
proof -
  let ?r0 = "(ss_r st)\<lparr>rp_rec := extended (rp_rec (ss_r st)) (c # cs)\<rparr>"
  have "c_Seq c = rp_cursor (ss_r st)" using assms(4,8) by (simp add: group_ok_def upt_conv_Cons del: upt_Suc)
  then have "callExport fo rt (erase ?r0) g c = Inr (advance (entered (erase ?r0)) (length cs) n prov, g1)"
    using assms(8-10) by (intro callExport_complete) (simp_all add: erase_updates)
  then obtain r' where r': "callExport fo rt ?r0 g c = Inr (r', g1)" "erase r' = advance (entered (erase ?r0)) (length cs) n prov"
    by (rule callExport_unerase) simp
  have "defers r'" using callExport_defers[OF r'(1)] assms(5) by (simp add: defers_def)
  from stepped_call[OF r'(2) this assms(2)] show ?thesis
    using iffD2[OF stream_group_ok[OF assms(1-4)]] assms(6,7) r'(1) unfolding list.sel by blast
qed

lemma streamed_to_Cons:
  assumes "streamed_to opts g1 gs qs m st1 st'" "length qs \<le> length (concat gs)" "stepped opts (c # cs) g1 cs n prov st st1"
  shows "streamed_to opts g ((c # cs) # gs) ((g1, prov) # qs) (n + m) st st'"
proof -
  have "after_calls opts (Suc (ss_point st)) g1 (concat gs) qs m ((driven opts (ss_point st) g1 cs n prov (erase (ss_r st)))\<lparr>rp_rec := extended (rp_rec (ss_r st)) (c # cs)\<rparr>)
     = (after_calls opts (ss_point st) g (c # cs @ concat gs) ((g1, prov) # qs) (n + m) (erase (ss_r st)))\<lparr>rp_rec := extended (rp_rec (ss_r st)) (c # cs)\<rparr>"
    unfolding after_driven[OF assms(2), symmetric] by (simp add: after_calls_def Let_def)
  then show ?thesis using assms(1,3) stepped_fields[OF assms(3)] by (simp add: streamed_to_def stepped_def extended_extended)
qed

lemma streamed_to_unchecked:
  assumes "streamed_to opts g gs qs n st st'"
  shows "rs_UncheckedImportCalls (rp_result (ss_r st')) = rs_UncheckedImportCalls (rp_result (ss_r st)) + n"
proof -
  have "rp_result (erase (ss_r st')) = rp_result (after_calls opts (ss_point st) g (concat gs) qs n (erase (ss_r st)))"
    using assms by (simp add: streamed_to_def)
  then show ?thesis by (simp add: after_calls_def)
qed

lemma stream_sound:
  assumes "run_steps (\<lambda>st grp. stream_group fo rt opts None grp st) st gs = Inr st'"
    "groups_ok (length (r_Crossings (rp_rec (ss_r st)))) gs" "ss_guest st = Some g" "\<not> ss_shared st" "hook_accepts opts" "defers (ss_r st)"
    "rp_cursor (ss_r st') = length (r_Crossings (rp_rec (ss_r st')))" "rp_deferredValueless (ss_r st') = None \<or> \<not> r_MarkersIdentifyImports recF"
    "r_HostState recF = r_HostState (rp_rec (ss_r st))" "r_MarkersIdentifyImports recF = r_MarkersIdentifyImports (extended (rp_rec (ss_r st)) (concat gs))"
  shows "\<exists>qs n. performs fo rt recF (rp_imports (ss_r st)) g (rp_providers (ss_r st)) (concat gs) qs n \<and> length qs = length gs \<and>
    rp_cursor (ss_r st) = length (r_Crossings (rp_rec (ss_r st))) \<and> streamed_to opts g gs qs n st st' \<and>
    list_all (\<lambda>grp. checkExportCrossing opts (hd grp) = Inr () \<and> filter nested grp = []) gs"
  using assms
proof (induction gs arbitrary: st g)
  case Nil
  then show ?case using performs.finished[of fo rt recF "rp_imports (ss_r st)" g "rp_providers (ss_r st)"] streamed_to_none[of st g opts] by force
next
  case (Cons grp gs)
  let ?rec = "rp_rec (ss_r st)"
  let ?b = "length (r_Crossings ?rec)"
  have ok: "group_ok ?b grp" "groups_ok (?b + length grp) gs" using Cons.prems(2) by auto
  obtain c cs where grp: "grp = c # cs" using ok(1) by (cases grp) (auto simp: group_ok_def)
  obtain st1 where st1: "stream_group fo rt opts None grp st = Inr st1" and rest: "run_steps (\<lambda>st grp. stream_group fo rt opts None grp st) st1 gs = Inr st'"
    using Cons.prems(1) by (auto simp: bind_res_eq_Inr)
  obtain cs1 n1 g1 prov where nn: "filter nested grp = []" "checkExportCrossing opts c = Inr ()" "rp_cursor (ss_r st) = ?b"
    and c: "calls fo rt (extended ?rec grp) (rp_imports (ss_r st)) g (rp_providers (ss_r st)) c cs1 n1 g1 prov" "prefix cs1 cs"
    and s: "stepped opts grp g1 cs1 n1 prov st st1"
    using stream_step_sound[OF Cons.prems(3-5) ok(1)[unfolded grp] Cons.prems(6) st1[unfolded grp]] unfolding grp by blast
  note f = stepped_fields[OF s]
  obtain qs m where
    i: "performs fo rt recF (rp_imports (ss_r st)) g1 prov (concat gs) qs m" "length qs = length gs" "rp_cursor (ss_r st1) = ?b + length grp"
      "streamed_to opts g1 gs qs m st1 st'" "list_all (\<lambda>grp. checkExportCrossing opts (hd grp) = Inr () \<and> filter nested grp = []) gs"
    using Cons.IH[OF rest, of g1] ok(2) s Cons.prems(5,7-10) unfolding f by (auto simp: stepped_def extended_extended)
  have "length cs1 = length cs" using i(3) f(4) nn(3) by (simp add: grp)
  with c(2) have cs1: "cs1 = cs" by (auto simp: prefix_def)
  have "calls fo rt recF (rp_imports (ss_r st)) g (rp_providers (ss_r st)) c cs n1 g1 prov"
  proof (cases "r_MarkersIdentifyImports recF")
    case True
    then have "n1 = 0" using Cons.prems(8) i(4) streamed_to_unchecked[OF i(4)] f(6) by (simp add: streamed_to_def defers_def)
    then show ?thesis using c(1) True Cons.prems(9) unfolding cs1 by (auto elim!: calls_cong intro: plays_checked)
  next
    case False
    then show ?thesis using c(1) Cons.prems(9,10) unfolding cs1 by (auto elim!: calls_cong intro: plays_flag_same)
  qed
  then have "performs fo rt recF (rp_imports (ss_r st)) g (rp_providers (ss_r st)) (c # cs @ concat gs) ((g1, prov) # qs) (n1 + m)"
    using i(1) ok(1) by (intro performs.call) (auto simp: group_ok_def grp toplevel_def)
  moreover have "streamed_to opts g (grp # gs) ((g1, prov) # qs) (n1 + m) st st'"
    using performs_exports[OF i(1)] s unfolding grp cs1 by (intro streamed_to_Cons[OF i(4)]) simp_all
  ultimately show ?case using i(2,5) nn by (intro exI[of _ "(g1, prov) # qs"] exI[of _ "n1 + m"]) (simp add: grp)
qed

lemma split_toplevel:
  assumes "xs @ ys = us @ vs" "list_all (\<lambda>c. \<not> toplevel c) xs" "list_all (\<lambda>c. \<not> toplevel c) us"
    "ys = [] \<or> toplevel (hd ys)" "vs = [] \<or> toplevel (hd vs)"
  shows "xs = us \<and> ys = vs"
proof -
  have "takeWhile (\<lambda>c. \<not> toplevel c) (as @ bs) = as" if "list_all (\<lambda>c. \<not> toplevel c) as" "bs = [] \<or> toplevel (hd bs)" for as bs
    using that by (cases bs) (auto simp: list_all_iff takeWhile_append)
  from this[OF assms(2,4)] this[OF assms(3,5)] show ?thesis using assms(1) by (metis append_eq_conv_conj)
qed

inductive_cases performs_ConsE: "performs fo rt rec ps g st (c # cs) qs n"

lemma groups_ok_hd: "groups_ok b gs \<Longrightarrow> concat gs = [] \<or> toplevel (hd (concat gs))"
  by (cases gs) (auto simp: group_ok_def)

lemma performs_group:
  assumes "performs fo rt rec ps g st (c # cs @ rest) qs n" "list_all (\<lambda>c. \<not> toplevel c) cs" "rest = [] \<or> toplevel (hd rest)"
  obtains g1 prov qs1 n1 m where "qs = (g1, prov) # qs1" "n = n1 + m" "calls fo rt rec ps g st c cs n1 g1 prov" "performs fo rt rec ps g1 prov rest qs1 m"
  using assms(1)
proof (rule performs_ConsE)
  fix ds n1 g1 prov rest1 qs1 m
  assume h: "cs @ rest = ds @ rest1" "qs = (g1, prov) # qs1" "n = n1 + m" "calls fo rt rec ps g st c ds n1 g1 prov" "performs fo rt rec ps g1 prov rest1 qs1 m"
  have "list_all (\<lambda>c. \<not> toplevel c) ds" using calls_imports[OF h(4)] by (simp add: list_all_iff filter_empty_conv)
  moreover have "rest1 = [] \<or> toplevel (hd rest1)" using performs_first[OF h(5)] by (auto split: if_splits)
  ultimately have "cs = ds" "rest = rest1" using split_toplevel[OF h(1) assms(2)] assms(3) by auto
  then show thesis using that h by blast
qed

lemma calls_import_crossings: "calls fo rt rec ps g st c cs n g' st' \<Longrightarrow> \<forall>c\<in>set cs. c_Kind c = CrossingImport"
  by (auto simp: calls_def dest: plays_imports)

lemma stream_complete:
  assumes "performs fo rt recF (rp_imports (ss_r st)) g (rp_providers (ss_r st)) (concat gs) qs n"
    "groups_ok (length (r_Crossings (rp_rec (ss_r st)))) gs" "ss_guest st = Some g" "\<not> ss_shared st" "hook_accepts opts" "defers (ss_r st)"
    "rp_cursor (ss_r st) = length (r_Crossings (rp_rec (ss_r st)))" "rp_err (ss_r st) = None"
    "list_all (\<lambda>grp. checkExportCrossing opts (hd grp) = Inr () \<and> filter nested grp = []) gs"
    "r_HostState recF = r_HostState (rp_rec (ss_r st))" "r_MarkersIdentifyImports recF = r_MarkersIdentifyImports (extended (rp_rec (ss_r st)) (concat gs))"
    "\<forall>c\<in>set (concat gs). c_Kind c = CrossingImport \<longrightarrow> c_markerBracketed c \<or> c_Args c \<noteq> [] \<or> c_Results c \<noteq> []"
  shows "\<exists>st'. run_steps (\<lambda>st grp. stream_group fo rt opts None grp st) st gs = Inr st' \<and> streamed_to opts g gs qs n st st'"
  using assms
proof (induction gs arbitrary: st g qs n)
  case Nil
  have "qs = [] \<and> n = 0" using Nil.prems(1) by (auto elim: performs.cases)
  then show ?case using streamed_to_none[OF Nil.prems(3,4,6)] by simp
next
  case (Cons grp gs)
  let ?rec = "rp_rec (ss_r st)"
  let ?b = "length (r_Crossings ?rec)"
  have ok: "group_ok ?b grp" "groups_ok (?b + length grp) gs" using Cons.prems(2) by auto
  obtain c cs where grp: "grp = c # cs" and tl: "list_all (\<lambda>c. \<not> toplevel c) cs" using ok(1) by (cases grp) (auto simp: group_ok_def)
  obtain g1 prov qs1 n1 m where q: "qs = (g1, prov) # qs1" "n = n1 + m" and c: "calls fo rt recF (rp_imports (ss_r st)) g (rp_providers (ss_r st)) c cs n1 g1 prov"
    and rest: "performs fo rt recF (rp_imports (ss_r st)) g1 prov (concat gs) qs1 m"
    by (rule performs_group[OF _ tl groups_ok_hd[OF ok(2)]]) (use Cons.prems(1) in \<open>simp add: grp\<close>)
  have "calls fo rt (extended ?rec grp) (rp_imports (ss_r st)) g (rp_providers (ss_r st)) c cs n1 g1 prov"
  proof (cases "r_MarkersIdentifyImports (extended ?rec grp) = r_MarkersIdentifyImports recF")
    case True
    show ?thesis by (rule calls_cong[OF c], erule plays_flag_same) (simp add: Cons.prems(10), rule True)
  next
    case False
    then have F: "r_MarkersIdentifyImports recF" "\<forall>c\<in>set grp. \<not> c_markerBracketed c" using Cons.prems(11) by auto
    then have "\<forall>c\<in>set cs. c_Args c \<noteq> [] \<or> c_Results c \<noteq> []" using calls_import_crossings[OF c] Cons.prems(12) by (fastforce simp: grp)
    from calls_cong[OF c plays_valued[OF _ this _ F(1)]] show ?thesis by (simp add: Cons.prems(10))
  qed
  then obtain st1 where st1: "stream_group fo rt opts None grp st = Inr st1" "stepped opts grp g1 cs n1 prov st st1"
    using stream_step_complete[OF Cons.prems(3-5) ok(1)[unfolded grp] Cons.prems(6)] Cons.prems(7-9) unfolding grp by fastforce
  note f = stepped_fields[OF st1(2)]
  obtain st' where st': "run_steps (\<lambda>st grp. stream_group fo rt opts None grp st) st1 gs = Inr st'" "streamed_to opts g1 gs qs1 m st1 st'"
    using Cons.IH[of st1 g1 qs1 m] rest ok(2) st1(2) Cons.prems(5,7-12) unfolding f by (auto simp: stepped_def extended_extended grp)
  have "streamed_to opts g (grp # gs) qs n st st'"
    unfolding q grp using performs_exports[OF rest] st1(2) by (intro streamed_to_Cons[OF st'(2)]) (simp_all add: grp)
  then show ?case using st1(1) st'(1) by auto
qed

subsection \<open>The start\<close>

lemma planImports_erase: "planImports opts (erase r) = map_sum id erase (planImports opts r)"
  by (cases "map_res (plan_import (op_Manifest opts)) (zip [0..<length (cm_ImportedFunctions (op_Compiled opts))] (cm_ImportedFunctions (op_Compiled opts)))")
    (simp_all add: planImports_def Let_def erase_updates)

lemma instantiateHostModules_erase: "instantiateHostModules fo rt (erase r) = map_sum id erase (instantiateHostModules fo rt r)"
  unfolding instantiateHostModules_def erase_fields
  by (cases "run_steps attach_func (providerModules (r_HostState (rp_rec r))) (rp_imports r)")
    (auto simp: bind_res_def erase_updates split: sum.split)

lemma prepare_erase: "prepare fo rt opts (erase r) = map_sum id (map_prod erase id) (prepare fo rt opts r)"
proof (cases "planImports opts r")
  case (Inr r1)
  have m: "checkImportedMemories opts (erase r1) = checkImportedMemories opts r1" by (simp add: checkImportedMemories_def)
  show ?thesis
  proof (cases "checkImportedMemories opts r1")
    case (Inr u)
    with m \<open>planImports opts r = Inr r1\<close> show ?thesis
      by (cases "instantiateHostModules fo rt r1")
        (auto simp: prepare_def planImports_erase instantiateHostModules_erase run_act_erase applyInitialMemory_def bind_res_def erase_updates
          split: sum.split prod.split option.split)
  qed (simp add: prepare_def planImports_erase m Inr)
qed (simp add: prepare_def planImports_erase)

lemma erase_new: "erase (newReplayer rec True) = newReplayer rec False"
  by (simp add: erase_def newReplayer_def)

lemma defers_new: "defers (newReplayer rec True)"
  by (simp add: defers_def newReplayer_def)

lemma prepare_defers:
  assumes "prepare fo rt opts r = Inr (r', g)" "defers r"
  shows "defers r'"
proof -
  obtain r1 where r1: "planImports opts r = Inr r1" using assms(1) by (auto simp: prepare_def bind_res_eq_Inr)
  then have d1: "rp_planned r1" "defers r1" using assms(2) by (auto simp: planImports_def defers_def bind_res_eq_Inr Let_def split: if_splits)
  then have "prepare fo rt opts r1 = Inr (r', g)" using assms(1) r1 by (simp add: prepare_def planImports_def)
  then obtain r2 r3 vs st where p: "instantiateHostModules fo rt r1 = Inr r2" "run_act fo (rt_instantiate rt (rp_providers r2)) r2 = (r3, Some (g, vs))"
      "r' = r3\<lparr>rp_providers := st\<rparr>"
    using prepare_planned[OF d1(1)] by blast
  obtain sto where "r2 = r1\<lparr>rp_providers := sto\<rparr>" using instantiateHostModules_fields[OF p(1)] by blast
  then have "defers r2" using d1(2) by (simp add: defers_def)
  then have "defers r3" using run_act_defers[of r2 fo "rt_instantiate rt (rp_providers r2)"] p(2) by simp
  then show ?thesis by (simp add: p(3) defers_def)
qed

text \<open>Instantiation under a recording none of whose crossings it consumes.\<close>

definition starts :: "float_ops \<Rightarrow> 'g Runtime \<Rightarrow> 'g Options \<Rightarrow> Recording \<Rightarrow> importPlan list \<Rightarrow> nat \<Rightarrow> 'g \<Rightarrow> store \<Rightarrow> bool" where
  "starts fo rt opts rec ps n g st \<longleftrightarrow> (\<exists>r1 r2 st0 vs. planImports opts (newReplayer rec False) = Inr r1 \<and> rp_imports r1 = ps \<and>
     checkImportedMemories opts r1 = Inr () \<and> instantiateHostModules fo rt r1 = Inr r2 \<and>
     plays fo rec ps (rt_instantiate rt (rp_providers r2)) [] n g st0 vs \<and> apply_initial (r_HostState rec) st0 = Inr st)"

definition begun :: "Recording \<Rightarrow> importPlan list \<Rightarrow> nat \<Rightarrow> store \<Rightarrow> 'g replayer \<Rightarrow> bool" where
  "begun rec ps n st r \<longleftrightarrow> rp_rec r = rec \<and> rp_imports r = ps \<and> rp_cursor r = 0 \<and> rp_err r = None \<and> rp_providers r = st \<and> rp_points r = [] \<and>
     rp_result r = \<lparr>rs_ExportCalls = 0, rs_ImportCalls = 0, rs_UncheckedImportCalls = n, rs_FromPoint = 0, rs_ToPoint = 0\<rparr> \<and> defers r"

lemma planImports_rec: "planImports opts (newReplayer rec d) = Inr r1 \<Longrightarrow> planImports opts (newReplayer rec' d) = Inr (r1\<lparr>rp_rec := rec'\<rparr>)"
  by (auto simp: planImports_def newReplayer_def bind_res_eq_Inr Let_def)

lemma starts_cong:
  assumes "starts fo rt opts rec ps n g st" "r_HostState rec' = r_HostState rec"
    "r_MarkersIdentifyImports rec' = r_MarkersIdentifyImports rec \<or> n = 0"
  shows "starts fo rt opts rec' ps n g st"
proof -
  obtain r1 r2 st0 vs where p: "planImports opts (newReplayer rec False) = Inr r1" "rp_imports r1 = ps" "checkImportedMemories opts r1 = Inr ()"
    "instantiateHostModules fo rt r1 = Inr r2" "plays fo rec ps (rt_instantiate rt (rp_providers r2)) [] n g st0 vs" "apply_initial (r_HostState rec) st0 = Inr st"
    using assms(1) unfolding starts_def by blast
  have r1: "rp_rec r1 = rec" by (rule planImports_new[OF p(1)])
  have "plays fo rec' ps (rt_instantiate rt (rp_providers r2)) [] n g st0 vs"
  proof (cases "r_MarkersIdentifyImports rec' = r_MarkersIdentifyImports rec")
    case False
    then have "n = 0" using assms(3) by blast
    then show ?thesis using False plays_checked[OF p(5) _ assms(2)] plays_valued[OF p(5) _ assms(2)] by (cases "r_MarkersIdentifyImports rec") auto
  qed (rule plays_flag_same[OF p(5) assms(2)])
  moreover have "checkImportedMemories opts (r1\<lparr>rp_rec := rec'\<rparr>) = Inr ()"
    using p(3) by (simp add: checkImportedMemories_def undescribedImportedMemory_def assms(2) r1)
  moreover obtain sto where "instantiateHostModules fo rt (r1\<lparr>rp_rec := rec'\<rparr>) = Inr (r1\<lparr>rp_rec := rec', rp_providers := sto\<rparr>)" "rp_providers r2 = sto"
    using p(4) by (auto simp: instantiateHostModules_def assms(2) r1 bind_res_eq_Inr)
  ultimately show ?thesis unfolding starts_def using planImports_rec[OF p(1), of rec'] p(2,6) assms(2)
    by (intro exI[of _ "r1\<lparr>rp_rec := rec'\<rparr>"] exI[of _ "r1\<lparr>rp_rec := rec', rp_providers := sto\<rparr>"] exI[of _ st0] exI[of _ vs]) simp
qed

lemma begun_advance:
  assumes "planImports opts (newReplayer rec False) = Inr r1" "instantiateHostModules fo rt r1 = Inr r3" "erase r = advance r3 0 n st" "defers r"
  shows "begun rec (rp_imports r1) n st r"
proof -
  note p = planImports_new[OF assms(1)]
  obtain sto where r3: "r3 = r1\<lparr>rp_providers := sto\<rparr>" using instantiateHostModules_fields[OF assms(2)] by blast
  from arg_cong[OF assms(3), of rp_rec] arg_cong[OF assms(3), of rp_imports] arg_cong[OF assms(3), of rp_cursor] arg_cong[OF assms(3), of rp_err]
    arg_cong[OF assms(3), of rp_providers] arg_cong[OF assms(3), of rp_points] arg_cong[OF assms(3), of rp_result] assms(4)
  show ?thesis by (simp add: begun_def r3 p advance_def)
qed

lemma plan_before_prepare: "planImports opts r0 = Inr r1 \<Longrightarrow> prepare fo rt opts r0 = prepare fo rt opts r1"
  by (auto simp: prepare_def planImports_def bind_res_eq_Inr Let_def split: if_splits)

lemma prepare_starts:
  assumes "prepare fo rt opts (newReplayer rec True) = Inr (r, g)" "rp_err r = None" "r_Crossings rec = []"
  shows "\<exists>ps n. starts fo rt opts rec ps n g (rp_providers r) \<and> begun rec ps n (rp_providers r) r"
proof -
  have e: "prepare fo rt opts (newReplayer rec False) = Inr (erase r, g)" using assms(1) prepare_erase[of fo rt opts "newReplayer rec True"] by (simp add: erase_new)
  then obtain r1 where r1: "planImports opts (newReplayer rec False) = Inr r1" by (auto simp: prepare_def bind_res_eq_Inr)
  have "prepare fo rt opts r1 = Inr (erase r, g) \<and> rp_err (erase r) = None" using e assms(2) by (simp add: plan_before_prepare[OF r1])
  from this[unfolded prepare_reproduces[OF r1]] obtain r3 cs0 n st0 vs st1 where
    p: "checkImportedMemories opts r1 = Inr ()" "instantiateHostModules fo rt r1 = Inr r3"
     "plays fo rec (rp_imports r1) (rt_instantiate rt (rp_providers r3)) cs0 n g st0 vs" "cs0 = []" "apply_initial (r_HostState rec) st0 = Inr st1"
     "erase r = advance r3 (length cs0) n st1" using assms(3) by auto
  have "rp_providers r = st1" using arg_cong[OF p(6), of rp_providers] by simp
  then show ?thesis using begun_advance[OF r1 p(2) _ prepare_defers[OF assms(1) defers_new], of n st1] p r1 unfolding starts_def by auto
qed

lemma starts_prepare:
  assumes "starts fo rt opts rec ps n g st" "r_Crossings rec = []"
  shows "\<exists>r. prepare fo rt opts (newReplayer rec True) = Inr (r, g) \<and> begun rec ps n st r"
proof -
  obtain r1 r3 st0 vs where p: "planImports opts (newReplayer rec False) = Inr r1" "rp_imports r1 = ps" "checkImportedMemories opts r1 = Inr ()"
    "instantiateHostModules fo rt r1 = Inr r3" "plays fo rec ps (rt_instantiate rt (rp_providers r3)) [] n g st0 vs" "apply_initial (r_HostState rec) st0 = Inr st"
    using assms(1) unfolding starts_def by blast
  then have "prepare fo rt opts r1 = Inr (advance r3 0 n st, g)" using iffD2[OF prepare_reproduces[OF p(1), of fo rt "advance r3 0 n st" g]] by fastforce
  then have "map_sum id (map_prod erase id) (prepare fo rt opts (newReplayer rec True)) = Inr (advance r3 0 n st, g)"
    by (simp add: prepare_erase[symmetric] erase_new plan_before_prepare[OF p(1)])
  then obtain r where r: "prepare fo rt opts (newReplayer rec True) = Inr (r, g)" "erase r = advance r3 0 n st"
    by (cases "prepare fo rt opts (newReplayer rec True)") auto
  then show ?thesis using begun_advance[OF p(1,4) r(2) prepare_defers[OF r(1) defers_new]] p(2) by blast
qed

subsection \<open>The whole stream\<close>

lemma groups_ok_toplevel: "groups_ok b gs \<Longrightarrow> filter toplevel (concat gs) = map hd gs"
proof (induction gs arbitrary: b)
  case (Cons grp gs)
  then obtain c cs where "grp = c # cs" "toplevel c" "list_all (\<lambda>c. \<not> toplevel c) cs" by (cases grp) (auto simp: group_ok_def)
  then show ?case using Cons by (auto simp: list_all_iff)
qed simp

lemma groups_ok_numbered: "groups_ok b gs \<Longrightarrow> map c_Seq (concat gs) = [b..<b + length (concat gs)]"
proof (induction gs arbitrary: b)
  case (Cons grp gs)
  have "[b..<b + length grp] @ [b + length grp..<b + length grp + length (concat gs)] = [b..<b + (length grp + length (concat gs))]"
    by (metis add.assoc le_add1 upt_add_eq_append)
  then show ?case using Cons.IH[of "b + length grp"] Cons.prems by (simp add: group_ok_def)
qed simp

lemma groups_checked:
  assumes "groups_ok b gs" "r_Crossings rec = concat gs"
  shows "list_all (\<lambda>grp. checkExportCrossing opts (hd grp) = Inr () \<and> filter nested grp = []) gs \<longleftrightarrow> checkExports opts rec = Inr () \<and> NestedExports rec = []"
proof -
  have "checkExports opts rec = Inr () \<longleftrightarrow> list_all (\<lambda>grp. checkExportCrossing opts (hd grp) = Inr ()) gs"
    unfolding checkExports_def TopLevelExports_filter assms(2) groups_ok_toplevel[OF assms(1)] by (induction gs) (auto simp: bind_res_eq_Inr)
  moreover have "NestedExports rec = [] \<longleftrightarrow> list_all (\<lambda>grp. filter nested grp = []) gs"
    unfolding NestedExports_def assms(2) by (auto simp: list_all_iff nested_def filter_empty_conv)
  ultimately show ?thesis by (auto simp: list_all_iff)
qed

lemma reproduces_starts:
  assumes "groups_ok 0 gs" "gs \<noteq> []" "r_Crossings rec = concat gs"
  shows "reproduces fo rt opts rec qs n \<longleftrightarrow> qs \<noteq> [] \<and> checkExports opts rec = Inr () \<and> NestedExports rec = [] \<and>
    (\<exists>ps n0 m. starts fo rt opts rec ps n0 (fst (hd qs)) (snd (hd qs)) \<and> performs fo rt rec ps (fst (hd qs)) (snd (hd qs)) (concat gs) (tl qs) m \<and> n = n0 + m)" (is "?L \<longleftrightarrow> ?R")
proof
  assume ?L
  then obtain r1 r2 cs0 n0 g0 st0 vs st1 cs m where p: "planImports opts (newReplayer rec False) = Inr r1" "checkExports opts rec = Inr ()" "NestedExports rec = []"
     "checkImportedMemories opts r1 = Inr ()" "instantiateHostModules fo rt r1 = Inr r2"
     "plays fo rec (rp_imports r1) (rt_instantiate rt (rp_providers r2)) cs0 n0 g0 st0 vs"
     "apply_initial (r_HostState rec) st0 = Inr st1" "performs fo rt rec (rp_imports r1) g0 st1 cs (tl qs) m"
     and qs: "qs \<noteq> []" "hd qs = (g0, st1)" and cr: "r_Crossings rec = cs0 @ cs" and n: "n = n0 + m"
    unfolding reproduces_def by blast
  obtain grp gs' where gs: "gs = grp # gs'" "group_ok 0 grp" using assms(1,2) by (cases gs) auto
  then obtain c cs' where "concat gs = c # cs'" "toplevel c" by (cases grp) (auto simp: group_ok_def)
  then have "cs0 = []" using plays_imports[OF p(6)] cr assms(3) by (cases cs0) (auto simp: toplevel_def)
  then show ?R unfolding starts_def using p qs cr n assms(3) by auto
next
  assume r: ?R
  then obtain ps n0 m where s: "starts fo rt opts rec ps n0 (fst (hd qs)) (snd (hd qs))"
    "performs fo rt rec ps (fst (hd qs)) (snd (hd qs)) (concat gs) (tl qs) m" "n = n0 + m" by blast
  from s(1) obtain r1 r2 st0 vs where p: "planImports opts (newReplayer rec False) = Inr r1" "rp_imports r1 = ps" "checkImportedMemories opts r1 = Inr ()"
    "instantiateHostModules fo rt r1 = Inr r2" "plays fo rec ps (rt_instantiate rt (rp_providers r2)) [] n0 (fst (hd qs)) st0 vs"
    "apply_initial (r_HostState rec) st0 = Inr (snd (hd qs))" unfolding starts_def by blast
  show ?L unfolding reproduces_def using r s(2,3) p assms(3)
    by (intro exI[of _ r1] exI[of _ r2] exI[of _ "[]"] exI[of _ n0] exI[of _ "fst (hd qs)"] exI[of _ st0] exI[of _ vs] exI[of _ "snd (hd qs)"]
        exI[of _ "concat gs"] exI[of _ m]) simp
qed

text \<open>A stream without host state that carries the groups \<open>gs\<close> and ends.\<close>

inductive yields :: "float_ops \<Rightarrow> (string \<Rightarrow> json option) \<Rightarrow> StreamReader \<Rightarrow> Crossing list list \<Rightarrow> bool" for fo js where
  ended: "NextGroup fo js s = (s', Inr None) \<Longrightarrow> StreamReader_HostState s' = None \<Longrightarrow> yields fo js s []"
| another: "NextGroup fo js s = (s', Inr (Some grp)) \<Longrightarrow> StreamReader_HostState s' = None \<Longrightarrow> yields fo js s' gs \<Longrightarrow> yields fo js s (grp # gs)"

abbreviation drive_groups :: "float_ops \<Rightarrow> 'g Runtime \<Rightarrow> 'g Options \<Rightarrow> 'g stream_state \<Rightarrow> Crossing list list \<Rightarrow> replay_error + 'g stream_state" where
  "drive_groups fo rt opts \<equiv> run_steps (\<lambda>st grp. stream_group fo rt opts None grp st)"

lemma stream_loop_yields:
  "yields fo js src gs \<Longrightarrow> \<exists>src'. StreamReader_HostState src' = None \<and>
    (\<forall>st. stream_loop fo js rt opts src st = bind_res (drive_groups fo rt opts st gs) (\<lambda>st'. Inr (src', st', None)))"
proof (induction rule: yields.induct)
  case (ended s s')
  then show ?case by (intro exI[of _ s']) (simp add: stream_loop.simps)
next
  case (another s s' grp gs)
  then obtain src' where i: "StreamReader_HostState src' = None"
    "\<And>st. stream_loop fo js rt opts s' st = bind_res (drive_groups fo rt opts st gs) (\<lambda>st'. Inr (src', st', None))" by blast
  have "stream_loop fo js rt opts s st = bind_res (drive_groups fo rt opts st (grp # gs)) (\<lambda>st'. Inr (src', st', None))" for st
    using another(1,2) by (cases "stream_group fo rt opts None grp st") (simp_all add: stream_loop.simps[of _ _ _ _ s] i(2))
  then show ?case using i(1) by blast
qed

definition started :: "'g Options \<Rightarrow> 'g replayer \<Rightarrow> 'g \<Rightarrow> 'g stream_state" where
  "started opts r g = \<lparr>ss_r = at_point opts 0 g r, ss_guest = Some g, ss_point = 0, ss_shared = False\<rparr>"

abbreviation unprepared :: "Recording \<Rightarrow> 'g stream_state" where
  "unprepared rec \<equiv> \<lparr>ss_r = newReplayer rec True, ss_guest = None, ss_point = 0, ss_shared = False\<rparr>"

lemma prepareOnce_started:
  assumes "hook_accepts opts"
  shows "prepareOnce fo rt opts None (unprepared rec) = bind_res (prepare fo rt opts (newReplayer rec True)) (\<lambda>(r, g). Inr (started opts r g))"
proof -
  have r: "(newReplayer rec True)\<lparr>rp_rec := rec\<rparr> = newReplayer rec True" "rp_rec (newReplayer rec True) = rec" by (simp_all add: newReplayer_def)
  have h: "reconcileHostState x None = Inr x" for x by (cases x) (simp_all add: reconcileHostState_def)
  show ?thesis by (cases "prepare fo rt opts (newReplayer rec True)")
      (auto simp: prepareOnce_def Let_def h r atQuiescentPoint_accepts[OF assms] started_def at_point_def)
qed

lemma prepare_undescribed: "undescribedImportedMemory (op_Compiled opts) rec = Some x \<Longrightarrow> \<exists>e. prepare fo rt opts (newReplayer rec d) = Inl e"
proof (cases "planImports opts (newReplayer rec d)")
  case (Inr r1)
  moreover assume "undescribedImportedMemory (op_Compiled opts) rec = Some x"
  ultimately show ?thesis using planImports_new(1)[OF Inr] by (simp add: prepare_def checkImportedMemories_def split: prod.split)
qed (simp add: prepare_def)

lemma prepareOnce_kept: "prepareOnce fo rt opts None st = Inr st1 \<Longrightarrow> \<not> ss_shared st \<Longrightarrow> ss_guest st1 \<noteq> None \<and> \<not> ss_shared st1"
  by (cases "ss_guest st") (auto simp: prepareOnce_def Let_def bind_res_eq_Inr)

lemma drive_unprepared:
  assumes "hook_accepts opts" "gs \<noteq> []"
  shows "drive_groups fo rt opts (unprepared rec) gs = bind_res (prepareOnce fo rt opts None (unprepared rec)) (\<lambda>st. drive_groups fo rt opts st gs)"
proof -
  obtain grp gs' where gs: "gs = grp # gs'" using assms(2) by (cases gs) auto
  have "stream_group fo rt opts None grp (unprepared rec) = bind_res (prepareOnce fo rt opts None (unprepared rec)) (stream_group fo rt opts None grp)"
  proof (cases "prepareOnce fo rt opts None (unprepared rec :: 'a stream_state)")
    case (Inr st)
    then have "ss_guest st \<noteq> None" "\<not> ss_shared st" using prepareOnce_kept[OF Inr] by simp_all
    then have "prepareOnce fo rt opts None st = Inr st" "sync_host None st = st" by (auto simp: prepareOnce_def sync_host_def)
    then show ?thesis using Inr by (simp add: stream_group_def sync_host_def)
  qed (simp add: stream_group_def sync_host_def)
  then show ?thesis by (simp add: gs bind_res_assoc)
qed

definition ended_at :: "'g stream_state \<Rightarrow> 'g stream_state" where
  "ended_at st = st\<lparr>ss_r := (ss_r st)\<lparr>rp_result := (rp_result (ss_r st))\<lparr>rs_FromPoint := 0, rs_ToPoint := ss_point st\<rparr>\<rparr>\<rparr>"

lemma stream_group_kept:
  assumes "stream_group fo rt opts None grp st = Inr st1" "\<not> ss_shared st"
  shows "ss_guest st1 \<noteq> None \<and> \<not> ss_shared st1"
proof -
  obtain st0 where s: "prepareOnce fo rt opts None st = Inr st0" using assms by (auto simp: stream_group_def sync_host_def bind_res_eq_Inr)
  then obtain x where x: "appendGroup (rp_rec (ss_r st0)) grp = Inr x" using assms by (auto simp: stream_group_def sync_host_def bind_res_eq_Inr)
  show ?thesis using assms prepareOnce_kept[OF s assms(2)] s x
    by (auto simp: stream_group_def sync_host_def bind_res_eq_Inr Let_def split: prod.splits)
qed

lemma drive_groups_kept: "drive_groups fo rt opts st gs = Inr st1 \<Longrightarrow> ss_guest st \<noteq> None \<Longrightarrow> \<not> ss_shared st \<Longrightarrow> ss_guest st1 \<noteq> None \<and> \<not> ss_shared st1"
  by (induction gs arbitrary: st) (auto simp: bind_res_eq_Inr dest: stream_group_kept)

lemma drive_started:
  assumes "hook_accepts opts" "gs \<noteq> []"
  shows "bind_res (case undescribedImportedMemory (op_Compiled opts) rec of None \<Rightarrow> prepareOnce fo rt opts None (unprepared rec) | Some _ \<Rightarrow> Inr (unprepared rec))
      (\<lambda>st. drive_groups fo rt opts st gs) = Inr st2 \<longleftrightarrow>
    (\<exists>r g. prepare fo rt opts (newReplayer rec True) = Inr (r, g) \<and> drive_groups fo rt opts (started opts r g) gs = Inr st2)"
proof (cases "undescribedImportedMemory (op_Compiled opts) rec")
  case None
  then show ?thesis by (auto simp: prepareOnce_started[OF assms(1)] bind_res_eq_Inr)
next
  case (Some x)
  from prepare_undescribed[OF this, of fo rt True] obtain e where e: "prepare fo rt opts (newReplayer rec True) = Inl e" by blast
  show ?thesis by (simp add: Some drive_unprepared[OF assms] prepareOnce_started[OF assms(1)] e)
qed

lemma resolve_Inr: "resolveDeferredValuelessImports r None = Inr u \<longleftrightarrow> rp_deferredValueless r = None \<or> \<not> r_MarkersIdentifyImports (rp_rec r)"
  by (auto simp: resolveDeferredValuelessImports_def split: option.splits)

lemma StreamingReplay_Inr:
  assumes "yields fo js src gs" "StreamReader_HostState src = None" "hook_accepts opts" "gs \<noteq> []" "whole opts" "op_Resume opts = None" "r_Crossings rec = []"
  shows "StreamingReplay fo js rt opts rec src = Inr (st', None) \<longleftrightarrow> (\<exists>r g st. prepare fo rt opts (newReplayer rec True) = Inr (r, g) \<and>
    drive_groups fo rt opts (started opts r g) gs = Inr st \<and> (rp_deferredValueless (ss_r st) = None \<or> \<not> r_MarkersIdentifyImports (rp_rec (ss_r st))) \<and>
    rp_cursor (ss_r st) = length (r_Crossings (rp_rec (ss_r st))) \<and> st' = ended_at st)"
proof -
  obtain src' where l: "StreamReader_HostState src' = None"
    "\<And>st. stream_loop fo js rt opts src st = bind_res (drive_groups fo rt opts st gs) (\<lambda>st'. Inr (src', st', None))"
    using stream_loop_yields[OF assms(1)] by blast
  let ?p = "case undescribedImportedMemory (op_Compiled opts) rec of None \<Rightarrow> prepareOnce fo rt opts None (unprepared rec) | Some _ \<Rightarrow> Inr (unprepared rec)"
  define fin :: "'a stream_state \<Rightarrow> replay_error + 'a stream_state \<times> TruncationError option" where "fin = (\<lambda>st. bind_res (prepareOnce fo rt opts None (sync_host None st)) (\<lambda>st3. bind_res (resolveDeferredValuelessImports (ss_r (ended_at st3)) None) (\<lambda>_.
    if rp_cursor (ss_r st3) \<noteq> length (r_Crossings (rp_rec (ss_r st3))) then Inl (Divergence (CrossingCount (rp_cursor (ss_r st3)) (r_Crossings (rp_rec (ss_r st3)) ! rp_cursor (ss_r st3))))
    else Inr (ended_at st3, None))))"
  have eq: "StreamingReplay fo js rt opts rec src = bind_res (bind_res ?p (\<lambda>st. drive_groups fo rt opts st gs)) fin"
    unfolding StreamingReplay_def Let_def assms(2) using assms(5-7) by (simp add: l whole_def bind_res_assoc ended_at_def fin_def cong: if_cong)
  have e: "fin st = Inr (st', None) \<longleftrightarrow> (rp_deferredValueless (ss_r st) = None \<or> \<not> r_MarkersIdentifyImports (rp_rec (ss_r st))) \<and>
    rp_cursor (ss_r st) = length (r_Crossings (rp_rec (ss_r st))) \<and> st' = ended_at st" if "drive_groups fo rt opts (started opts r g) gs = Inr st" for r g st
    using drive_groups_kept[OF that] by (auto simp: started_def prepareOnce_def sync_host_def bind_res_eq_Inr resolve_Inr ended_at_def fin_def)
  show ?thesis unfolding eq bind_res_eq_Inr[of _ fin] drive_started[OF assms(3,4)] using e by blast
qed

lemma drive_groups_rec:
  "drive_groups fo rt opts st gs = Inr st' \<Longrightarrow> groups_ok (length (r_Crossings (rp_rec (ss_r st)))) gs \<Longrightarrow> ss_guest st \<noteq> None \<Longrightarrow> \<not> ss_shared st \<Longrightarrow>
    hook_accepts opts \<Longrightarrow> defers (ss_r st) \<Longrightarrow> rp_rec (ss_r st') = extended (rp_rec (ss_r st)) (concat gs)"
proof (induction gs arbitrary: st)
  case (Cons grp gs)
  obtain g where g: "ss_guest st = Some g" using Cons.prems(3) by blast
  have ok: "group_ok (length (r_Crossings (rp_rec (ss_r st)))) grp" using Cons.prems(2) by simp
  obtain c cs where grp: "grp = c # cs" using ok by (cases grp) (auto simp: group_ok_def)
  obtain st1 where st1: "stream_group fo rt opts None grp st = Inr st1" "drive_groups fo rt opts st1 gs = Inr st'"
    using Cons.prems(1) by (auto simp: bind_res_eq_Inr)
  obtain cs1 n g1 prov where s: "stepped opts grp g1 cs1 n prov st st1"
    using stream_step_sound[OF g Cons.prems(4,5) ok[unfolded grp] Cons.prems(6) st1(1)[unfolded grp]] unfolding grp by blast
  then show ?case using Cons.IH[OF st1(2)] Cons.prems(2,5) stepped_fields(1)[OF s] by (simp add: stepped_def extended_extended)
qed (simp add: extended_extended)

lemma drive_groups_err:
  assumes "drive_groups fo rt opts st gs = Inr st'" "gs \<noteq> []" "groups_ok (length (r_Crossings (rp_rec (ss_r st)))) gs" "ss_guest st = Some g" "\<not> ss_shared st" "hook_accepts opts"
  shows "rp_err (ss_r st) = None"
proof -
  obtain grp gs' where gs: "gs = grp # gs'" "group_ok (length (r_Crossings (rp_rec (ss_r st)))) grp" using assms(2,3) by (cases gs) auto
  obtain st1 where "stream_group fo rt opts None grp st = Inr st1" using assms(1) by (auto simp: gs(1) bind_res_eq_Inr)
  then obtain r g' where "callExport fo rt ((ss_r st)\<lparr>rp_rec := extended (rp_rec (ss_r st)) grp\<rparr>) g (hd grp) = Inr (r, g')"
    using stream_group_ok[OF assms(4-6) gs(2)] by blast
  from callExport_no_err[OF this] show ?thesis by simp
qed

lemma prepare_rec:
  assumes "prepare fo rt opts (newReplayer rec d) = Inr (r, g)"
  shows "rp_rec r = rec"
proof -
  obtain r1 where r1: "planImports opts (newReplayer rec d) = Inr r1" using assms by (auto simp: prepare_def bind_res_eq_Inr)
  show ?thesis using prepare_fields(1)[of fo rt opts r1 r g] assms planImports_new(1,2)[OF r1] by (simp add: plan_before_prepare[OF r1])
qed

lemma started_fields:
  assumes "begun rec ps n prov r"
  shows "rp_rec (ss_r (started opts r g)) = rec" "rp_imports (ss_r (started opts r g)) = ps" "rp_providers (ss_r (started opts r g)) = prov" "rp_cursor (ss_r (started opts r g)) = 0"
    "rp_err (ss_r (started opts r g)) = None" "defers (ss_r (started opts r g))" "ss_guest (started opts r g) = Some g" "\<not> ss_shared (started opts r g)" "ss_point (started opts r g) = 0"
    "rs_UncheckedImportCalls (rp_result (ss_r (started opts r g))) = n"
  using assms by (simp_all add: begun_def started_def)

lemma streamed_report:
  assumes "begun rec ps n prov r" "streamed_to opts g gs qs m (started opts r g) st" "length qs = length gs" "groups_ok 0 gs" "r_Crossings rec = []"
  shows "ss_guest (ended_at st) = Some (fst (last ((g, prov) # qs)))" "rp_providers (ss_r (ended_at st)) = snd (last ((g, prov) # qs))"
    "rp_points (ss_r (ended_at st)) = hook_log opts 0 ((g, prov) # qs)" "rp_result (ss_r (ended_at st)) = counts (extended rec (concat gs)) (n + m)"
    "rp_cursor (ss_r st) = length (r_Crossings (rp_rec (ss_r st)))" "rp_rec (ss_r st) = extended rec (concat gs)"
proof -
  note o = started_fields[OF assms(1)]
  have e: "erase (ss_r st) = (after_calls opts 0 g (concat gs) qs m (erase (ss_r (started opts r g))))\<lparr>rp_rec := extended rec (concat gs)\<rparr>"
    and f: "ss_guest st = Some (fst (last ((g, prov) # qs)))" "ss_point st = length gs" using assms(2) by (simp_all add: streamed_to_def o)
  show "ss_guest (ended_at st) = Some (fst (last ((g, prov) # qs)))" by (simp add: ended_at_def f)
  show "rp_providers (ss_r (ended_at st)) = snd (last ((g, prov) # qs))" using arg_cong[OF e, of rp_providers] by (simp add: ended_at_def o)
  have "rp_points (ss_r (started opts r g)) = hook_log opts 0 [(g, prov)]" using assms(1) by (simp add: begun_def started_def)
  then show "rp_points (ss_r (ended_at st)) = hook_log opts 0 ((g, prov) # qs)" using arg_cong[OF e, of rp_points] by (simp add: ended_at_def)
  show "rp_cursor (ss_r st) = length (r_Crossings (rp_rec (ss_r st)))" "rp_rec (ss_r st) = extended rec (concat gs)"
    using arg_cong[OF e, of rp_cursor] arg_cong[OF e, of rp_rec] by (simp_all add: o assms(5))
  have "length (TopLevelExports (extended rec (concat gs))) = length gs" by (simp add: TopLevelExports_filter groups_ok_toplevel[OF assms(4)] assms(5))
  then show "rp_result (ss_r (ended_at st)) = counts (extended rec (concat gs)) (n + m)"
    using arg_cong[OF e, of rp_result] assms(1) by (simp add: ended_at_def f(2) counts_def after_calls_def begun_def started_def assms(3,5))
qed

text \<open>What is asked of the groups: each opens with its call, they are numbered through, and every import call of
  theirs was bracketed by markers or carries a value.\<close>

definition well_grouped :: "Crossing list list \<Rightarrow> bool" where
  "well_grouped gs \<longleftrightarrow> gs \<noteq> [] \<and> groups_ok 0 gs \<and>
     (\<forall>c\<in>set (concat gs). c_Kind c = CrossingImport \<longrightarrow> c_markerBracketed c \<or> c_Args c \<noteq> [] \<or> c_Results c \<noteq> [])"

lemma streaming_sound:
  assumes "yields fo js src gs" "StreamReader_HostState src = None" "hook_accepts opts" "well_grouped gs" "whole opts" "op_Resume opts = None" "r_Crossings rec = []"
    "StreamingReplay fo js rt opts rec src = Inr (st', None)"
  shows "\<exists>qs n. reproduces fo rt opts (extended rec (concat gs)) qs n \<and> ss_guest st' = Some (fst (last qs)) \<and> rp_providers (ss_r st') = snd (last qs) \<and>
    rp_points (ss_r st') = hook_log opts 0 qs \<and> rp_result (ss_r st') = counts (extended rec (concat gs)) n"
proof -
  have w: "gs \<noteq> []" "groups_ok 0 gs" using assms(4) by (simp_all add: well_grouped_def)
  let ?F = "extended rec (concat gs)"
  obtain r g st where p: "prepare fo rt opts (newReplayer rec True) = Inr (r, g)" "drive_groups fo rt opts (started opts r g) gs = Inr st"
    "rp_deferredValueless (ss_r st) = None \<or> \<not> r_MarkersIdentifyImports (rp_rec (ss_r st))" "rp_cursor (ss_r st) = length (r_Crossings (rp_rec (ss_r st)))" "st' = ended_at st"
    using StreamingReplay_Inr[OF assms(1-3) w(1) assms(5-7)] assms(8) by blast
  have "rp_rec r = rec" by (rule prepare_rec[OF p(1)])
  then have "rp_err r = None" using drive_groups_err[OF p(2) w(1), of g] w(2) assms(3,7) by (simp add: started_def)
  from prepare_starts[OF p(1) this assms(7)] obtain ps n where s: "starts fo rt opts rec ps n g (rp_providers r)" and b: "begun rec ps n (rp_providers r) r" by blast
  note o = started_fields[OF b, of opts g]
  have F: "rp_rec (ss_r st) = ?F" using drive_groups_rec[OF p(2)] w(2) assms(3,7) o by simp
  from stream_sound[OF p(2) _ o(7,8) assms(3) o(6) p(4), of ?F] obtain qs m where q: "performs fo rt ?F ps g (rp_providers r) (concat gs) qs m" "length qs = length gs"
    "streamed_to opts g gs qs m (started opts r g) st" "list_all (\<lambda>grp. checkExportCrossing opts (hd grp) = Inr () \<and> filter nested grp = []) gs"
    using p(3) w(2) F unfolding o assms(7) by auto
  have "r_MarkersIdentifyImports ?F = r_MarkersIdentifyImports rec \<or> n = 0"
  proof (cases "r_MarkersIdentifyImports ?F")
    case True
    then have "rp_deferredValueless (ss_r st) = None" using p(3) unfolding F by blast
    then show ?thesis using q(3) streamed_to_unchecked[OF q(3)] o(10) by (simp add: streamed_to_def defers_def)
  qed simp
  then have "starts fo rt opts ?F ps n g (rp_providers r)" by (intro starts_cong[OF s]) simp_all
  then have "reproduces fo rt opts ?F ((g, rp_providers r) # qs) (n + m)"
    using q(1) groups_checked[OF w(2), of ?F opts] q(4) unfolding reproduces_starts[OF w(2,1), of ?F, unfolded extended_fields assms(7) append_Nil, OF refl] by (auto simp: assms(7))
  then show ?thesis using streamed_report[OF b q(3,2) w(2) assms(7)] p(5) by blast
qed

lemma performs_strict: "performs fo rt rec ps g st cs qs n \<Longrightarrow> r_MarkersIdentifyImports rec \<Longrightarrow> n = 0"
  by (induction rule: performs.induct) (auto dest: calls_strict)

lemma streaming_complete:
  assumes "yields fo js src gs" "StreamReader_HostState src = None" "hook_accepts opts" "well_grouped gs" "whole opts" "op_Resume opts = None" "r_Crossings rec = []"
    "reproduces fo rt opts (extended rec (concat gs)) qs n"
  shows "\<exists>st'. StreamingReplay fo js rt opts rec src = Inr (st', None) \<and> ss_guest st' = Some (fst (last qs)) \<and> rp_providers (ss_r st') = snd (last qs) \<and>
    rp_points (ss_r st') = hook_log opts 0 qs \<and> rp_result (ss_r st') = counts (extended rec (concat gs)) n"
proof -
  have w: "gs \<noteq> []" "groups_ok 0 gs" using assms(4) by (simp_all add: well_grouped_def)
  let ?F = "extended rec (concat gs)" and ?g = "fst (hd qs)" and ?prov = "snd (hd qs)"
  have cr: "r_Crossings ?F = concat gs" by (simp add: assms(7))
  obtain ps n0 m where q: "qs \<noteq> []" "checkExports opts ?F = Inr ()" "NestedExports ?F = []" "starts fo rt opts ?F ps n0 ?g ?prov"
    "performs fo rt ?F ps ?g ?prov (concat gs) (tl qs) m" "n = n0 + m"
    using assms(8) unfolding reproduces_starts[OF w(2,1) cr] by blast
  have len: "length (tl qs) = length gs" using performs_exports[OF q(5)] groups_ok_toplevel[OF w(2)] by simp
  have n0: "n0 = 0" if "r_MarkersIdentifyImports ?F" using q(4) that unfolding starts_def by (blast dest: plays_strict)
  then have "starts fo rt opts rec ps n0 ?g ?prov" by (intro starts_cong[OF q(4)]) auto
  from starts_prepare[OF this assms(7)] obtain r where r: "prepare fo rt opts (newReplayer rec True) = Inr (r, ?g)" and b: "begun rec ps n0 ?prov r" by blast
  note o = started_fields[OF b, of opts ?g]
  obtain st where st: "drive_groups fo rt opts (started opts r ?g) gs = Inr st" "streamed_to opts ?g gs (tl qs) m (started opts r ?g) st"
    using stream_complete[of fo rt ?F "started opts r ?g" ?g gs "tl qs" m opts] q(5) w(2) assms(3,4) groups_checked[OF w(2) cr, of opts] q(2,3)
    by (auto simp: o assms(7) well_grouped_def)
  note rep = streamed_report[OF b st(2) len w(2) assms(7)]
  have "m = 0" if "r_MarkersIdentifyImports ?F" using performs_strict[OF q(5) that] .
  then have "rp_deferredValueless (ss_r st) = None \<or> \<not> r_MarkersIdentifyImports (rp_rec (ss_r st))"
    using st(2) streamed_to_unchecked[OF st(2)] n0 o(10) unfolding rep(6) by (auto simp: streamed_to_def defers_def)
  then have "StreamingReplay fo js rt opts rec src = Inr (ended_at st, None)"
    using StreamingReplay_Inr[OF assms(1-3) w(1) assms(5-7)] r st(1) rep(5) by blast
  moreover have "(?g, ?prov) # tl qs = qs" using q(1) by simp
  ultimately show ?thesis using rep(1-4) q(6) by metis
qed

lemma streaming_iff:
  assumes "yields fo js src gs" "StreamReader_HostState src = None" "hook_accepts opts" "well_grouped gs" "whole opts" "op_Resume opts = None" "r_Crossings rec = []"
  shows "(\<exists>st'. StreamingReplay fo js rt opts rec src = Inr (st', None) \<and> ss_guest st' = Some g \<and> rp_providers (ss_r st') = st \<and>
      rp_points (ss_r st') = pts \<and> rp_result (ss_r st') = res) \<longleftrightarrow>
    (\<exists>qs n. reproduces fo rt opts (extended rec (concat gs)) qs n \<and> last qs = (g, st) \<and> pts = hook_log opts 0 qs \<and> res = counts (extended rec (concat gs)) n)"
  (is "?L \<longleftrightarrow> ?R")
proof
  assume ?L
  then obtain st' where s: "StreamingReplay fo js rt opts rec src = Inr (st', None)" "ss_guest st' = Some g" "rp_providers (ss_r st') = st"
      "rp_points (ss_r st') = pts" "rp_result (ss_r st') = res" by blast
  from streaming_sound[OF assms s(1)] s(2-5) show ?R by (metis option.inject prod.collapse)
next
  assume ?R
  then show ?L using streaming_complete[OF assms] by (metis fst_conv snd_conv)
qed

lemma reader_ends:
  "\<exists>n gs s' r. take_groups fo js (Suc n) s = (s', map (\<lambda>g. Inr (Some g)) gs @ [r]) \<and> length gs = n \<and> (r = Inr None \<or> (\<exists>e. r = Inl e))"
proof (induction s rule: wf_induct[OF wf_inv_image[OF wf_lex_prod[OF wf_less_than wf_less_than], of "\<lambda>s. (reader_measure s, undelivered s)"]])
  case (1 s)
  obtain s1 x where x: "NextGroup fo js s = (s1, x)" by force
  show ?case
  proof (cases "\<exists>g. x = Inr (Some g)")
    case True
    then obtain g where g: "x = Inr (Some g)" by blast
    then obtain n gs s' r where i: "take_groups fo js (Suc n) s1 = (s', map (\<lambda>g. Inr (Some g)) gs @ [r])" "length gs = n" "r = Inr None \<or> (\<exists>e. r = Inl e)"
      using 1[unfolded in_inv_image] NextGroup_progress[OF x[unfolded g]] by blast
    then have "take_groups fo js (Suc (Suc n)) s = (s', map (\<lambda>g. Inr (Some g)) (g # gs) @ [r])"
      unfolding take_groups.simps(2)[of _ _ "Suc n"] x by (simp add: g)
    then show ?thesis using i(2,3) by (intro exI[of _ "Suc n"] exI[of _ "g # gs"] exI[of _ s'] exI[of _ r]) simp
  next
    case False
    then have "x = Inr None \<or> (\<exists>e. x = Inl e)" by (cases x) auto
    then show ?thesis by (intro exI[of _ 0] exI[of _ "[]"] exI[of _ s1] exI[of _ x]) (simp add: x)
  qed
qed

section \<open>Properties\<close>


text \<open>The example recording as a stream of two groups.\<close>

definition ex_reader :: StreamReader where
  "ex_reader = \<lparr>sr_src = [], sr_sc = newJSONArrayScanner, sr_asm = newAssembler\<lparr>a_crossings := r_Crossings ex_recording, a_groupEnds := [2, 4]\<rparr>,
     sr_next = 0, sr_eof = True, sr_closed = True, sr_failed = None\<rparr>"

definition ex_groups :: "Crossing list list" where
  "ex_groups = [take 2 (r_Crossings ex_recording), drop 2 (r_Crossings ex_recording)]"

definition ex_start :: Recording where
  "ex_start = ex_recording\<lparr>r_Crossings := [], r_MarkersIdentifyImports := False\<rparr>"

lemma ex_yields: "yields fo js ex_reader ex_groups"
proof -
  note d = NextGroup_def next_loop.simps groups_def group_def slice_def ex_recording_def Let_def ex_reader_def newAssembler_def StreamReader_HostState_def
  have g: "NextGroup fo js (ex_reader\<lparr>sr_next := 2\<rparr>) = (ex_reader\<lparr>sr_next := 2\<rparr>, Inr None)"
    "NextGroup fo js (ex_reader\<lparr>sr_next := 1\<rparr>) = (ex_reader\<lparr>sr_next := 2\<rparr>, Inr (Some (drop 2 (r_Crossings ex_recording))))"
    "NextGroup fo js ex_reader = (ex_reader\<lparr>sr_next := 1\<rparr>, Inr (Some (take 2 (r_Crossings ex_recording))))" by (simp_all add: d)
  have h: "StreamReader_HostState (ex_reader\<lparr>sr_next := k\<rparr>) = None" for k by (simp add: d)
  show ?thesis unfolding ex_groups_def by (rule yields.another[OF g(3) h yields.another[OF g(2) h yields.ended[OF g(1) h]]])
qed

lemma ex_grouped: "well_grouped ex_groups" "extended ex_start (concat ex_groups) = ex_recording" "StreamReader_HostState ex_reader = None"
    "op_Resume ex_options = None" "r_Crossings ex_start = []"
  by (simp_all add: well_grouped_def ex_groups_def group_ok_def toplevel_def ex_recording_def ex_crossing_def extended_def ex_start_def
      StreamReader_HostState_def ex_reader_def newAssembler_def ex_options_def upt_rec)


text \<open>C13: reading a stream to its end takes finitely many calls. Whatever has been read of whatever input, \<open>NextGroup\<close> delivers
  some number of groups and then reports the end of the stream or an error.\<close>

theorem stream_reading_ends:
  "\<exists>n gs s' r. take_groups fo js (Suc n) s = (s', map (\<lambda>g. Inr (Some g)) gs @ [r]) \<and> length gs = n \<and> (r = Inr None \<or> (\<exists>e. r = Inl e))"
  by (rule reader_ends)

end
