(* ===== verification/Spec2Isabelle.thy ===== *)
theory Spec2Isabelle
  imports Ctfs StreamProofs
begin

text \<open>
  A verification development of the CodeTracer WebAssembly recorder (Go, \<open>src/\<close>).
\<close>

end
